(* ===== verification/Prelude.thy ===== *)
theory Prelude
  imports Main "HOL-Library.Word"
begin

text \<open>
  Shared vocabulary of the development: unsigned 64-bit and 32-bit arithmetic on \<^typ>\<open>nat\<close> with
  the wrap-around written out, the alignment macros, loops with an early return, bounded
  counting, and little-endian loads and stores on a byte-addressed memory.  The generic laws
  the components share are collected in the named collections declared here.
\<close>

unbundle bit_operations_syntax

named_theorems wrap_simps \<open>unsigned arithmetic that does not wrap\<close>
named_theorems align_simps \<open>page and block alignment\<close>
named_theorems mem_simps \<open>loads after stores\<close>

type_synonym byte = "8 word"
type_synonym u16 = "16 word"
type_synonym u32 = "32 word"
type_synonym u64 = "64 word"

section \<open>Unsigned arithmetic on natural numbers\<close>

definition add64 :: "nat \<Rightarrow> nat \<Rightarrow> nat" where
  "add64 a b = (a + b) mod 2 ^ 64"

definition sub64 :: "nat \<Rightarrow> nat \<Rightarrow> nat" where
  "sub64 a b = (a + (2 ^ 64 - b mod 2 ^ 64)) mod 2 ^ 64"

definition mul64 :: "nat \<Rightarrow> nat \<Rightarrow> nat" where
  "mul64 a b = (a * b) mod 2 ^ 64"

definition add32 :: "nat \<Rightarrow> nat \<Rightarrow> nat" where
  "add32 a b = (a + b) mod 2 ^ 32"

definition sub32 :: "nat \<Rightarrow> nat \<Rightarrow> nat" where
  "sub32 a b = (a + (2 ^ 32 - b mod 2 ^ 32)) mod 2 ^ 32"

lemma add64_id [wrap_simps]: "a + b < 2 ^ 64 \<Longrightarrow> add64 a b = a + b"
  by (simp add: add64_def)

lemma mul64_id [wrap_simps]: "a * b < 2 ^ 64 \<Longrightarrow> mul64 a b = a * b"
  by (simp add: mul64_def)

lemma sub64_id [wrap_simps]: "b \<le> a \<Longrightarrow> a < 2 ^ 64 \<Longrightarrow> sub64 a b = a - b"
proof -
  assume "b \<le> a" "a < 2 ^ 64"
  then have "a + (2 ^ 64 - b mod 2 ^ 64) = (a - b) + 2 ^ 64" by simp
  then show ?thesis using \<open>a < 2 ^ 64\<close> by (simp add: sub64_def)
qed

lemma add32_id [wrap_simps]: "a + b < 2 ^ 32 \<Longrightarrow> add32 a b = a + b"
  by (simp add: add32_def)

lemma sub32_id [wrap_simps]: "b \<le> a \<Longrightarrow> a < 2 ^ 32 \<Longrightarrow> sub32 a b = a - b"
proof -
  assume "b \<le> a" "a < 2 ^ 32"
  then have "a + (2 ^ 32 - b mod 2 ^ 32) = (a - b) + 2 ^ 32" by simp
  then show ?thesis using \<open>a < 2 ^ 32\<close> by (simp add: sub32_def)
qed

lemma add64_less [simp]: "add64 a b < 2 ^ 64"
  by (simp add: add64_def)

lemma sub64_less [simp]: "sub64 a b < 2 ^ 64"
  by (simp add: sub64_def)

section \<open>Alignment\<close>

text \<open>
  The C macros \<open>ALIGN_UP\<close> and \<open>ALIGN_DOWN\<close> mask the low bits.  On natural numbers the mask is a
  division; \<open>ALIGN_DOWN_mask\<close> and \<open>ALIGN_UP_mask\<close> show that it is the same value.
\<close>

definition ALIGN_DOWN :: "nat \<Rightarrow> nat \<Rightarrow> nat" where
  "ALIGN_DOWN x a = x div a * a"

definition ALIGN_UP :: "nat \<Rightarrow> nat \<Rightarrow> nat" where
  "ALIGN_UP x a = add64 x (a - 1) div a * a"

lemma unat_and_not_mask:
  fixes x :: u64
  shows "unat (x AND NOT (mask k)) = unat x div 2 ^ k * 2 ^ k"
proof -
  have "x AND NOT (mask k) = push_bit k (drop_bit k x)"
    by (rule bit_word_eqI) (auto simp: bit_simps)
  moreover have "unat (push_bit k (drop_bit k x)) = take_bit 64 (push_bit k (drop_bit k (unat x)))"
  proof -
    have "take_bit 64 (unat x) = unat x"
      using unsigned_less [of x, where 'a = nat] by (simp add: take_bit_nat_eq_self)
    then show ?thesis by (simp add: unsigned_push_bit_eq unsigned_drop_bit_eq del: push_bit_eq_mult)
  qed
  moreover have "push_bit k (drop_bit k (unat x)) = unat x div 2 ^ k * 2 ^ k"
    by (simp only: push_bit_eq_mult drop_bit_eq_div)
  moreover have "unat x div 2 ^ k * 2 ^ k < 2 ^ 64"
    using unsigned_less [of x, where 'a = nat]
    by (auto intro: le_less_trans [OF div_times_less_eq_dividend])
  ultimately show ?thesis by (simp only: take_bit_nat_eq_self)
qed

lemma unat_mask64: "k < 64 \<Longrightarrow> unat (mask k :: u64) = 2 ^ k - 1"
proof -
  assume "k < 64"
  have "unat (mask k :: u64) = unat (take_bit k (- 1 :: u64))" by simp
  also have "\<dots> = take_bit k (mask 64)"
    by (simp add: unsigned_take_bit_eq unsigned_minus_1_eq_mask del: take_bit_minus_one_eq_mask take_bit_of_mask)
  also have "\<dots> = mask k" using \<open>k < 64\<close> by (simp add: min_def)
  finally show ?thesis by (simp only: mask_eq_exp_minus_1)
qed

lemma ALIGN_DOWN_mask:
  "ALIGN_DOWN (unat (x :: u64)) (2 ^ k) = unat (x AND NOT (mask k))"
  by (simp add: ALIGN_DOWN_def unat_and_not_mask)

lemma ALIGN_UP_mask:
  assumes "k < 64"
  shows "ALIGN_UP (unat (x :: u64)) (2 ^ k) = unat ((x + mask k) AND NOT (mask k))"
proof -
  have "unat (x + mask k) = add64 (unat x) (2 ^ k - 1)"
    using unat_mask64 [OF assms] by (simp add: unat_word_ariths(1) add64_def)
  then show ?thesis by (simp only: ALIGN_UP_def unat_and_not_mask)
qed

lemma ALIGN_DOWN_le [align_simps]: "ALIGN_DOWN x a \<le> x"
  by (simp add: ALIGN_DOWN_def)

lemma ALIGN_DOWN_dvd [align_simps]: "a dvd ALIGN_DOWN x a"
  by (simp add: ALIGN_DOWN_def)

lemma ALIGN_UP_dvd [align_simps]: "a dvd ALIGN_UP x a"
  by (simp add: ALIGN_UP_def)

lemma ALIGN_UP_ge: "0 < a \<Longrightarrow> x + (a - 1) < 2 ^ 64 \<Longrightarrow> x \<le> ALIGN_UP x a"
proof -
  assume a: "0 < a" "x + (a - 1) < 2 ^ 64"
  have "x + (a - 1) = (x + (a - 1)) div a * a + (x + (a - 1)) mod a" by simp
  moreover have "(x + (a - 1)) mod a \<le> a - 1" using a by (simp add: less_Suc_eq_le [symmetric])
  ultimately have "x \<le> (x + (a - 1)) div a * a" by linarith
  then show ?thesis using a by (simp add: ALIGN_UP_def add64_id)
qed

lemma ALIGN_UP_less: "0 < a \<Longrightarrow> ALIGN_UP x a < x + a"
proof -
  assume a: "0 < a"
  have "ALIGN_UP x a \<le> add64 x (a - 1)" by (simp add: ALIGN_UP_def)
  also have "\<dots> \<le> x + (a - 1)" by (simp add: add64_def)
  also have "\<dots> < x + a" using a by simp
  finally show ?thesis .
qed

section \<open>Loops with an early return\<close>

text \<open>A \<open>for\<close> loop over \<open>xs\<close> whose body either returns a value or goes on.\<close>

fun first_some :: "('a \<Rightarrow> 'b option) \<Rightarrow> 'a list \<Rightarrow> 'b option" where
  "first_some f [] = None"
| "first_some f (x # xs) = (case f x of Some y \<Rightarrow> Some y | None \<Rightarrow> first_some f xs)"

lemma first_some_append:
  "first_some f (xs @ ys) = (case first_some f xs of Some y \<Rightarrow> Some y | None \<Rightarrow> first_some f ys)"
  by (induction xs) (auto split: option.splits)

lemma first_some_find: "first_some (\<lambda>x. if P x then Some x else None) xs = find P xs"
  by (induction xs) auto

lemma first_some_None: "first_some f xs = None \<longleftrightarrow> (\<forall>x \<in> set xs. f x = None)"
  by (induction xs) (auto split: option.splits)

lemma find_append: "find P (xs @ ys) = (case find P xs of Some y \<Rightarrow> Some y | None \<Rightarrow> find P ys)"
  by (induction xs) auto

lemma find_upt_None: "find P [a..<b] = None \<longleftrightarrow> (\<forall>i. a \<le> i \<and> i < b \<longrightarrow> \<not> P i)"
  by (auto simp: find_None_iff)

lemma find_upt_Some:
  "find P [a..<b] = Some i \<longleftrightarrow> a \<le> i \<and> i < b \<and> P i \<and> (\<forall>j. a \<le> j \<and> j < i \<longrightarrow> \<not> P j)"
proof (induction b)
  case 0
  then show ?case by simp
next
  case (Suc b)
  show ?case
  proof (cases "a \<le> b")
    case False
    then show ?thesis by auto
  next
    case True
    then have upt: "[a..<Suc b] = [a..<b] @ [b]" by simp
    show ?thesis
    proof (cases "find P [a..<b]")
      case None
      then have "\<forall>j. a \<le> j \<and> j < b \<longrightarrow> \<not> P j" by (simp only: find_upt_None)
      then show ?thesis using True None
        by (auto simp: upt find_append simp del: upt_Suc) (metis less_SucE)
    next
      case (Some k)
      with Suc.IH show ?thesis using True
        by (auto simp: upt find_append find_upt_None simp del: upt_Suc)
          (metis Suc.IH Some less_antisym linorder_neqE_nat find_upt_None option.distinct(1))+
    qed
  qed
qed

section \<open>Counting\<close>

text \<open>How many of the positions below \<open>n\<close> satisfy \<open>P\<close>.\<close>

definition count_upto :: "(nat \<Rightarrow> bool) \<Rightarrow> nat \<Rightarrow> nat" where
  "count_upto P n = card {i. i < n \<and> P i}"

lemma count_upto_0 [simp]: "count_upto P 0 = 0"
  by (simp add: count_upto_def)

lemma count_upto_Suc: "count_upto P (Suc n) = count_upto P n + (if P n then 1 else 0)"
proof -
  have "{i. i < Suc n \<and> P i} = (if P n then insert n {i. i < n \<and> P i} else {i. i < n \<and> P i})"
    by (auto simp: less_Suc_eq)
  then show ?thesis by (simp add: count_upto_def)
qed

lemma count_upto_le: "count_upto P n \<le> n"
  by (induction n) (auto simp: count_upto_Suc)

lemma count_upto_add:
  assumes "i < n" "\<not> P i"
  shows "count_upto (\<lambda>j. j = i \<or> P j) n = Suc (count_upto P n)"
proof -
  have "{j. j < n \<and> (j = i \<or> P j)} = insert i {j. j < n \<and> P j}" using assms by auto
  then show ?thesis using assms by (simp add: count_upto_def)
qed

lemma count_upto_remove:
  assumes "i < n" "P i"
  shows "Suc (count_upto (\<lambda>j. j \<noteq> i \<and> P j) n) = count_upto P n"
proof -
  have "(\<lambda>j. j = i \<or> (j \<noteq> i \<and> P j)) = P" using assms by auto
  then show ?thesis using count_upto_add [of i n "\<lambda>j. j \<noteq> i \<and> P j"] assms by simp
qed

lemma count_upto_diff:
  assumes "\<forall>j \<in> A. j < n \<and> P j"
  shows "count_upto (\<lambda>j. j \<notin> A \<and> P j) n + card A = count_upto P n"
proof -
  have A: "A \<subseteq> {j. j < n \<and> P j}" using assms by auto
  then have "finite A" by (rule finite_subset) simp
  moreover have "{j. j < n \<and> j \<notin> A \<and> P j} = {j. j < n \<and> P j} - A" by auto
  moreover have "card A \<le> card {j. j < n \<and> P j}" using A by (simp add: card_mono)
  ultimately show ?thesis using A by (simp add: count_upto_def card_Diff_subset)
qed

lemma count_upto_pos: "i < n \<Longrightarrow> P i \<Longrightarrow> 0 < count_upto P n"
  using count_upto_remove [of i n P] by linarith

lemma count_upto_full: "count_upto P n = n \<longleftrightarrow> (\<forall>i < n. P i)"
proof (induction n)
  case (Suc n)
  then show ?case using count_upto_le [of P n] by (auto simp: count_upto_Suc less_Suc_eq)
qed simp

lemma count_upto_cong: "(\<And>i. i < n \<Longrightarrow> P i = Q i) \<Longrightarrow> count_upto P n = count_upto Q n"
  by (simp add: count_upto_def) (metis (mono_tags, lifting))

lemma count_upto_not: "count_upto P n + count_upto (\<lambda>i. \<not> P i) n = n"
  by (induction n) (auto simp: count_upto_Suc)

lemma count_upto_filter: "count_upto P n = length (filter P [0..<n])"
  by (induction n) (auto simp: count_upto_Suc)

section \<open>Array updates in a loop\<close>

lemma length_fold_update [simp]: "length (fold (\<lambda>i xs. xs[i := v]) is xs) = length xs"
  by (induction "is" arbitrary: xs) auto

lemma nth_fold_update:
  "\<forall>i \<in> set is. i < length xs \<Longrightarrow>
   fold (\<lambda>i xs. xs[i := v]) is xs ! j = (if j \<in> set is then v else xs ! j)"
  by (induction "is" arbitrary: xs) (auto simp: nth_list_update)

section \<open>Memory\<close>

text \<open>A byte-addressed memory with little-endian 64-bit loads and stores.\<close>

definition load64 :: "(nat \<Rightarrow> byte) \<Rightarrow> nat \<Rightarrow> nat" where
  "load64 m a = foldr (\<lambda>i acc. unat (m (a + i)) + 256 * acc) [0..<8] 0"

definition store64 :: "(nat \<Rightarrow> byte) \<Rightarrow> nat \<Rightarrow> nat \<Rightarrow> (nat \<Rightarrow> byte)" where
  "store64 m a v = (\<lambda>x. if a \<le> x \<and> x < a + 8 then word_of_nat (v div 256 ^ (x - a)) else m x)"

lemma load64_cong: "(\<And>i. i < 8 \<Longrightarrow> m (a + i) = m' (a + i)) \<Longrightarrow> load64 m a = load64 m' a"
  unfolding load64_def by (rule foldr_cong) auto

lemma foldr_digits:
  "foldr (\<lambda>i acc. v div 256 ^ (k + i) mod 256 + 256 * acc) [0..<n] 0 = v div 256 ^ k mod 256 ^ n" for v :: nat
proof (induction n arbitrary: k)
  case (Suc n)
  have up: "[0..<Suc n] = 0 # map Suc [0..<n]" by (simp add: upt_conv_Cons map_Suc_upt del: upt_Suc)
  have "foldr (\<lambda>i acc. v div 256 ^ (k + i) mod 256 + 256 * acc) [0..<Suc n] 0 =
      v div 256 ^ k mod 256 + 256 * foldr (\<lambda>i acc. v div 256 ^ (Suc k + i) mod 256 + 256 * acc) [0..<n] 0"
    unfolding up by (simp add: foldr_map comp_def)
  also have "\<dots> = v div 256 ^ k mod 256 + 256 * (v div 256 ^ k div 256 mod 256 ^ n)"
    by (simp only: Suc.IH) (simp add: div_mult2_eq [symmetric] mult.commute)
  also have "\<dots> = v div 256 ^ k mod (256 * 256 ^ n)" by (simp add: mod_mult2_eq)
  finally show ?case by (simp del: upt_Suc)
qed simp

lemma load64_store64_same:
  assumes "v < 2 ^ 64"
  shows "load64 (store64 m a v) a = v"
proof -
  have "load64 (store64 m a v) a = foldr (\<lambda>i acc. v div 256 ^ (0 + i) mod 256 + 256 * acc) [0..<8] 0"
    unfolding load64_def
  proof (rule foldr_cong)
    fix acc :: nat and i :: nat
    assume "i \<in> set [0..<8]"
    then have "store64 m a v (a + i) = word_of_nat (v div 256 ^ i)" by (simp add: store64_def)
    then show "unat (store64 m a v (a + i)) + 256 * acc = v div 256 ^ (0 + i) mod 256 + 256 * acc"
      by (simp add: unat_of_nat)
  qed simp_all
  then show ?thesis using assms by (simp only: foldr_digits) simp
qed

lemma load64_store64_other:
  assumes "a + 8 \<le> b \<or> b + 8 \<le> a"
  shows "load64 (store64 m a v) b = load64 m b"
  by (rule load64_cong) (use assms in \<open>auto simp: store64_def\<close>)

text \<open>At aligned addresses memory behaves like an array of words.\<close>

lemma load64_store64 [mem_simps]:
  assumes "8 dvd a" "8 dvd b" "v < 2 ^ 64"
  shows "load64 (store64 m a v) b = (if a = b then v else load64 m b)"
proof (cases "a = b")
  case False
  obtain i j where "a = 8 * i" "b = 8 * j" using assms(1,2) by (auto elim!: dvdE)
  with False have "a + 8 \<le> b \<or> b + 8 \<le> a" by auto
  with False show ?thesis by (simp add: load64_store64_other)
qed (use assms(3) in \<open>simp add: load64_store64_same\<close>)

lemma store64_outside [mem_simps]: "x < a \<or> a + 8 \<le> x \<Longrightarrow> store64 m a v x = m x"
  by (auto simp: store64_def)

lemma load64_less: "load64 m a < 2 ^ 64"
proof -
  have "foldr (\<lambda>i acc. unat (m (a + i)) + 256 * acc) xs 0 < 256 ^ length xs" for xs
  proof (induction xs)
    case (Cons x xs)
    have "unat (m (a + x)) < 256" using unsigned_less [of "m (a + x)", where 'a = nat] by simp
    with Cons show ?case by simp
  qed simp
  from this [of "[0..<8]"] show ?thesis by (simp add: load64_def)
qed

end
