(* ===== verification/Bitmap.thy ===== *)
theory Bitmap
  imports Prelude
begin

text \<open>
  The header-only bitmap of \<open>kernel/lib/bitmap.h\<close>: a byte array in which bit \<open>i mod 8\<close> of byte
  \<open>i div 8\<close> stands for position \<open>i\<close> (set = in use).  The contract its clients rely on is the
  locale \<open>bit_array\<close> (a set of positions) with its extension \<open>bit_array_clear\<close>; the two search
  routines are proved equal to a plain search for the first clear bit and for the first run.
\<close>

unbundle bit_operations_syntax

section \<open>The contract of a bit array\<close>

locale bit_array =
  fixes bset :: "'b \<Rightarrow> nat \<Rightarrow> 'b"
    and btest :: "'b \<Rightarrow> nat \<Rightarrow> bool"
    and bcap :: "'b \<Rightarrow> nat"
  assumes bcap_bset: "bcap (bset b i) = bcap b"
    and btest_bset: "i < bcap b \<Longrightarrow> btest (bset b i) j = (j = i \<or> btest b j)"
begin

lemma count_bset:
  assumes "i < n" "n \<le> bcap b" "\<not> btest b i"
  shows "count_upto (btest (bset b i)) n = Suc (count_upto (btest b) n)"
proof -
  have "btest (bset b i) = (\<lambda>j. j = i \<or> btest b j)"
    using assms by (auto simp: btest_bset)
  then show ?thesis using assms by (simp add: count_upto_add)
qed

lemma clear_count_bset:
  assumes "i < n" "n \<le> bcap b" "\<not> btest b i"
  shows "Suc (count_upto (\<lambda>j. \<not> btest (bset b i) j) n) = count_upto (\<lambda>j. \<not> btest b j) n"
proof -
  have "(\<lambda>j. \<not> btest (bset b i) j) = (\<lambda>j. j \<noteq> i \<and> \<not> btest b j)"
    using assms by (auto simp: btest_bset)
  then show ?thesis using assms by (simp add: count_upto_remove)
qed

lemma bcap_fold_bset: "bcap (fold (\<lambda>i b. bset b i) is b) = bcap b"
  by (induction "is" arbitrary: b) (auto simp: bcap_bset)

lemma btest_fold_bset:
  "(\<forall>i \<in> set is. i < bcap b) \<Longrightarrow>
   btest (fold (\<lambda>i b. bset b i) is b) j = (j \<in> set is \<or> btest b j)"
  by (induction "is" arbitrary: b) (auto simp: bcap_bset btest_bset)

end

locale bit_array_clear = bit_array +
  fixes bclr :: "'b \<Rightarrow> nat \<Rightarrow> 'b"
  assumes bcap_bclr: "bcap (bclr b i) = bcap b"
    and btest_bclr: "i < bcap b \<Longrightarrow> btest (bclr b i) j = (j \<noteq> i \<and> btest b j)"
begin

lemma clear_count_bclr:
  assumes "i < n" "n \<le> bcap b" "btest b i"
  shows "count_upto (\<lambda>j. \<not> btest (bclr b i) j) n = Suc (count_upto (\<lambda>j. \<not> btest b j) n)"
proof -
  have "(\<lambda>j. \<not> btest (bclr b i) j) = (\<lambda>j. j = i \<or> \<not> btest b j)"
    using assms by (auto simp: btest_bclr)
  then show ?thesis using assms by (simp add: count_upto_add)
qed

lemma bcap_fold_bclr: "bcap (fold (\<lambda>i b. bclr b i) is b) = bcap b"
  by (induction "is" arbitrary: b) (auto simp: bcap_bclr)

lemma btest_fold_bclr:
  "(\<forall>i \<in> set is. i < bcap b) \<Longrightarrow>
   btest (fold (\<lambda>i b. bclr b i) is b) j = (j \<notin> set is \<and> btest b j)"
  by (induction "is" arbitrary: b) (auto simp: bcap_bclr btest_bclr)

lemma set_then_clear: "i < bcap b \<Longrightarrow> \<not> btest b i \<Longrightarrow> btest (bclr (bset b i) i) j = btest b j"
  by (auto simp: btest_bclr btest_bset bcap_bset)

end

section \<open>bitmap.h\<close>

definition bm_set :: "byte list \<Rightarrow> nat \<Rightarrow> byte list" where
  "bm_set bm i = bm[i div 8 := bm ! (i div 8) OR push_bit (i mod 8) 1]"

definition bm_clear :: "byte list \<Rightarrow> nat \<Rightarrow> byte list" where
  "bm_clear bm i = bm[i div 8 := bm ! (i div 8) AND NOT (push_bit (i mod 8) 1)]"

definition bm_test :: "byte list \<Rightarrow> nat \<Rightarrow> bool" where
  "bm_test bm i \<longleftrightarrow> drop_bit (i mod 8) (bm ! (i div 8)) AND 1 \<noteq> 0"

text \<open>
  The byte-granular search: whole bytes first (a byte of \<open>0xFF\<close> is skipped), then the tail.
  The result \<open>-1\<close> of the source is \<^const>\<open>None\<close>.
\<close>

definition bm_byte_scan :: "byte list \<Rightarrow> nat \<Rightarrow> nat \<Rightarrow> nat option" where
  "bm_byte_scan bm nframes b =
     (if bm ! b \<noteq> 0xFF
      then first_some
             (\<lambda>bit. if drop_bit bit (bm ! b) AND 1 = 0
                    then (let idx = b * 8 + bit in if idx < nframes then Some idx else None)
                    else None) [0..<8]
      else None)"

definition bm_first_free :: "byte list \<Rightarrow> nat \<Rightarrow> nat option" where
  "bm_first_free bm nframes =
     (let full_bytes = nframes div 8 in
      case first_some (bm_byte_scan bm nframes) [0..<full_bytes] of
        Some idx \<Rightarrow> Some idx
      | None \<Rightarrow> first_some (\<lambda>idx. if \<not> bm_test bm idx then Some idx else None)
                  [full_bytes * 8..<nframes])"

function bm_fc_loop :: "byte list \<Rightarrow> nat \<Rightarrow> nat \<Rightarrow> nat \<Rightarrow> nat \<Rightarrow> nat \<Rightarrow> nat option" where
  "bm_fc_loop bm nframes count i run run_start =
     (if i < nframes then
        if \<not> bm_test bm i then
          let run_start' = (if run = 0 then i else run_start);
              run' = run + 1
          in if run' \<ge> count then Some run_start'
             else bm_fc_loop bm nframes count (i + 1) run' run_start'
        else bm_fc_loop bm nframes count (i + 1) 0 run_start
      else None)"
  by pat_completeness auto
termination
  by (relation "measure (\<lambda>(bm, n, c, i, r, s). n - i)") auto

declare bm_fc_loop.simps [simp del]

definition bm_find_contiguous :: "byte list \<Rightarrow> nat \<Rightarrow> nat \<Rightarrow> nat option" where
  "bm_find_contiguous bm nframes count =
     (if count = 0 then Some 0 else bm_fc_loop bm nframes count 0 0 0)"

section \<open>Single bits\<close>

lemma and_one_ne_0: "(w AND 1 \<noteq> 0) = bit w 0" for w :: "'a :: len word"
  by (simp add: and_one_eq mod_2_eq_odd bit_0)

lemma drop_bit_and_one_eq_0: "(drop_bit k w AND 1 = 0) = (\<not> bit w k)" for w :: "'a :: len word"
  using and_one_ne_0 [of "drop_bit k w"] by (auto simp: bit_drop_bit_eq)

lemma bm_test_bit: "bm_test bm i = bit (bm ! (i div 8)) (i mod 8)"
  by (simp add: bm_test_def and_one_ne_0 bit_drop_bit_eq)

lemma length_bm_set [simp]: "length (bm_set bm i) = length bm"
  by (simp add: bm_set_def)

lemma length_bm_clear [simp]: "length (bm_clear bm i) = length bm"
  by (simp add: bm_clear_def)

lemma div_mod_8_eq: "i div 8 = j div 8 \<Longrightarrow> i mod 8 = j mod 8 \<Longrightarrow> i = (j::nat)"
  by (metis div_mult_mod_eq)

lemma bm_test_set: "i < 8 * length bm \<Longrightarrow> bm_test (bm_set bm i) j = (j = i \<or> bm_test bm j)"
proof -
  assume "i < 8 * length bm"
  then have l: "i div 8 < length bm" by auto
  show ?thesis
  proof (cases "j div 8 = i div 8")
    case True
    then show ?thesis using l
      by (auto simp: bm_test_bit bm_set_def bit_or_iff bit_exp_iff dest: div_mod_8_eq)
  next
    case False
    then show ?thesis by (auto simp: bm_test_bit bm_set_def)
  qed
qed

lemma bm_test_clear: "i < 8 * length bm \<Longrightarrow> bm_test (bm_clear bm i) j = (j \<noteq> i \<and> bm_test bm j)"
proof -
  assume "i < 8 * length bm"
  then have l: "i div 8 < length bm" by auto
  show ?thesis
  proof (cases "j div 8 = i div 8")
    case True
    then show ?thesis using l
      by (auto simp: bm_test_bit bm_clear_def bit_and_iff bit_not_iff bit_exp_iff
          dest: div_mod_8_eq)
  next
    case False
    then show ?thesis by (auto simp: bm_test_bit bm_clear_def)
  qed
qed

interpretation bm: bit_array_clear bm_set bm_test "\<lambda>bm. 8 * length bm" bm_clear
  by unfold_locales (simp_all add: bm_test_set bm_test_clear)

lemma bm_test_replicate_full: "i < 8 * n \<Longrightarrow> bm_test (replicate n 0xFF) i"
proof -
  assume "i < 8 * n"
  then have "i div 8 < n" by auto
  moreover have "bit (0xFF :: byte) (i mod 8)"
  proof -
    have "(0xFF :: byte) = mask 8" by (simp add: mask_eq_exp_minus_1)
    moreover have "bit (mask 8 :: byte) (i mod 8)" by (simp only: bit_mask_iff) simp
    ultimately show ?thesis by metis
  qed
  ultimately show ?thesis by (simp add: bm_test_bit)
qed

section \<open>The search routines\<close>

lemma byte_full_iff: "(w :: byte) = 0xFF \<longleftrightarrow> (\<forall>k < 8. bit w k)"
proof -
  have "(0xFF :: byte) = mask 8" by (simp add: mask_eq_exp_minus_1)
  then show ?thesis by (auto simp: bit_eq_iff bit_mask_iff dest: bit_imp_le_length)
qed

lemma upt_block: "[b * 8..<b * 8 + 8] = map (\<lambda>k. b * 8 + k) [0..<8]"
  by (simp add: map_add_upt add.commute)

lemma find_map: "find P (map f xs) = map_option f (find (P \<circ> f) xs)"
  by (induction xs) auto

lemma bm_byte_scan_find:
  assumes "b * 8 + 8 \<le> nframes"
  shows "bm_byte_scan bm nframes b = find (\<lambda>i. \<not> bm_test bm i) [b * 8..<b * 8 + 8]"
proof -
  let ?w = "bm ! b"
  have t: "bm_test bm (b * 8 + k) = bit ?w k" if "k < 8" for k
    using that by (simp add: bm_test_bit)
  have "find (\<lambda>i. \<not> bm_test bm i) [b * 8..<b * 8 + 8] =
      map_option (\<lambda>k. b * 8 + k) (find (\<lambda>k. \<not> bit ?w k) [0..<8])"
    unfolding upt_block find_map
    by (rule arg_cong [of _ _ "map_option _"], rule find_cong) (auto simp: t)
  moreover have "bm_byte_scan bm nframes b =
      (if ?w = 0xFF then None else map_option (\<lambda>k. b * 8 + k) (find (\<lambda>k. \<not> bit ?w k) [0..<8]))"
  proof -
    have scan: "first_some (\<lambda>k. if drop_bit k ?w AND 1 = 0
            then (let idx = b * 8 + k in if idx < nframes then Some idx else None) else None) xs
        = map_option (\<lambda>k. b * 8 + k) (find (\<lambda>k. \<not> bit ?w k) xs)"
      if "set xs \<subseteq> {..<8}" for xs
      using that assms
      by (induction xs) (auto simp: Let_def drop_bit_and_one_eq_0)
    have "set [0..<8] \<subseteq> {..<8::nat}" by auto
    from scan [OF this] show ?thesis by (simp only: bm_byte_scan_def if_not_P if_P) simp
  qed
  moreover have "find (\<lambda>k. \<not> bit ?w k) [0..<8] = None" if "?w = 0xFF"
    using that byte_full_iff [of ?w] by (simp only: find_upt_None) simp
  ultimately show ?thesis by auto
qed

lemma bm_bytes_scan_find:
  "F * 8 \<le> nframes \<Longrightarrow>
   first_some (bm_byte_scan bm nframes) [0..<F] = find (\<lambda>i. \<not> bm_test bm i) [0..<F * 8]"
proof (induction F)
  case (Suc F)
  have "[0..<Suc F * 8] = [0..<F * 8] @ [F * 8..<F * 8 + 8]"
    by (metis add.commute le0 mult_Suc upt_add_eq_append)
  then show ?case using Suc
    by (auto simp: first_some_append find_append bm_byte_scan_find split: option.splits)
qed simp

theorem bm_first_free_find: "bm_first_free bm nframes = find (\<lambda>i. \<not> bm_test bm i) [0..<nframes]"
proof -
  let ?F = "nframes div 8"
  have le: "?F * 8 \<le> nframes" by simp
  have "[0..<nframes] = [0..<?F * 8] @ [?F * 8..<nframes]"
    using upt_add_eq_append [of 0 "?F * 8" "nframes - ?F * 8"] le by simp
  then show ?thesis
    by (simp only: bm_first_free_def Let_def first_some_find bm_bytes_scan_find [OF le] find_append)
qed

text \<open>A start of a free run: \<open>count\<close> clear bits from \<open>s\<close> on, all below \<open>nframes\<close>.\<close>

definition free_run :: "byte list \<Rightarrow> nat \<Rightarrow> nat \<Rightarrow> nat \<Rightarrow> bool" where
  "free_run bm nframes count s \<longleftrightarrow> s + count \<le> nframes \<and> (\<forall>k < count. \<not> bm_test bm (s + k))"

lemma free_run_at:
  assumes "free_run bm nframes count s" "s \<le> j" "j < s + count"
  shows "\<not> bm_test bm j"
proof -
  have "j - s < count" using assms(2,3) by linarith
  with assms(1) have "\<not> bm_test bm (s + (j - s))" unfolding free_run_def by blast
  with assms(2) show ?thesis by simp
qed

lemma bm_fc_loop_find:
  assumes "run < count" "run \<le> i" "run > 0 \<Longrightarrow> run_start = i - run" "i \<le> nframes"
    and "\<forall>k. i - run \<le> k \<and> k < i \<longrightarrow> \<not> bm_test bm k"
    and "\<forall>s < i - run. \<not> free_run bm nframes count s"
  shows "bm_fc_loop bm nframes count i run run_start = find (free_run bm nframes count) [0..<nframes]"
  using assms
proof (induction bm nframes count i run run_start rule: bm_fc_loop.induct)
  case (1 bm nframes count i run run_start)
  note step = bm_fc_loop.simps [of bm nframes count i run run_start]
  consider (last) "\<not> i < nframes" | (used) "i < nframes" "bm_test bm i"
    | (hit) "i < nframes" "\<not> bm_test bm i" "count \<le> run + 1"
    | (go) "i < nframes" "\<not> bm_test bm i" "\<not> count \<le> run + 1" by linarith
  then show ?case
  proof cases
    case last
    have "\<not> free_run bm nframes count s" for s
      using 1(3-8) last by (cases "s < i - run") (auto simp: free_run_def)
    then have "find (free_run bm nframes count) [0..<nframes] = None"
      by (simp only: find_upt_None) simp
    with last show ?thesis by (simp add: step)
  next
    case used
    have "\<forall>s < i + 1. \<not> free_run bm nframes count s"
    proof (intro allI impI notI)
      fix s assume s: "s < i + 1" and r: "free_run bm nframes count s"
      with 1(8) have "i - run \<le> s" by (meson not_le)
      then have "i - s < count" using 1(3,4) s by linarith
      with r have "\<not> bm_test bm (s + (i - s))" unfolding free_run_def by blast
      with s used(2) show False by simp
    qed
    then have "bm_fc_loop bm nframes count (i + 1) 0 run_start
        = find (free_run bm nframes count) [0..<nframes]"
      by (intro 1(2)) (use used 1(3-6) in auto)
    with used show ?thesis by (simp add: step)
  next
    case hit
    let ?s = "if run = 0 then i else run_start"
    have s: "?s = i - run" using 1(5) by auto
    have "\<not> bm_test bm (i - run + k)" if "k < count" for k
    proof (cases "k = run")
      case True
      then show ?thesis using hit 1(4) by simp
    next
      case False
      then have "i - run + k < i" using that hit(3) 1(3,4) by linarith
      then show ?thesis using 1(7) by simp
    qed
    then have "free_run bm nframes count ?s"
      using hit 1(3,4) by (simp only: s free_run_def) simp
    moreover have "\<forall>j < ?s. \<not> free_run bm nframes count j" using 1(8) by (simp add: s)
    ultimately have "find (free_run bm nframes count) [0..<nframes] = Some ?s"
      using hit by (simp only: find_upt_Some) (auto simp: s)
    with hit show ?thesis by (simp add: step Let_def)
  next
    case go
    have "bm_fc_loop bm nframes count (i + 1) (run + 1) (if run = 0 then i else run_start)
        = find (free_run bm nframes count) [0..<nframes]"
      by (rule 1(1)) (use go 1(3-8) in \<open>auto simp: less_Suc_eq\<close>)
    with go show ?thesis by (simp add: step Let_def)
  qed
qed

theorem bm_find_contiguous_find:
  "0 < count \<Longrightarrow> bm_find_contiguous bm nframes count = find (free_run bm nframes count) [0..<nframes]"
  using bm_fc_loop_find [of 0 count 0 0 nframes bm] by (simp add: bm_find_contiguous_def)

end
