(* ===== verification/Pmm.thy ===== *)
theory Pmm
  imports Bitmap
begin

text \<open>
  The physical memory manager of \<open>kernel/mm/pmm.c\<close>: one bit and one sharing count per 4 KiB
  frame.  Every operation runs under the manager's spinlock, so each is one atomic function on
  the state.  Physical addresses are unsigned 64-bit numbers; a frame number is an address
  shifted right by 12.  The memory reached through the direct map is the field \<open>phys_mem\<close>.
\<close>

section \<open>State\<close>

definition PMM_PAGE_SIZE :: nat where "PMM_PAGE_SIZE = 4096"
definition PMM_PAGE_SHIFT :: nat where "PMM_PAGE_SHIFT = 12"
definition MIB :: nat where "MIB = 1024 * 1024"
definition GIB :: nat where "GIB = 1024 * MIB"
definition PMM_EARLY_HHDM_LIMIT :: nat where "PMM_EARLY_HHDM_LIMIT = 4 * GIB"
definition PMM_EARLY_BOOT_RESERVE :: nat where "PMM_EARLY_BOOT_RESERVE = 56 * MIB"

definition BOOT_MEM_USABLE :: nat where "BOOT_MEM_USABLE = 1"
definition BOOT_MEM_BOOTLOADER :: nat where "BOOT_MEM_BOOTLOADER = 6"

record boot_mmap_entry =
  e_base :: nat
  e_length :: nat
  e_type :: nat

record pmm_state =
  bitmap :: "byte list"
  nframes :: nat
  bitmap_bytes :: nat
  usable_frames :: nat
  free_frames :: nat
  bitmap_phys :: nat
  bitmap_frames :: nat
  refcount :: "nat list"
  refcount_bytes :: nat
  refcount_phys :: nat
  refcount_frames :: nat
  hhdm :: nat
  phys_mem :: "nat \<Rightarrow> byte"

text \<open>\<open>memset\<close> through the direct map.\<close>

definition mem_fill :: "nat \<Rightarrow> nat \<Rightarrow> byte \<Rightarrow> (nat \<Rightarrow> byte) \<Rightarrow> (nat \<Rightarrow> byte)" where
  "mem_fill a len v m = (\<lambda>x. if a \<le> x \<and> x < a + len then v else m x)"

section \<open>Initialisation\<close>

definition mark_range :: "nat \<Rightarrow> nat \<Rightarrow> bool \<Rightarrow> pmm_state \<Rightarrow> pmm_state" where
  "mark_range base len used st =
     (let start = ALIGN_UP base PMM_PAGE_SIZE div 2 ^ PMM_PAGE_SHIFT;
          end = add64 base len div 2 ^ PMM_PAGE_SHIFT
      in st\<lparr>bitmap := fold (\<lambda>f bm. if used then bm_set bm f else bm_clear bm f)
                [start..<min end (nframes st)] (bitmap st)\<rparr>)"

definition bitmap_candidate :: "nat \<Rightarrow> nat \<Rightarrow> boot_mmap_entry \<Rightarrow> nat option" where
  "bitmap_candidate need want_type e =
     (if e_type e \<noteq> want_type then None
      else let start = ALIGN_UP (e_base e) PMM_PAGE_SIZE;
               end0 = ALIGN_DOWN (add64 (e_base e) (e_length e)) PMM_PAGE_SIZE;
               end = (if end0 > PMM_EARLY_HHDM_LIMIT then PMM_EARLY_HHDM_LIMIT else end0)
           in if end \<le> start \<or> sub64 end start < need then None
              else Some (sub64 end need))"

definition find_bitmap_region :: "pmm_state \<Rightarrow> boot_mmap_entry list \<Rightarrow> nat" where
  "find_bitmap_region st entries =
     (let need = ALIGN_UP (add64 (bitmap_bytes st) (refcount_bytes st)) PMM_PAGE_SIZE in
      case first_some (\<lambda>want. first_some (bitmap_candidate need want) entries)
             [BOOT_MEM_BOOTLOADER, BOOT_MEM_USABLE] of
        Some p \<Rightarrow> p
      | None \<Rightarrow> 0)"

text \<open>Step 1: the highest usable address and the usable bytes.\<close>

definition usable_extent :: "boot_mmap_entry list \<Rightarrow> nat \<times> nat" where
  "usable_extent entries =
     fold (\<lambda>e (highest, usable).
        if e_type e = BOOT_MEM_USABLE
        then (let top = add64 (e_base e) (e_length e)
              in (if top > highest then top else highest, add64 usable (e_length e)))
        else (highest, usable)) entries (0, 0)"

definition count_free :: "pmm_state \<Rightarrow> nat" where
  "count_free st = fold (\<lambda>i n. if \<not> bm_test (bitmap st) i then n + 1 else n) [0..<nframes st] 0"

text \<open>
  Initialisation reports its three fatal conditions on the console and returns with the state
  as far as it got; \<open>pmm_outcome\<close> records which exit was taken.
\<close>

datatype pmm_outcome = No_memmap | No_usable_memory | No_region | Ready

definition pmm_sized :: "boot_mmap_entry list \<Rightarrow> pmm_state \<Rightarrow> pmm_state" where
  "pmm_sized entries st =
     (case usable_extent entries of (highest, usable) \<Rightarrow>
        let nf = ALIGN_UP highest PMM_PAGE_SIZE div 2 ^ PMM_PAGE_SHIFT
        in st\<lparr>nframes := nf,
              bitmap_bytes := ALIGN_UP (nf div 8) PMM_PAGE_SIZE,
              refcount_bytes := ALIGN_UP (mul64 nf 4) PMM_PAGE_SIZE,
              usable_frames := usable div 2 ^ PMM_PAGE_SHIFT\<rparr>)"

definition pmm_placed :: "nat \<Rightarrow> pmm_state \<Rightarrow> pmm_state" where
  "pmm_placed region st =
     (let rp = add64 region (bitmap_bytes st) in
      st\<lparr>bitmap_phys := region,
         bitmap_frames := bitmap_bytes st div 2 ^ PMM_PAGE_SHIFT,
         refcount_phys := rp,
         refcount_frames := refcount_bytes st div 2 ^ PMM_PAGE_SHIFT,
         refcount := replicate (refcount_bytes st div 4) 0,
         bitmap := replicate (bitmap_bytes st) 0xFF\<rparr>)"

definition pmm_marked :: "boot_mmap_entry list \<Rightarrow> pmm_state \<Rightarrow> pmm_state" where
  "pmm_marked entries st =
     (let st1 = fold (\<lambda>e s. if e_type e = BOOT_MEM_USABLE
                            then mark_range (e_base e) (e_length e) False s else s) entries st;
          st2 = mark_range 0 PMM_EARLY_BOOT_RESERVE True st1
      in mark_range (bitmap_phys st2) (add64 (bitmap_bytes st2) (refcount_bytes st2)) True st2)"

definition pmm_init :: "boot_mmap_entry list \<Rightarrow> nat \<Rightarrow> pmm_state \<Rightarrow> pmm_outcome \<times> pmm_state" where
  "pmm_init entries hhdm_off st =
     (if entries = [] \<or> hhdm_off = 0 then (No_memmap, st)
      else let st1 = pmm_sized entries st in
      if nframes st1 = 0 then (No_usable_memory, st1)
      else let st2 = st1\<lparr>hhdm := hhdm_off\<rparr>;
               region = find_bitmap_region st2 entries in
      if region = 0 then (No_region, st2\<lparr>bitmap_phys := 0\<rparr>)
      else let st3 = pmm_marked entries (pmm_placed region st2)
           in (Ready, st3\<lparr>free_frames := count_free st3\<rparr>))"

section \<open>Allocation and release\<close>

definition pmm_alloc_frame :: "pmm_state \<Rightarrow> nat \<times> pmm_state" where
  "pmm_alloc_frame st =
     (case bm_first_free (bitmap st) (nframes st) of
        None \<Rightarrow> (0, st)
      | Some idx \<Rightarrow>
          let phys = idx * 2 ^ PMM_PAGE_SHIFT in
          (phys, st\<lparr>bitmap := bm_set (bitmap st) idx,
                    refcount := (refcount st)[idx := 1],
                    free_frames := sub64 (free_frames st) 1,
                    phys_mem := mem_fill phys PMM_PAGE_SIZE 0 (phys_mem st)\<rparr>))"

definition pmm_alloc_contiguous :: "nat \<Rightarrow> pmm_state \<Rightarrow> nat \<times> pmm_state" where
  "pmm_alloc_contiguous count st =
     (case bm_find_contiguous (bitmap st) (nframes st) count of
        None \<Rightarrow> (0, st)
      | Some idx \<Rightarrow>
          let phys = idx * 2 ^ PMM_PAGE_SHIFT in
          (phys, st\<lparr>bitmap := fold (\<lambda>i bm. bm_set bm i) [idx..<idx + count] (bitmap st),
                    refcount := fold (\<lambda>i rc. rc[i := 1]) [idx..<idx + count] (refcount st),
                    free_frames := sub64 (free_frames st) count,
                    phys_mem := mem_fill phys (mul64 count PMM_PAGE_SIZE) 0 (phys_mem st)\<rparr>))"

definition pmm_free_frame :: "nat \<Rightarrow> pmm_state \<Rightarrow> pmm_state" where
  "pmm_free_frame phys st =
     (let idx = phys div 2 ^ PMM_PAGE_SHIFT in
      if idx = 0 \<or> idx \<ge> nframes st then st
      else if \<not> bm_test (bitmap st) idx then st
      else if refcount st ! idx > 1
      then st\<lparr>refcount := (refcount st)[idx := sub32 (refcount st ! idx) 1]\<rparr>
      else st\<lparr>refcount := (refcount st)[idx := 0],
              bitmap := bm_clear (bitmap st) idx,
              free_frames := add64 (free_frames st) 1\<rparr>)"

definition pmm_free_contiguous :: "nat \<Rightarrow> nat \<Rightarrow> pmm_state \<Rightarrow> pmm_state" where
  "pmm_free_contiguous phys count st =
     (if phys = 0 \<or> count = 0 then st
      else fold (\<lambda>i s. pmm_free_frame (add64 phys (mul64 i PMM_PAGE_SIZE)) s) [0..<count] st)"

definition pmm_alloc_2m :: "pmm_state \<Rightarrow> nat \<times> pmm_state" where
  "pmm_alloc_2m st =
     (case pmm_alloc_contiguous 1024 st of (base, st1) \<Rightarrow>
        if base = 0 then (0, st1)
        else let idx = base div 2 ^ PMM_PAGE_SHIFT;
                 aligned = ALIGN_UP idx 512;
                 st2 = (if aligned \<noteq> idx then pmm_free_contiguous base (aligned - idx) st1 else st1);
                 tail_start = aligned + 512;
                 tail_end = idx + 1024;
                 st3 = (if tail_end > tail_start
                        then pmm_free_contiguous (tail_start * 2 ^ PMM_PAGE_SHIFT)
                               (tail_end - tail_start) st2
                        else st2)
             in (aligned * 2 ^ PMM_PAGE_SHIFT, st3))"

definition pmm_inc_frame_ref :: "nat \<Rightarrow> pmm_state \<Rightarrow> int \<times> pmm_state" where
  "pmm_inc_frame_ref phys st =
     (let idx = phys div 2 ^ PMM_PAGE_SHIFT in
      if idx = 0 \<or> idx \<ge> nframes st then (-1, st)
      else if \<not> bm_test (bitmap st) idx \<or> refcount st ! idx = 0 then (-1, st)
      else (0, st\<lparr>refcount := (refcount st)[idx := add32 (refcount st ! idx) 1]\<rparr>))"

definition pmm_get_frame_refcount :: "nat \<Rightarrow> pmm_state \<Rightarrow> nat" where
  "pmm_get_frame_refcount phys st =
     (let idx = phys div 2 ^ PMM_PAGE_SHIFT in
      if idx = 0 \<or> idx \<ge> nframes st then 0 else refcount st ! idx)"

definition pmm_get_free_frames :: "pmm_state \<Rightarrow> nat" where
  "pmm_get_free_frames st = free_frames st"

definition pmm_get_usable_frames :: "pmm_state \<Rightarrow> nat" where
  "pmm_get_usable_frames st = usable_frames st"

section \<open>The invariant\<close>

text \<open>
  Both arrays cover every frame, frame 0 is never free, the free counter is the number of clear
  bits, and a clear bit goes with a zero sharing count.
\<close>

definition pmm_inv :: "pmm_state \<Rightarrow> bool" where
  "pmm_inv st \<longleftrightarrow>
     0 < nframes st \<and> nframes st \<le> 2 ^ 52 \<and>
     nframes st \<le> 8 * length (bitmap st) \<and> nframes st \<le> length (refcount st) \<and>
     bm_test (bitmap st) 0 \<and> refcount st ! 0 = 0 \<and>
     free_frames st = count_upto (\<lambda>i. \<not> bm_test (bitmap st) i) (nframes st) \<and>
     (\<forall>i < nframes st. refcount st ! i < 2 ^ 32) \<and>
     (\<forall>i < nframes st. \<not> bm_test (bitmap st) i \<longrightarrow> refcount st ! i = 0)"

text \<open>The number of references to a frame, by frame number and by physical address.\<close>

definition frame_count :: "pmm_state \<Rightarrow> nat \<Rightarrow> nat" where
  "frame_count st i = (if i < nframes st \<and> bm_test (bitmap st) i then refcount st ! i else 0)"

definition frame_refs :: "pmm_state \<Rightarrow> nat \<Rightarrow> nat" where
  "frame_refs st p = (if p mod 4096 = 0 then frame_count st (p div 4096) else 0)"

lemmas pmm_consts = PMM_PAGE_SIZE_def PMM_PAGE_SHIFT_def

lemma pmm_inv_free_frames_less: "pmm_inv st \<Longrightarrow> free_frames st < 2 ^ 64"
  using count_upto_le [of "\<lambda>i. \<not> bm_test (bitmap st) i" "nframes st"]
  by (auto simp: pmm_inv_def)

section \<open>Single frames\<close>

text \<open>Taking one free frame: what it does to the tables, shared by both allocators.\<close>

lemma take_frame_inv:
  assumes inv: "pmm_inv st" and i: "i < nframes st" "\<not> bm_test (bitmap st) i"
  defines "st' \<equiv> st\<lparr>bitmap := bm_set (bitmap st) i, refcount := (refcount st)[i := 1],
                    free_frames := sub64 (free_frames st) 1\<rparr>"
  shows "pmm_inv st'" "frame_count st' = (frame_count st)(i := 1)"
    "Suc (free_frames st') = free_frames st"
proof -
  have bi: "i < 8 * length (bitmap st)" and ri: "i < length (refcount st)"
    using inv i by (auto simp: pmm_inv_def)
  have pos: "0 < free_frames st"
    using inv i count_upto_pos [of i "nframes st" "\<lambda>i. \<not> bm_test (bitmap st) i"]
    by (auto simp: pmm_inv_def)
  then have ff: "sub64 (free_frames st) 1 = free_frames st - 1"
    using pmm_inv_free_frames_less [OF inv] by (simp add: sub64_id)
  then show "Suc (free_frames st') = free_frames st" using pos by (simp add: st'_def)
  have cnt: "Suc (count_upto (\<lambda>j. \<not> bm_test (bm_set (bitmap st) i) j) (nframes st)) =
      count_upto (\<lambda>j. \<not> bm_test (bitmap st) j) (nframes st)"
    using bm.clear_count_bset [of i "nframes st" "bitmap st"] inv i by (auto simp: pmm_inv_def)
  have "i \<noteq> 0" using inv i by (cases "i = 0") (auto simp: pmm_inv_def)
  then show "pmm_inv st'" using inv cnt ff bi ri
    by (auto simp: pmm_inv_def st'_def bm_test_set nth_list_update)
  show "frame_count st' = (frame_count st)(i := 1)"
    using i bi ri by (auto simp: frame_count_def st'_def bm_test_set fun_eq_iff)
qed

lemma pmm_alloc_frame_cases:
  assumes "pmm_inv st"
  obtains (oom) "pmm_alloc_frame st = (0, st)" "free_frames st = 0"
  | (frame) i where "0 < i" "i < nframes st" "\<not> bm_test (bitmap st) i"
      "\<forall>j < i. bm_test (bitmap st) j"
      "pmm_alloc_frame st = (i * 4096,
         st\<lparr>bitmap := bm_set (bitmap st) i, refcount := (refcount st)[i := 1],
            free_frames := sub64 (free_frames st) 1,
            phys_mem := mem_fill (i * 4096) 4096 0 (phys_mem st)\<rparr>)"
proof (cases "bm_first_free (bitmap st) (nframes st)")
  case None
  then have "\<forall>i. 0 \<le> i \<and> i < nframes st \<longrightarrow> \<not> \<not> bm_test (bitmap st) i"
    by (simp only: bm_first_free_find find_upt_None)
  then have "count_upto (\<lambda>i. \<not> bm_test (bitmap st) i) (nframes st) = 0"
    using count_upto_full [of "bm_test (bitmap st)" "nframes st"]
      count_upto_not [of "bm_test (bitmap st)" "nframes st"] by simp
  with None oom assms show thesis by (simp add: pmm_alloc_frame_def pmm_inv_def)
next
  case (Some i)
  then have i: "i < nframes st" "\<not> bm_test (bitmap st) i" "\<forall>j < i. bm_test (bitmap st) j"
    by (simp_all only: bm_first_free_find find_upt_Some) auto
  with assms have "0 < i" by (auto simp: pmm_inv_def intro: gr0I)
  with i Some frame show thesis by (simp add: pmm_alloc_frame_def pmm_consts Let_def)
qed

lemma pmm_inv_mem [simp]: "pmm_inv (st\<lparr>phys_mem := m\<rparr>) = pmm_inv st"
  by (simp add: pmm_inv_def)

lemma frame_count_mem [simp]: "frame_count (st\<lparr>phys_mem := m\<rparr>) = frame_count st"
  by (simp add: frame_count_def fun_eq_iff)

lemma frame_refs_upd:
  "frame_count st' = (frame_count st)(i := c) \<Longrightarrow> frame_refs st' = (frame_refs st)(i * 4096 := c)"
  by (auto simp: frame_refs_def fun_eq_iff)

lemma pmm_alloc_frame_inv: "pmm_inv st \<Longrightarrow> pmm_inv (snd (pmm_alloc_frame st))"
  by (rule pmm_alloc_frame_cases [of st]) (use take_frame_inv(1) in auto)

lemma pmm_alloc_frame_refs:
  assumes inv: "pmm_inv st" and "pmm_alloc_frame st = (p, st')" "p \<noteq> 0"
  shows "frame_refs st p = 0" "frame_refs st' = (frame_refs st)(p := 1)"
proof -
  obtain i where i: "i < nframes st" "\<not> bm_test (bitmap st) i" "p = i * 4096"
    "st' = st\<lparr>bitmap := bm_set (bitmap st) i, refcount := (refcount st)[i := 1],
            free_frames := sub64 (free_frames st) 1\<rparr>
           \<lparr>phys_mem := mem_fill (i * 4096) 4096 0 (phys_mem st)\<rparr>"
    using assms(2,3) by (rule_tac pmm_alloc_frame_cases [OF inv]) auto
  then show "frame_refs st p = 0" by (simp add: frame_refs_def frame_count_def)
  from take_frame_inv(2) [OF inv i(1,2)] have "frame_count st' = (frame_count st)(i := 1)"
    by (simp only: i(4) frame_count_mem)
  then show "frame_refs st' = (frame_refs st)(p := 1)" using frame_refs_upd i(3) by blast
qed

lemma pmm_free_frame_inv:
  assumes "pmm_inv st"
  shows "pmm_inv (pmm_free_frame p st)"
proof -
  let ?i = "p div 4096"
  consider (no) "pmm_free_frame p st = st"
    | (dec) "0 < ?i" "?i < nframes st" "bm_test (bitmap st) ?i" "1 < refcount st ! ?i"
    | (rel) "0 < ?i" "?i < nframes st" "bm_test (bitmap st) ?i" "refcount st ! ?i \<le> 1"
    by (fastforce simp: pmm_free_frame_def pmm_consts Let_def)
  then show ?thesis
  proof cases
    case dec
    then have "sub32 (refcount st ! ?i) 1 = refcount st ! ?i - 1"
      using assms by (auto simp: pmm_inv_def intro!: sub32_id)
    with dec assms show ?thesis
      by (auto simp: pmm_free_frame_def pmm_consts Let_def pmm_inv_def nth_list_update)
  next
    case rel
    have "count_upto (\<lambda>j. \<not> bm_test (bm_clear (bitmap st) ?i) j) (nframes st) =
        Suc (free_frames st)"
      using bm.clear_count_bclr [of ?i "nframes st" "bitmap st"] rel assms
      by (auto simp: pmm_inv_def)
    moreover have "Suc (free_frames st) \<le> nframes st"
      using calculation count_upto_le by metis
    then have "add64 (free_frames st) 1 = Suc (free_frames st)"
      using assms by (simp add: pmm_inv_def add64_id)
    moreover have "?i < 8 * length (bitmap st)" "?i < length (refcount st)"
      using rel assms by (auto simp: pmm_inv_def)
    ultimately show ?thesis using rel assms
      by (auto simp: pmm_free_frame_def pmm_consts Let_def pmm_inv_def nth_list_update bm_test_clear)
  qed (use assms in simp)
qed

lemma pmm_free_frame_count:
  assumes "pmm_inv st" "0 < frame_count st (p div 4096)"
  shows "frame_count (pmm_free_frame p st) =
    (frame_count st)(p div 4096 := frame_count st (p div 4096) - 1)"
proof -
  let ?i = "p div 4096"
  have i: "?i < nframes st" "bm_test (bitmap st) ?i" "0 < refcount st ! ?i"
    using assms(2) by (auto simp: frame_count_def split: if_splits)
  with assms have ne: "?i \<noteq> 0" by (auto simp: pmm_inv_def)
  have b: "?i < 8 * length (bitmap st)" "?i < length (refcount st)" "refcount st ! ?i < 2 ^ 32"
    using i assms(1) by (auto simp: pmm_inv_def)
  then have "sub32 (refcount st ! ?i) 1 = refcount st ! ?i - 1"
    using i by (auto intro!: sub32_id)
  then show ?thesis using i ne b
    by (auto simp: pmm_free_frame_def pmm_consts Let_def frame_count_def fun_eq_iff
        bm_test_clear nth_list_update)
qed

lemma pmm_inc_frame_ref_spec:
  assumes inv: "pmm_inv st" and c: "frame_count st (p div 4096) < 2 ^ 32 - 1"
  shows "pmm_inv (snd (pmm_inc_frame_ref p st))"
    and "fst (pmm_inc_frame_ref p st) = (if 0 < frame_count st (p div 4096) then 0 else -1)"
    and "frame_count (snd (pmm_inc_frame_ref p st)) =
      (if 0 < frame_count st (p div 4096)
       then (frame_count st)(p div 4096 := frame_count st (p div 4096) + 1) else frame_count st)"
proof -
  let ?i = "p div 4096"
  have "(0 < frame_count st ?i) \<longleftrightarrow>
      \<not> (?i = 0 \<or> ?i \<ge> nframes st) \<and> \<not> (\<not> bm_test (bitmap st) ?i \<or> refcount st ! ?i = 0)"
    using inv by (auto simp: frame_count_def pmm_inv_def split: if_splits)
  moreover have "add32 (refcount st ! ?i) 1 = refcount st ! ?i + 1" if "0 < frame_count st ?i"
    using that c by (auto simp: frame_count_def add32_id split: if_splits)
  ultimately show "pmm_inv (snd (pmm_inc_frame_ref p st))"
    "fst (pmm_inc_frame_ref p st) = (if 0 < frame_count st ?i then 0 else -1)"
    "frame_count (snd (pmm_inc_frame_ref p st)) =
      (if 0 < frame_count st ?i
       then (frame_count st)(?i := frame_count st ?i + 1) else frame_count st)"
    using inv c
    by (auto simp: pmm_inc_frame_ref_def pmm_consts Let_def pmm_inv_def frame_count_def
        nth_list_update fun_eq_iff split: if_splits)
qed

section \<open>The contract the other components use\<close>

text \<open>
  A frame allocator as its clients see it: a reference count per page address (0 = not held),
  an allocation that returns a page nobody holds, and one reference given back or taken per
  call.  Address 0 is the out-of-memory answer.
\<close>

locale frame_allocator =
  fixes fa_inv :: "'s \<Rightarrow> bool"
    and refs :: "'s \<Rightarrow> nat \<Rightarrow> nat"
    and fa_alloc :: "'s \<Rightarrow> nat \<times> 's"
    and fa_free :: "nat \<Rightarrow> 's \<Rightarrow> 's"
    and fa_inc :: "nat \<Rightarrow> 's \<Rightarrow> int \<times> 's"
  assumes alloc_inv: "fa_inv s \<Longrightarrow> fa_alloc s = (p, s') \<Longrightarrow> fa_inv s'"
    and alloc_oom: "fa_inv s \<Longrightarrow> fa_alloc s = (0, s') \<Longrightarrow> s' = s"
    and alloc_fresh: "fa_inv s \<Longrightarrow> fa_alloc s = (p, s') \<Longrightarrow> p \<noteq> 0 \<Longrightarrow> refs s p = 0"
    and alloc_refs: "fa_inv s \<Longrightarrow> fa_alloc s = (p, s') \<Longrightarrow> p \<noteq> 0 \<Longrightarrow> refs s' = (refs s)(p := 1)"
    and free_inv: "fa_inv s \<Longrightarrow> fa_inv (fa_free p s)"
    and free_refs: "fa_inv s \<Longrightarrow> 0 < refs s p \<Longrightarrow> refs (fa_free p s) = (refs s)(p := refs s p - 1)"
    and inc_inv: "fa_inv s \<Longrightarrow> refs s p < 2 ^ 32 - 1 \<Longrightarrow> p mod 4096 = 0 \<Longrightarrow>
      fa_inc p s = (r, s') \<Longrightarrow> fa_inv s'"
    and inc_held: "fa_inv s \<Longrightarrow> refs s p < 2 ^ 32 - 1 \<Longrightarrow> 0 < refs s p \<Longrightarrow>
      fst (fa_inc p s) = 0 \<and> refs (snd (fa_inc p s)) = (refs s)(p := refs s p + 1)"
    and inc_free: "fa_inv s \<Longrightarrow> refs s p = 0 \<Longrightarrow> p mod 4096 = 0 \<Longrightarrow> fa_inc p s = (-1, s)"
begin

lemma alloc_then_free:
  "fa_inv s \<Longrightarrow> fa_alloc s = (p, s') \<Longrightarrow> p \<noteq> 0 \<Longrightarrow> refs (fa_free p s') = refs s"
  using free_refs [of s' p] alloc_refs [of s p s'] alloc_inv [of s p s'] alloc_fresh [of s p s']
  by (simp add: fun_upd_idem)

lemma inc_then_free:
  assumes "fa_inv s" "refs s p < 2 ^ 32 - 1" "0 < refs s p" "p mod 4096 = 0"
  shows "refs (fa_free p (snd (fa_inc p s))) = refs s"
proof -
  have "fa_inv (snd (fa_inc p s))" using inc_inv [OF assms(1,2,4)] prod.collapse by metis
  then show ?thesis using free_refs [of "snd (fa_inc p s)" p] inc_held [OF assms(1-3)] assms
    by (simp add: fun_upd_idem)
qed

end

lemma frame_refs_pos: "0 < frame_refs st p \<Longrightarrow> p mod 4096 = 0"
  by (auto simp: frame_refs_def split: if_splits)

lemma frame_refs_upd_page:
  assumes "p mod 4096 = 0" "frame_count st' = (frame_count st)(p div 4096 := c)"
  shows "frame_refs st' = (frame_refs st)(p := c)"
proof -
  have "p div 4096 * 4096 = p" using assms(1) by (simp add: mod_0_imp_dvd)
  then show ?thesis using frame_refs_upd [OF assms(2)] by simp
qed

interpretation pmm: frame_allocator pmm_inv frame_refs pmm_alloc_frame pmm_free_frame
  pmm_inc_frame_ref
proof (unfold_locales, goal_cases)
  case (1 s p s')
  then show ?case using pmm_alloc_frame_inv [of s] by simp
next
  case (2 s s')
  then show ?case by (rule_tac pmm_alloc_frame_cases [of s]) auto
next
  case (3 s p s')
  then show ?case by (rule pmm_alloc_frame_refs)
next
  case (4 s p s')
  then show ?case by (rule pmm_alloc_frame_refs)
next
  case (5 s p)
  then show ?case by (rule pmm_free_frame_inv)
next
  case (6 s p)
  then have m: "p mod 4096 = 0" by (simp add: frame_refs_pos)
  with 6 have "frame_count (pmm_free_frame p s) =
      (frame_count s)(p div 4096 := frame_refs s p - 1)"
    using pmm_free_frame_count [of s p] by (simp add: frame_refs_def)
  with m show ?case by (rule frame_refs_upd_page)
next
  case (7 s p r s')
  then show ?case using pmm_inc_frame_ref_spec(1) [of s p] by (simp add: frame_refs_def)
next
  case (8 s p)
  then have m: "p mod 4096 = 0" by (simp add: frame_refs_pos)
  with 8 have c: "0 < frame_count s (p div 4096)" "frame_count s (p div 4096) < 2 ^ 32 - 1"
    by (simp_all add: frame_refs_def)
  with m have "frame_count (snd (pmm_inc_frame_ref p s)) =
      (frame_count s)(p div 4096 := frame_refs s p + 1)"
    using pmm_inc_frame_ref_spec(3) [OF 8(1) c(2)] by (simp add: frame_refs_def)
  with m have "frame_refs (snd (pmm_inc_frame_ref p s)) = (frame_refs s)(p := frame_refs s p + 1)"
    by (rule frame_refs_upd_page)
  then show ?case using pmm_inc_frame_ref_spec(2) [OF 8(1) c(2)] c(1) by simp
next
  case (9 s p)
  then have "frame_count s (p div 4096) = 0" by (simp add: frame_refs_def)
  moreover have "p div 4096 < nframes s \<and> bm_test (bitmap s) (p div 4096) \<Longrightarrow>
      refcount s ! (p div 4096) = 0" using calculation by (simp add: frame_count_def)
  ultimately show ?case by (auto simp: pmm_inc_frame_ref_def pmm_consts Let_def)
qed

section \<open>Runs of frames\<close>

lemma take_run:
  assumes inv: "pmm_inv st" and run: "free_run (bitmap st) (nframes st) n i"
  defines "st' \<equiv> st\<lparr>bitmap := fold (\<lambda>i bm. bm_set bm i) [i..<i + n] (bitmap st),
                    refcount := fold (\<lambda>i rc. rc[i := 1]) [i..<i + n] (refcount st),
                    free_frames := sub64 (free_frames st) n\<rparr>"
  shows "pmm_inv st'" and "free_frames st' + n = free_frames st"
    and "bm_test (bitmap st') j = (i \<le> j \<and> j < i + n \<or> bm_test (bitmap st) j)"
    and "frame_count st' = (\<lambda>j. if i \<le> j \<and> j < i + n then 1 else frame_count st j)"
proof -
  have le: "i + n \<le> nframes st" using run by (simp add: free_run_def)
  have clr: "\<not> bm_test (bitmap st) j" if "i \<le> j" "j < i + n" for j
  proof -
    have "j - i < n" using that by linarith
    with run have "\<not> bm_test (bitmap st) (i + (j - i))" unfolding free_run_def by blast
    then show ?thesis using that by simp
  qed
  have caps: "\<forall>j \<in> set [i..<i + n]. j < 8 * length (bitmap st)"
    "\<forall>j \<in> set [i..<i + n]. j < length (refcount st)"
    using le inv by (auto simp: pmm_inv_def)
  have t: "bm_test (bitmap st') j = (i \<le> j \<and> j < i + n \<or> bm_test (bitmap st) j)" for j
    using bm.btest_fold_bset [OF caps(1)] by (simp add: st'_def)
  then show "bm_test (bitmap st') j = (i \<le> j \<and> j < i + n \<or> bm_test (bitmap st) j)" .
  have rc: "refcount st' ! j = (if i \<le> j \<and> j < i + n then 1 else refcount st ! j)" for j
    using nth_fold_update [OF caps(2)] by (simp add: st'_def)
  have cnt: "count_upto (\<lambda>j. \<not> bm_test (bitmap st') j) (nframes st) + n = free_frames st"
  proof -
    have "count_upto (\<lambda>j. \<not> bm_test (bitmap st') j) (nframes st) =
        count_upto (\<lambda>j. j \<notin> {i..<i + n} \<and> \<not> bm_test (bitmap st) j) (nframes st)"
      by (rule count_upto_cong) (auto simp: t)
    moreover have "\<dots> + card {i..<i + n} = count_upto (\<lambda>j. \<not> bm_test (bitmap st) j) (nframes st)"
      by (rule count_upto_diff) (use le clr in auto)
    ultimately show ?thesis using inv by (simp add: pmm_inv_def)
  qed
  then have ff: "sub64 (free_frames st) n = free_frames st - n"
    using pmm_inv_free_frames_less [OF inv] by (intro sub64_id) auto
  then show "free_frames st' + n = free_frames st" using cnt by (simp add: st'_def)
  have "bm_test (bitmap st) 0" "0 < nframes st" using inv by (auto simp: pmm_inv_def)
  then have i0: "0 < i \<or> n = 0" using clr by (cases "i = 0") auto
  have lens: "length (bitmap st') = length (bitmap st)" "length (refcount st') = length (refcount st)"
    "nframes st' = nframes st"
    using bm.bcap_fold_bset [of "[i..<i + n]" "bitmap st"] by (simp_all add: st'_def)
  have "free_frames st' = count_upto (\<lambda>j. \<not> bm_test (bitmap st') j) (nframes st)"
    using cnt ff by (simp add: st'_def)
  then show "pmm_inv st'" using inv i0 by (auto simp: pmm_inv_def lens t rc)
  show "frame_count st' = (\<lambda>j. if i \<le> j \<and> j < i + n then 1 else frame_count st j)"
    using le by (auto simp: frame_count_def t rc lens fun_eq_iff)
qed

lemma pmm_alloc_contiguous_cases:
  assumes inv: "pmm_inv st" and n: "0 < n"
  obtains (oom) "pmm_alloc_contiguous n st = (0, st)"
      "\<forall>i. \<not> free_run (bitmap st) (nframes st) n i"
  | (run) i where "0 < i" "free_run (bitmap st) (nframes st) n i"
      "\<forall>j < i. \<not> free_run (bitmap st) (nframes st) n j"
      "pmm_alloc_contiguous n st = (i * 4096,
         st\<lparr>bitmap := fold (\<lambda>i bm. bm_set bm i) [i..<i + n] (bitmap st),
            refcount := fold (\<lambda>i rc. rc[i := 1]) [i..<i + n] (refcount st),
            free_frames := sub64 (free_frames st) n,
            phys_mem := mem_fill (i * 4096) (n * 4096) 0 (phys_mem st)\<rparr>)"
proof (cases "bm_find_contiguous (bitmap st) (nframes st) n")
  case None
  then have "\<forall>i. 0 \<le> i \<and> i < nframes st \<longrightarrow> \<not> free_run (bitmap st) (nframes st) n i"
    by (simp only: bm_find_contiguous_find [OF n] find_upt_None)
  then have "\<forall>i. \<not> free_run (bitmap st) (nframes st) n i"
    using n by (auto simp: free_run_def)
  with None oom show thesis by (simp add: pmm_alloc_contiguous_def)
next
  case (Some i)
  then have i: "free_run (bitmap st) (nframes st) n i"
    "\<forall>j < i. \<not> free_run (bitmap st) (nframes st) n j"
    by (simp_all only: bm_find_contiguous_find [OF n] find_upt_Some) auto
  have "\<not> bm_test (bitmap st) (i + 0)" using i(1) n unfolding free_run_def by blast
  with inv have "0 < i" by (cases "i = 0") (auto simp: pmm_inv_def)
  moreover from this have "n < 2 ^ 52" using inv i(1) by (auto simp: free_run_def pmm_inv_def)
  then have m: "mul64 n 4096 = n * 4096" by (intro mul64_id) simp
  ultimately show thesis using i Some m run
    by (simp add: pmm_alloc_contiguous_def pmm_consts Let_def)
qed

lemma pmm_alloc_contiguous_inv: "pmm_inv st \<Longrightarrow> pmm_inv (snd (pmm_alloc_contiguous n st))"
proof (cases "n = 0")
  case True
  assume "pmm_inv st"
  with True show ?thesis
    using pmm_inv_free_frames_less [of st]
    by (simp add: pmm_alloc_contiguous_def bm_find_contiguous_def sub64_id Let_def)
next
  case False
  assume inv: "pmm_inv st"
  from False have "0 < n" by simp
  with inv show ?thesis
    by (rule pmm_alloc_contiguous_cases) (use inv take_run(1) in auto)
qed

lemma pmm_free_frame_last:
  assumes "pmm_inv st" "frame_count st i = 1"
  shows "frame_count (pmm_free_frame (i * 4096) st) = (frame_count st)(i := 0)"
    and "free_frames (pmm_free_frame (i * 4096) st) = Suc (free_frames st)"
    and "nframes (pmm_free_frame (i * 4096) st) = nframes st"
    and "bm_test (bitmap (pmm_free_frame (i * 4096) st)) j = (j \<noteq> i \<and> bm_test (bitmap st) j)"
proof -
  have i: "i < nframes st" "bm_test (bitmap st) i" "refcount st ! i = 1"
    using assms(2) by (auto simp: frame_count_def split: if_splits)
  show "frame_count (pmm_free_frame (i * 4096) st) = (frame_count st)(i := 0)"
    using pmm_free_frame_count [of st "i * 4096"] assms by simp
  have ne: "i \<noteq> 0" using i assms by (cases "i = 0") (auto simp: pmm_inv_def)
  have b: "i < 8 * length (bitmap st)" using i assms(1) by (auto simp: pmm_inv_def)
  have eq: "pmm_free_frame (i * 4096) st = st\<lparr>refcount := (refcount st)[i := 0],
      bitmap := bm_clear (bitmap st) i, free_frames := add64 (free_frames st) 1\<rparr>"
    using i ne by (simp add: pmm_free_frame_def pmm_consts Let_def)
  have "free_frames st \<le> nframes st" using assms(1) count_upto_le by (auto simp: pmm_inv_def)
  then have "add64 (free_frames st) 1 = Suc (free_frames st)"
    using assms(1) by (simp add: pmm_inv_def add64_id)
  with eq b show "free_frames (pmm_free_frame (i * 4096) st) = Suc (free_frames st)"
    "nframes (pmm_free_frame (i * 4096) st) = nframes st"
    "bm_test (bitmap (pmm_free_frame (i * 4096) st)) j = (j \<noteq> i \<and> bm_test (bitmap st) j)"
    by (simp_all add: bm_test_clear)
qed

lemma pmm_free_contiguous_owned:
  assumes "pmm_inv st" "i + n \<le> nframes st" "\<forall>j. i \<le> j \<and> j < i + n \<longrightarrow> frame_count st j = 1"
  shows "pmm_inv (pmm_free_contiguous (i * 4096) n st)"
    and "frame_count (pmm_free_contiguous (i * 4096) n st) =
      (\<lambda>j. if i \<le> j \<and> j < i + n then 0 else frame_count st j)"
    and "free_frames (pmm_free_contiguous (i * 4096) n st) = free_frames st + n"
    and "phys_mem (pmm_free_contiguous (i * 4096) n st) = phys_mem st"
    and "nframes (pmm_free_contiguous (i * 4096) n st) = nframes st"
proof -
  have loop: "pmm_inv (fold (\<lambda>k. pmm_free_frame (add64 (i * 4096) (mul64 k 4096))) [0..<m] st) \<and>
      frame_count (fold (\<lambda>k. pmm_free_frame (add64 (i * 4096) (mul64 k 4096))) [0..<m] st) =
        (\<lambda>j. if i \<le> j \<and> j < i + m then 0 else frame_count st j) \<and>
      free_frames (fold (\<lambda>k. pmm_free_frame (add64 (i * 4096) (mul64 k 4096))) [0..<m] st) =
        free_frames st + m \<and>
      phys_mem (fold (\<lambda>k. pmm_free_frame (add64 (i * 4096) (mul64 k 4096))) [0..<m] st) = phys_mem st \<and>
      nframes (fold (\<lambda>k. pmm_free_frame (add64 (i * 4096) (mul64 k 4096))) [0..<m] st) = nframes st"
    if "m \<le> n" for m
    using that
  proof (induction m)
    case (Suc m)
    let ?s = "fold (\<lambda>k. pmm_free_frame (add64 (i * 4096) (mul64 k 4096))) [0..<m] st"
    have IH: "pmm_inv ?s" "frame_count ?s = (\<lambda>j. if i \<le> j \<and> j < i + m then 0 else frame_count st j)"
      "free_frames ?s = free_frames st + m" "phys_mem ?s = phys_mem st" "nframes ?s = nframes st"
      using Suc by simp_all
    have c: "frame_count ?s (i + m) = 1" using Suc.prems assms(3) by (simp add: IH(2))
    have "i + m < 2 ^ 52" using assms(1,2) Suc.prems by (auto simp: pmm_inv_def)
    then have a: "add64 (i * 4096) (mul64 m 4096) = (i + m) * 4096"
      by (simp add: mul64_id add64_id)
    have mem: "phys_mem (pmm_free_frame p s) = phys_mem s" for p s
      by (simp add: pmm_free_frame_def Let_def)
    show ?case
      using pmm_free_frame_inv [OF IH(1)] pmm_free_frame_last [OF IH(1) c] IH mem
      by (auto simp: a fun_eq_iff)
  qed (use assms in \<open>auto simp: fun_eq_iff\<close>)
  have z: "n = 0 \<or> i \<noteq> 0"
  proof (cases "n = 0")
    case False
    then have "frame_count st i = 1" using assms(3) by simp
    then show ?thesis using assms(1) by (cases "i = 0") (auto simp: pmm_inv_def frame_count_def)
  qed simp
  then have "pmm_free_contiguous (i * 4096) n st =
      fold (\<lambda>k. pmm_free_frame (add64 (i * 4096) (mul64 k 4096))) [0..<n] st"
    by (auto simp: pmm_free_contiguous_def pmm_consts)
  then show "pmm_inv (pmm_free_contiguous (i * 4096) n st)"
    "frame_count (pmm_free_contiguous (i * 4096) n st) =
      (\<lambda>j. if i \<le> j \<and> j < i + n then 0 else frame_count st j)"
    "free_frames (pmm_free_contiguous (i * 4096) n st) = free_frames st + n"
    "phys_mem (pmm_free_contiguous (i * 4096) n st) = phys_mem st"
    "nframes (pmm_free_contiguous (i * 4096) n st) = nframes st"
    using loop [of n] by simp_all
qed

lemma ALIGN_UP_512:
  assumes "i < 2 ^ 63"
  shows "i \<le> ALIGN_UP i 512" "ALIGN_UP i 512 < i + 512" "ALIGN_UP i 512 mod 512 = 0"
  using ALIGN_UP_ge [of 512 i] ALIGN_UP_less [of 512 i] ALIGN_UP_dvd [of 512 i] assms by auto

text \<open>Giving back the part \<open>[a, b)\<close> of a run that is held once.\<close>

lemma trim_run:
  assumes "pmm_inv st" "a \<le> b" "b \<le> nframes st" "\<forall>j. a \<le> j \<and> j < b \<longrightarrow> frame_count st j = 1"
  defines "st' \<equiv> if a < b then pmm_free_contiguous (a * 4096) (b - a) st else st"
  shows "pmm_inv st'" "free_frames st' = free_frames st + (b - a)" "nframes st' = nframes st"
    "frame_count st' = (\<lambda>j. if a \<le> j \<and> j < b then 0 else frame_count st j)"
    "phys_mem st' = phys_mem st"
  using pmm_free_contiguous_owned [OF assms(1), of a "b - a"] assms
  by (auto simp: st'_def fun_eq_iff)

lemma pmm_alloc_2m_run:
  assumes inv: "pmm_inv st" and i: "0 < i" and run: "free_run (bitmap st) (nframes st) 1024 i"
    and alloc: "pmm_alloc_contiguous 1024 st = (i * 4096, st1)"
    and st1: "pmm_inv st1" "free_frames st1 + 1024 = free_frames st" "nframes st1 = nframes st"
    "frame_count st1 = (\<lambda>j. if i \<le> j \<and> j < i + 1024 then 1 else frame_count st j)"
    "phys_mem st1 = mem_fill (i * 4096) (1024 * 4096) 0 (phys_mem st)"
  obtains a st' where "pmm_alloc_2m st = (a * 4096, st')" "i \<le> a" "a mod 512 = 0"
      "a + 512 \<le> i + 1024"
      "pmm_inv st'" "nframes st' = nframes st" "free_frames st = free_frames st' + 512"
      "frame_count st' = (\<lambda>j. if a \<le> j \<and> j < a + 512 then 1 else frame_count st j)"
      "\<forall>x. a * 4096 \<le> x \<and> x < (a + 512) * 4096 \<longrightarrow> phys_mem st' x = 0"
proof -
  let ?a = "ALIGN_UP i 512"
  have le: "i + 1024 \<le> nframes st" using run by (simp add: free_run_def)
  then have "i < 2 ^ 63" using inv by (auto simp: pmm_inv_def)
  note al = ALIGN_UP_512 [OF this]
  define st2 where "st2 = (if i < ?a then pmm_free_contiguous (i * 4096) (?a - i) st1 else st1)"
  have "\<forall>j. i \<le> j \<and> j < ?a \<longrightarrow> frame_count st1 j = 1" using st1(4) al by auto
  note st2 = trim_run [OF st1(1) al(1) _ this, folded st2_def, unfolded st1(3)]
  have a2: "?a \<le> nframes st" using le al by linarith
  define st3 where "st3 = (if ?a + 512 < i + 1024
    then pmm_free_contiguous ((?a + 512) * 4096) (i + 1024 - (?a + 512)) st2 else st2)"
  have "\<forall>j. ?a + 512 \<le> j \<and> j < i + 1024 \<longrightarrow> frame_count st2 j = 1"
    using st1(4) st2(4) [OF a2] al by auto
  note st3 = trim_run [OF st2(1) [OF a2] _ _ this, folded st3_def, unfolded st2(3) [OF a2]]
  have z: "frame_count st j = 0" if "i \<le> j" "j < i + 1024" for j
    using free_run_at [OF run that] by (simp add: frame_count_def)
  have res: "pmm_alloc_2m st = (?a * 4096, st3)"
    using i al(1) by (auto simp: pmm_alloc_2m_def alloc Let_def pmm_consts st2_def st3_def)
  have b3: "?a + 512 \<le> i + 1024" using al by linarith
  show thesis
  proof (rule that [OF res])
    show "frame_count st3 = (\<lambda>j. if ?a \<le> j \<and> j < ?a + 512 then 1 else frame_count st j)"
      using z al by (auto simp: st1 st2(4) [OF a2] st3(4) [OF b3 le] fun_eq_iff)
    show "\<forall>x. ?a * 4096 \<le> x \<and> x < (?a + 512) * 4096 \<longrightarrow> phys_mem st3 x = 0"
      using al by (auto simp: st1 st2(5) [OF a2] st3(5) [OF b3 le] mem_fill_def)
  qed (use al b3 st1 st2 [OF a2] st3 [OF b3 le] in auto)
qed

lemma pmm_alloc_2m_cases:
  assumes inv: "pmm_inv st"
  obtains (oom) "pmm_alloc_2m st = (0, st)" "\<forall>i. \<not> free_run (bitmap st) (nframes st) 1024 i"
  | (got) a st' where "pmm_alloc_2m st = (a * 4096, st')" "0 < a" "a mod 512 = 0"
      "a + 512 \<le> nframes st"
      "\<forall>k < 512. \<not> bm_test (bitmap st) (a + k)"
      "pmm_inv st'" "nframes st' = nframes st" "free_frames st = free_frames st' + 512"
      "frame_count st' = (\<lambda>j. if a \<le> j \<and> j < a + 512 then 1 else frame_count st j)"
      "\<forall>x. a * 4096 \<le> x \<and> x < (a + 512) * 4096 \<longrightarrow> phys_mem st' x = 0"
proof -
  have n: "(0::nat) < 1024" by simp
  from inv n show thesis
  proof (cases rule: pmm_alloc_contiguous_cases)
    case oom
    then show thesis using that(1) by (simp add: pmm_alloc_2m_def)
  next
    case (run i)
    note tr = take_run [OF inv run(2)]
    have le: "i + 1024 \<le> nframes st" using run(2) by (simp add: free_run_def)
    obtain a st' where a: "pmm_alloc_2m st = (a * 4096, st')" "i \<le> a" "a mod 512 = 0"
      "a + 512 \<le> i + 1024"
      "pmm_inv st'" "nframes st' = nframes st" "free_frames st = free_frames st' + 512"
      "frame_count st' = (\<lambda>j. if a \<le> j \<and> j < a + 512 then 1 else frame_count st j)"
      "\<forall>x. a * 4096 \<le> x \<and> x < (a + 512) * 4096 \<longrightarrow> phys_mem st' x = 0"
      by (rule pmm_alloc_2m_run [OF inv run(1,2,4)]) (use tr(1,2,4) in simp_all)
    have "\<forall>k < 512. \<not> bm_test (bitmap st) (a + k)"
      using a(2,4) by (intro allI impI free_run_at [OF run(2)]) auto
    with a le run(1) show thesis by (intro that(2) [of a st']) auto
  qed
qed

lemma pmm_alloc_2m_inv: "pmm_inv st \<Longrightarrow> pmm_inv (snd (pmm_alloc_2m st))"
  by (rule pmm_alloc_2m_cases [of st]) auto

lemma pmm_inc_frame_ref_inv: "pmm_inv st \<Longrightarrow> pmm_inv (snd (pmm_inc_frame_ref p st))"
  by (auto simp: pmm_inc_frame_ref_def pmm_consts Let_def pmm_inv_def nth_list_update add32_def)

lemma pmm_free_contiguous_inv: "pmm_inv st \<Longrightarrow> pmm_inv (pmm_free_contiguous p n st)"
proof -
  have "pmm_inv s \<Longrightarrow> pmm_inv (fold (\<lambda>i. pmm_free_frame (f i)) is s)" for f "is" s
    by (induction "is" arbitrary: s) (auto intro: pmm_free_frame_inv)
  from this [of st "\<lambda>i. add64 p (mul64 i PMM_PAGE_SIZE)" "[0..<n]"]
  show "pmm_inv st \<Longrightarrow> ?thesis" by (simp add: pmm_free_contiguous_def)
qed

section \<open>Initialisation\<close>

definition frames_in :: "nat \<Rightarrow> nat \<Rightarrow> nat \<Rightarrow> bool" where
  "frames_in b l j \<longleftrightarrow> ALIGN_UP b 4096 div 4096 \<le> j \<and> j < add64 b l div 4096"

lemma frames_in_whole:
  assumes "b + l + 4095 < 2 ^ 64"
  shows "frames_in b l j \<longleftrightarrow> b \<le> j * 4096 \<and> (j + 1) * 4096 \<le> b + l"
proof -
  have "ALIGN_UP b 4096 div 4096 = (b + 4095) div 4096" "add64 b l = b + l"
    using assms by (simp_all add: ALIGN_UP_def add64_id)
  then show ?thesis unfolding frames_in_def by (auto simp: less_eq_div_iff_mult_less_eq)
qed

lemma mark_range_fields [simp]:
  "nframes (mark_range b l u st) = nframes st"
  "refcount (mark_range b l u st) = refcount st"
  "bitmap_phys (mark_range b l u st) = bitmap_phys st"
  "bitmap_bytes (mark_range b l u st) = bitmap_bytes st"
  "refcount_bytes (mark_range b l u st) = refcount_bytes st"
  by (simp_all add: mark_range_def Let_def)

lemma mark_range_length [simp]: "length (bitmap (mark_range b l u st)) = length (bitmap st)"
  using bm.bcap_fold_bset bm.bcap_fold_bclr by (cases u) (auto simp: mark_range_def Let_def)

lemma mark_range_test:
  assumes "nframes st \<le> 8 * length (bitmap st)"
  shows "bm_test (bitmap (mark_range b l u st)) j =
    (if frames_in b l j \<and> j < nframes st then u else bm_test (bitmap st) j)"
proof -
  have "\<forall>i \<in> set [ALIGN_UP b 4096 div 4096..<min (add64 b l div 4096) (nframes st)].
      i < 8 * length (bitmap st)" using assms by auto
  from bm.btest_fold_bset [OF this] bm.btest_fold_bclr [OF this] show ?thesis
    by (cases u) (auto simp: mark_range_def Let_def pmm_consts frames_in_def)
qed

lemma mark_usable_test:
  fixes es :: "boot_mmap_entry list"
  defines "f \<equiv> (\<lambda>e s. if e_type e = BOOT_MEM_USABLE then mark_range (e_base e) (e_length e) False s else s)"
  assumes "nframes st \<le> 8 * length (bitmap st)"
  shows "bm_test (bitmap (fold f es st)) j \<longleftrightarrow> bm_test (bitmap st) j \<and>
      \<not> (\<exists>e \<in> set es. e_type e = BOOT_MEM_USABLE \<and> frames_in (e_base e) (e_length e) j \<and> j < nframes st)"
    and "nframes (fold f es st) = nframes st" "refcount (fold f es st) = refcount st"
    "bitmap_phys (fold f es st) = bitmap_phys st" "bitmap_bytes (fold f es st) = bitmap_bytes st"
    "refcount_bytes (fold f es st) = refcount_bytes st"
    "length (bitmap (fold f es st)) = length (bitmap st)"
  using assms(2)
  by (induction es arbitrary: st) (auto simp: f_def mark_range_test)

lemma pmm_marked_test:
  assumes cap: "nframes st \<le> 8 * length (bitmap st)"
    and full: "\<forall>i < nframes st. bm_test (bitmap st) i" and j: "j < nframes st"
  shows "bm_test (bitmap (pmm_marked es st)) j \<longleftrightarrow>
     frames_in (bitmap_phys st) (add64 (bitmap_bytes st) (refcount_bytes st)) j \<or>
     frames_in 0 PMM_EARLY_BOOT_RESERVE j \<or>
     \<not> (\<exists>e \<in> set es. e_type e = BOOT_MEM_USABLE \<and> frames_in (e_base e) (e_length e) j)"
  using mark_usable_test [OF cap, of es] full j cap
  by (simp add: pmm_marked_def Let_def mark_range_test) blast

lemma pmm_marked_fields:
  assumes "nframes st \<le> 8 * length (bitmap st)"
  shows "nframes (pmm_marked es st) = nframes st" "refcount (pmm_marked es st) = refcount st"
    "length (bitmap (pmm_marked es st)) = length (bitmap st)"
    "bitmap_phys (pmm_marked es st) = bitmap_phys st"
    "bitmap_bytes (pmm_marked es st) = bitmap_bytes st"
    "refcount_bytes (pmm_marked es st) = refcount_bytes st"
  using mark_usable_test [OF assms, of es] by (simp_all add: pmm_marked_def Let_def)

lemma count_free_count: "count_free st = count_upto (\<lambda>i. \<not> bm_test (bitmap st) i) (nframes st)"
proof -
  have "fold (\<lambda>i n. if \<not> bm_test bm i then n + 1 else n) [0..<k] 0 =
      count_upto (\<lambda>i. \<not> bm_test bm i) k" for bm k
    by (induction k) (auto simp: count_upto_Suc)
  then show ?thesis by (simp add: count_free_def)
qed

lemma bitmap_candidate_bounds:
  assumes "bitmap_candidate need want e = Some r" "need mod 4096 = 0"
  shows "r mod 4096 = 0" "r + need \<le> 2 ^ 32" "e_type e = want" "need < 2 ^ 64"
proof -
  let ?s = "ALIGN_UP (e_base e) 4096"
  let ?d = "ALIGN_DOWN (add64 (e_base e) (e_length e)) 4096"
  let ?e = "if ?d > 2 ^ 32 then 2 ^ 32 else ?d"
  have lim: "PMM_EARLY_HHDM_LIMIT = 2 ^ 32"
    by (simp add: PMM_EARLY_HHDM_LIMIT_def GIB_def MIB_def)
  have c: "e_type e = want" "?s < ?e" "\<not> sub64 ?e ?s < need" "r = sub64 ?e need"
    using assms(1) unfolding bitmap_candidate_def Let_def lim pmm_consts
    by (auto split: if_splits)
  then show "e_type e = want" by simp
  have e: "?e \<le> 2 ^ 32" by simp
  then have "sub64 ?e ?s = ?e - ?s" using c(2) by (intro sub64_id) auto
  with c have le: "need \<le> ?e - ?s" by linarith
  then have "need \<le> 2 ^ 32" using e by (meson diff_le_self le_trans)
  then show "need < 2 ^ 64" by simp
  have "need \<le> ?e" "?e < 2 ^ 64" using le e by (meson diff_le_self le_trans, simp)
  then have r: "r = ?e - need" using c(4) sub64_id by presburger
  with \<open>need \<le> ?e\<close> e show "r + need \<le> 2 ^ 32" by (metis le_add_diff_inverse2)
  have "4096 dvd ?e" using ALIGN_DOWN_dvd by auto
  then show "r mod 4096 = 0" using assms(2) r by (simp add: dvd_diff_nat mod_0_imp_dvd)
qed

lemma find_bitmap_region_bounds:
  assumes "find_bitmap_region st es = r" "r \<noteq> 0"
  shows "r mod 4096 = 0" "r + ALIGN_UP (add64 (bitmap_bytes st) (refcount_bytes st)) 4096 \<le> 2 ^ 32"
proof -
  let ?need = "ALIGN_UP (add64 (bitmap_bytes st) (refcount_bytes st)) 4096"
  have need: "?need mod 4096 = 0" using ALIGN_UP_dvd [of 4096] by auto
  have fs: "first_some f xs = Some y \<Longrightarrow> \<exists>x \<in> set xs. f x = Some y" for f y and xs :: "'a list"
    by (induction xs) (auto split: option.splits)
  obtain want e where "bitmap_candidate ?need want e = Some r"
    using assms unfolding find_bitmap_region_def Let_def pmm_consts
    by (auto split: option.splits dest!: fs)
  from bitmap_candidate_bounds [OF this need]
  show "r mod 4096 = 0" "r + ?need \<le> 2 ^ 32" by simp_all
qed

end
