(* ===== verification/Pmm_Props.thy ===== *)
theory Pmm_Props
  imports Pmm
begin

text \<open>
  What the physical memory manager guarantees: the state \<open>pmm_init\<close> leaves behind, the states
  reachable from it by the manager's operations, and the effect of each operation on the
  reference counts, the free counter and the memory.
\<close>

section \<open>The state after initialisation\<close>

lemma pmm_sized_bounds:
  "nframes (pmm_sized es st) < 2 ^ 52"
  "nframes (pmm_sized es st) \<le> refcount_bytes (pmm_sized es st) div 4"
  "bitmap_bytes (pmm_sized es st) + refcount_bytes (pmm_sized es st) < 2 ^ 56"
  "4096 dvd bitmap_bytes (pmm_sized es st) + refcount_bytes (pmm_sized es st)"
proof -
  obtain hi us where ext: "usable_extent es = (hi, us)" by (cases "usable_extent es")
  define n where "n = ALIGN_UP hi 4096 div 4096"
  have nf: "nframes (pmm_sized es st) = n"
    "bitmap_bytes (pmm_sized es st) = ALIGN_UP (n div 8) 4096"
    "refcount_bytes (pmm_sized es st) = ALIGN_UP (mul64 n 4) 4096"
    by (simp_all add: pmm_sized_def ext Let_def pmm_consts n_def)
  have "ALIGN_UP hi 4096 \<le> add64 hi 4095" by (simp add: ALIGN_UP_def)
  then have n: "n < 2 ^ 52" using add64_less [of hi 4095] by (simp add: n_def)
  then show "nframes (pmm_sized es st) < 2 ^ 52" by (simp add: nf)
  have m: "mul64 n 4 = n * 4" using n by (simp add: mul64_id)
  have "n * 4 \<le> ALIGN_UP (n * 4) 4096" using n by (intro ALIGN_UP_ge) auto
  then show "nframes (pmm_sized es st) \<le> refcount_bytes (pmm_sized es st) div 4"
    by (simp add: nf m)
  have "ALIGN_UP (n div 8) 4096 < n div 8 + 4096" "ALIGN_UP (n * 4) 4096 < n * 4 + 4096"
    by (simp_all add: ALIGN_UP_less)
  then show "bitmap_bytes (pmm_sized es st) + refcount_bytes (pmm_sized es st) < 2 ^ 56"
    using n by (simp add: nf m)
  show "4096 dvd bitmap_bytes (pmm_sized es st) + refcount_bytes (pmm_sized es st)"
    by (simp add: nf ALIGN_UP_dvd)
qed

lemma pmm_marked_sizes:
  "nframes (pmm_marked es s) = nframes s" "bitmap_bytes (pmm_marked es s) = bitmap_bytes s"
proof -
  have "nframes (fold (\<lambda>e s. if e_type e = BOOT_MEM_USABLE
          then mark_range (e_base e) (e_length e) False s else s) xs s) = nframes s \<and>
      bitmap_bytes (fold (\<lambda>e s. if e_type e = BOOT_MEM_USABLE
          then mark_range (e_base e) (e_length e) False s else s) xs s) = bitmap_bytes s" for xs
    by (induction xs arbitrary: s) auto
  from this [of es] show "nframes (pmm_marked es s) = nframes s" "bitmap_bytes (pmm_marked es s) = bitmap_bytes s"
    by (simp_all add: pmm_marked_def Let_def)
qed

lemma frames_in_aligned:
  assumes "4096 dvd b" "4096 dvd l" "b + l < 2 ^ 60"
  shows "frames_in b l j \<longleftrightarrow> b \<le> j * 4096 \<and> j * 4096 < b + l"
proof -
  obtain x y where xy: "b = 4096 * x" "l = 4096 * y" using assms by (auto elim!: dvdE)
  have "frames_in b l j \<longleftrightarrow> b \<le> j * 4096 \<and> (j + 1) * 4096 \<le> b + l"
    using assms(3) by (intro frames_in_whole) simp
  moreover have "b + l = (x + y) * 4096" by (simp add: xy)
  then have "(j + 1) * 4096 \<le> b + l \<longleftrightarrow> j < x + y" "j * 4096 < b + l \<longleftrightarrow> j < x + y"
    by (auto simp only: mult_le_cancel2 mult_less_cancel2)
  ultimately show ?thesis by simp
qed

lemma pmm_init_Ready:
  assumes "pmm_init es h st = (Ready, st')"
  obtains st2 where "nframes st2 < 2 ^ 52" "0 < nframes st2"
    "nframes st2 \<le> refcount_bytes st2 div 4"
    "bitmap_bytes st2 + refcount_bytes st2 < 2 ^ 56"
    "4096 dvd bitmap_bytes st2 + refcount_bytes st2"
    "find_bitmap_region st2 es \<noteq> 0"
    "st' = (pmm_marked es (pmm_placed (find_bitmap_region st2 es) st2))
        \<lparr>free_frames := count_free (pmm_marked es (pmm_placed (find_bitmap_region st2 es) st2))\<rparr>"
proof -
  let ?s = "(pmm_sized es st)\<lparr>hhdm := h\<rparr>"
  have "nframes (pmm_sized es st) \<noteq> 0" "find_bitmap_region ?s es \<noteq> 0"
    "st' = (pmm_marked es (pmm_placed (find_bitmap_region ?s es) ?s))
        \<lparr>free_frames := count_free (pmm_marked es (pmm_placed (find_bitmap_region ?s es) ?s))\<rparr>"
    using assms by (auto simp: pmm_init_def Let_def split: if_splits)
  then show thesis using that [of ?s] pmm_sized_bounds [of es st] by simp
qed

lemma early_reserve_frames: "frames_in 0 PMM_EARLY_BOOT_RESERVE j \<longleftrightarrow> j < 14336"
  by (simp add: frames_in_def PMM_EARLY_BOOT_RESERVE_def MIB_def ALIGN_UP_def add64_def)

lemma pmm_init_result:
  assumes init: "pmm_init es h st = (Ready, st')"
    and fit: "nframes st' \<le> 8 * bitmap_bytes st'"
  shows "pmm_inv st'"
    and "j < nframes st' \<Longrightarrow> \<not> bm_test (bitmap st') j \<longleftrightarrow>
      14336 \<le> j \<and>
      \<not> (bitmap_phys st' \<le> j * 4096 \<and> j * 4096 < bitmap_phys st' + bitmap_bytes st' + refcount_bytes st') \<and>
      (\<exists>e \<in> set es. e_type e = BOOT_MEM_USABLE \<and> frames_in (e_base e) (e_length e) j)"
proof -
  obtain st2 where s2: "nframes st2 < 2 ^ 52" "0 < nframes st2" "nframes st2 \<le> refcount_bytes st2 div 4"
    "bitmap_bytes st2 + refcount_bytes st2 < 2 ^ 56" "4096 dvd bitmap_bytes st2 + refcount_bytes st2" "find_bitmap_region st2 es \<noteq> 0"
    and st': "st' = (pmm_marked es (pmm_placed (find_bitmap_region st2 es) st2))
        \<lparr>free_frames := count_free (pmm_marked es (pmm_placed (find_bitmap_region st2 es) st2))\<rparr>"
    using init by (rule pmm_init_Ready)
  define r where "r = find_bitmap_region st2 es"
  define s3 where "s3 = pmm_placed r st2"
  have s3: "nframes s3 = nframes st2" "bitmap_phys s3 = r" "bitmap_bytes s3 = bitmap_bytes st2"
    "refcount_bytes s3 = refcount_bytes st2" "refcount s3 = replicate (refcount_bytes st2 div 4) 0"
    "bitmap s3 = replicate (bitmap_bytes st2) 0xFF"
    by (simp_all add: s3_def pmm_placed_def Let_def)
  have st'2: "st' = (pmm_marked es s3)\<lparr>free_frames := count_free (pmm_marked es s3)\<rparr>"
    using st' by (simp add: s3_def r_def)
  have fits: "nframes st2 \<le> 8 * bitmap_bytes st2"
    using fit by (simp add: st'2 s3 pmm_marked_sizes)
  have cap: "nframes s3 \<le> 8 * length (bitmap s3)" using fits by (simp add: s3)
  have full: "\<forall>i < nframes s3. bm_test (bitmap s3) i"
    using fits by (auto simp: s3 intro: bm_test_replicate_full)
  note mf = pmm_marked_fields [OF cap, of es]
  have b64: "add64 (bitmap_bytes st2) (refcount_bytes st2) = bitmap_bytes st2 + refcount_bytes st2"
    using s2(4) by (simp add: add64_id)
  have "bitmap_bytes st2 + refcount_bytes st2 \<le>
      ALIGN_UP (bitmap_bytes st2 + refcount_bytes st2) 4096"
    using s2(4) by (intro ALIGN_UP_ge) auto
  with find_bitmap_region_bounds [OF r_def [symmetric] s2(6) [folded r_def]]
  have r: "r mod 4096 = 0" "r + bitmap_bytes st2 + refcount_bytes st2 \<le> 2 ^ 32"
    by (simp_all add: b64)
  have test: "bm_test (bitmap st') j \<longleftrightarrow>
     frames_in r (bitmap_bytes st2 + refcount_bytes st2) j \<or> j < 14336 \<or>
     \<not> (\<exists>e \<in> set es. e_type e = BOOT_MEM_USABLE \<and> frames_in (e_base e) (e_length e) j)"
    if "j < nframes st'" for j
    using that pmm_marked_test [OF cap full, of j es] by (simp add: st'2 mf s3 b64 early_reserve_frames)
  have t0: "bm_test (bitmap st') 0" using s2(2) by (subst test) (simp_all add: st'2 mf s3)
  show "pmm_inv st'"
    using s2 fits t0 by (simp add: pmm_inv_def st'2 mf s3 count_free_count)
  have "frames_in r (bitmap_bytes st2 + refcount_bytes st2) j \<longleftrightarrow>
      r \<le> j * 4096 \<and> j * 4096 < r + (bitmap_bytes st2 + refcount_bytes st2)"
    using r s2(5) by (intro frames_in_aligned) (auto simp: dvd_eq_mod_eq_0)
  then show "j < nframes st' \<Longrightarrow> \<not> bm_test (bitmap st') j \<longleftrightarrow>
      14336 \<le> j \<and>
      \<not> (bitmap_phys st' \<le> j * 4096 \<and> j * 4096 < bitmap_phys st' + bitmap_bytes st' + refcount_bytes st') \<and>
      (\<exists>e \<in> set es. e_type e = BOOT_MEM_USABLE \<and> frames_in (e_base e) (e_length e) j)"
    using test [of j] by (auto simp: st'2 mf s3 not_less add.assoc)
qed


section \<open>Reachable states\<close>

inductive pmm_step :: "pmm_state \<Rightarrow> pmm_state \<Rightarrow> bool" where
  alloc: "pmm_step st (snd (pmm_alloc_frame st))"
| alloc_run: "pmm_step st (snd (pmm_alloc_contiguous n st))"
| alloc_2m: "pmm_step st (snd (pmm_alloc_2m st))"
| share: "pmm_step st (snd (pmm_inc_frame_ref p st))"
| free: "pmm_step st (pmm_free_frame p st)"
| free_run: "pmm_step st (pmm_free_contiguous p n st)"

lemma pmm_step_inv: "pmm_step st st' \<Longrightarrow> pmm_inv st \<Longrightarrow> pmm_inv st'"
  by (induction rule: pmm_step.induct)
    (auto intro: pmm_alloc_frame_inv pmm_alloc_contiguous_inv pmm_alloc_2m_inv
      pmm_inc_frame_ref_inv pmm_free_frame_inv pmm_free_contiguous_inv)

lemma pmm_steps_inv: "pmm_step\<^sup>*\<^sup>* st st' \<Longrightarrow> pmm_inv st \<Longrightarrow> pmm_inv st'"
  by (induction rule: rtranclp_induct) (auto intro: pmm_step_inv)

text \<open>Giving back \<open>k\<close> of a frame's references.\<close>

lemma pmm_free_frame_iter:
  assumes "pmm_inv st" "k \<le> frame_count st (p div 4096)"
  shows "pmm_inv ((pmm_free_frame p ^^ k) st) \<and>
    frame_count ((pmm_free_frame p ^^ k) st) =
      (frame_count st)(p div 4096 := frame_count st (p div 4096) - k)"
  using assms(2)
proof (induction k)
  case (Suc k)
  let ?s = "(pmm_free_frame p ^^ k) st"
  from Suc have IH: "pmm_inv ?s"
    "frame_count ?s = (frame_count st)(p div 4096 := frame_count st (p div 4096) - k)" by auto
  then have "0 < frame_count ?s (p div 4096)" using Suc.prems by simp
  from pmm_free_frame_inv [OF IH(1)] pmm_free_frame_count [OF IH(1) this] IH(2)
  show ?case by simp
qed (use assms(1) in \<open>simp add: fun_upd_idem\<close>)

lemma pmm_alloc_frame_avail:
  assumes "pmm_inv st" "0 < free_frames st"
  shows "fst (pmm_alloc_frame st) \<noteq> 0" "free_frames (snd (pmm_alloc_frame st)) = free_frames st - 1"
  using assms pmm_inv_free_frames_less [OF assms(1)]
  by (rule_tac pmm_alloc_frame_cases [of st]; simp add: sub64_id)+

lemma frame_refs_mem [simp]: "frame_refs (st\<lparr>phys_mem := m\<rparr>) = frame_refs st"
  by (simp add: frame_refs_def fun_eq_iff)

lemma pmm_inc_frame_ref_ok:
  assumes "pmm_inv pm" "0 < frame_refs pm p" "frame_refs pm p < 2 ^ 32 - 1"
  obtains pm' where "pmm_inc_frame_ref p pm = (0, pm')" "pmm_inv pm'"
    "frame_refs pm' = (frame_refs pm)(p := frame_refs pm p + 1)" "phys_mem pm' = phys_mem pm"
proof -
  obtain r pm' where i: "pmm_inc_frame_ref p pm = (r, pm')" by fastforce
  with pmm.inc_held [OF assms(1,3,2)] have "r = 0" "frame_refs pm' = (frame_refs pm)(p := frame_refs pm p + 1)"
    by auto
  moreover have "pmm_inv pm'" using pmm.inc_inv [OF assms(1,3) _ i] assms(2) by (simp add: frame_refs_pos)
  moreover have "phys_mem pm' = phys_mem pm"
    using i by (auto simp: pmm_inc_frame_ref_def Let_def split: if_splits)
  ultimately show thesis using that [of pm'] i by simp
qed

section \<open>An example state\<close>

definition demo_pmm :: pmm_state where
  "demo_pmm = \<lparr>bitmap = 1 # replicate 255 0, nframes = 2048, bitmap_bytes = 256,
     usable_frames = 2048, free_frames = 2047, bitmap_phys = 0, bitmap_frames = 0,
     refcount = replicate 2048 0, refcount_bytes = 8192, refcount_phys = 0,
     refcount_frames = 2, hhdm = 0, phys_mem = (\<lambda>_. 0)\<rparr>"

lemma demo_pmm_test: "i < 2048 \<Longrightarrow> bm_test (bitmap demo_pmm) i \<longleftrightarrow> i = 0"
  by (cases "i < 8") (auto simp: demo_pmm_def bm_test_bit bit_1_iff nth_Cons split: nat.split)

lemma demo_pmm_inv: "pmm_inv demo_pmm"
proof -
  have "count_upto (\<lambda>i. \<not> bm_test (bitmap demo_pmm) i) 2048 = count_upto (\<lambda>i. \<not> i = 0) 2048"
    by (rule count_upto_cong) (simp add: demo_pmm_test)
  also have "\<dots> = 2047"
    using count_upto_remove [of 0 2048 "\<lambda>_. True"] count_upto_full [of "\<lambda>_. True" 2048] by simp
  finally show ?thesis
    using demo_pmm_test [of 0] by (simp add: pmm_inv_def) (simp add: demo_pmm_def)
qed

section \<open>Properties\<close>


definition demo_mmap :: "boot_mmap_entry list" where
  "demo_mmap = [\<lparr>e_base = 0x100000, e_length = 0x100000, e_type = BOOT_MEM_BOOTLOADER\<rparr>,
                \<lparr>e_base = 0x4000000, e_length = 0x10000, e_type = BOOT_MEM_USABLE\<rparr>]"

lemma demo_mmap_init:
  defines "r \<equiv> pmm_init demo_mmap 1 demo_pmm"
  shows "fst r = Ready" "nframes (snd r) = 16400" "bitmap_bytes (snd r) = 4096"
    "bitmap_phys (snd r) = 0x1EE000" "refcount_bytes (snd r) = 69632"
  by (simp_all add: r_def pmm_init_def demo_mmap_def Let_def pmm_sized_def usable_extent_def
      BOOT_MEM_USABLE_def BOOT_MEM_BOOTLOADER_def find_bitmap_region_def bitmap_candidate_def
      add64_def sub64_def mul64_def ALIGN_UP_def ALIGN_DOWN_def pmm_consts PMM_EARLY_HHDM_LIMIT_def
      GIB_def MIB_def pmm_marked_sizes pmm_placed_def pmm_marked_def)




text \<open>C3: \<open>pmm_alloc_frame\<close> answers 0 and changes nothing exactly when no frame is free; otherwise it
  returns the lowest free frame, zero-filled, now held once, leaving every other frame's
  references and every byte outside the frame as they were and one free frame less.\<close>

theorem pmm_alloc_frame_correct:
  assumes "pmm_inv st" and "pmm_alloc_frame st = (p, st')"
  shows "if free_frames st = 0 then p = 0 \<and> st' = st
    else \<exists>i. p = i * 4096 \<and> 0 < i \<and> i < nframes st \<and> \<not> bm_test (bitmap st) i \<and>
      (\<forall>j < i. bm_test (bitmap st) j) \<and>
      frame_refs st' = (frame_refs st)(p := 1) \<and> free_frames st' + 1 = free_frames st \<and>
      (\<forall>a. phys_mem st' a = (if p \<le> a \<and> a < p + 4096 then 0 else phys_mem st a))"
  using assms(1)
proof (cases rule: pmm_alloc_frame_cases)
  case oom
  with assms(2) show ?thesis by simp
next
  case (frame i)
  from take_frame_inv [OF assms(1) frame(2,3)] frame(5) assms(2)
  have st': "Suc (free_frames st') = free_frames st" by auto
  have "p \<noteq> 0" "p = i * 4096" using frame assms(2) by auto
  with pmm_alloc_frame_refs [OF assms] have "frame_refs st' = (frame_refs st)(p := 1)" by simp
  moreover have "\<forall>a. phys_mem st' a = (if p \<le> a \<and> a < p + 4096 then 0 else phys_mem st a)"
    using frame(5) assms(2) by (auto simp: mem_fill_def)
  ultimately show ?thesis using frame st' \<open>p = i * 4096\<close> by auto
qed

theorem pmm_alloc_frame_correct_witness:
  "free_frames demo_pmm \<noteq> 0 \<and>
   (\<exists>i. fst (pmm_alloc_frame demo_pmm) = i * 4096 \<and> 0 < i \<and> \<not> bm_test (bitmap demo_pmm) i)"
proof -
  have "free_frames demo_pmm \<noteq> 0" by (simp add: demo_pmm_def)
  with pmm_alloc_frame_correct [OF demo_pmm_inv prod.collapse [symmetric]]
  show ?thesis by metis
qed

text \<open>C4: sharing is counted exactly.  A frame held \<open>c\<close> times is still allocated after fewer than
  \<open>c\<close> releases and back in the free pool after the \<open>c\<close>-th, and no other frame's references change.\<close>

theorem pmm_free_frame_shared:
  assumes "pmm_inv st" and "0 < frame_count st (p div 4096)" and "k \<le> frame_count st (p div 4096)"
  shows "(bm_test (bitmap ((pmm_free_frame p ^^ k) st)) (p div 4096) \<longleftrightarrow>
      k < frame_count st (p div 4096)) \<and>
    frame_count ((pmm_free_frame p ^^ k) st) =
      (frame_count st)(p div 4096 := frame_count st (p div 4096) - k)"
proof -
  let ?i = "p div 4096"
  note it = pmm_free_frame_iter [OF assms(1,3)]
  have "\<not> bm_test (bitmap ((pmm_free_frame p ^^ k) st)) ?i" if eq: "k = frame_count st ?i"
  proof -
    obtain k' where k': "k = Suc k'" using assms(2) unfolding eq [symmetric] by (cases k) auto
    let ?s = "(pmm_free_frame p ^^ k') st"
    have one: "pmm_inv ?s \<and> frame_count ?s ?i = 1"
      using pmm_free_frame_iter [OF assms(1), of k' p] assms(3) k' eq by auto
    have "pmm_free_frame p ?s = pmm_free_frame (?i * 4096) ?s"
      by (simp add: pmm_free_frame_def pmm_consts)
    with pmm_free_frame_last(4) [of ?s ?i ?i] one show ?thesis by (simp add: k')
  qed
  moreover have "bm_test (bitmap ((pmm_free_frame p ^^ k) st)) ?i" if "k < frame_count st ?i"
  proof -
    have "0 < frame_count ((pmm_free_frame p ^^ k) st) ?i" using it that by simp
    then show ?thesis by (simp add: frame_count_def split: if_splits)
  qed
  ultimately show ?thesis using it assms(3) by (metis le_neq_implies_less nat_less_le)
qed

lemma demo_pmm_taken:
  "pmm_inv (snd (pmm_alloc_frame demo_pmm))" "frame_count (snd (pmm_alloc_frame demo_pmm)) 1 = 1"
proof -
  show inv: "pmm_inv (snd (pmm_alloc_frame demo_pmm))" by (rule pmm_alloc_frame_inv [OF demo_pmm_inv])
  show "frame_count (snd (pmm_alloc_frame demo_pmm)) 1 = 1"
    using demo_pmm_inv
  proof (cases rule: pmm_alloc_frame_cases)
    case (frame i)
    have i: "i = 1"
    proof (rule ccontr)
      assume "i \<noteq> 1"
      with frame(1) have "1 < i" by simp
      with frame(4) demo_pmm_test [of 1] show False by simp
    qed
    from take_frame_inv(2) [OF demo_pmm_inv frame(2,3)] show ?thesis
      by (simp add: frame(5) i frame_count_def fun_eq_iff)
  qed (simp add: demo_pmm_def)
qed

theorem pmm_free_frame_shared_witness:
  "\<not> bm_test (bitmap (pmm_free_frame 4096 (snd (pmm_alloc_frame demo_pmm)))) 1"
  using pmm_free_frame_shared [of "snd (pmm_alloc_frame demo_pmm)" 4096 1] demo_pmm_taken by simp

text \<open>C5: \<open>pmm_alloc_2m\<close> fails, changing nothing, exactly when there is no run of 1024 free frames;
  otherwise it returns 512 previously free, zero-filled frames whose first frame number is a
  multiple of 512, each held once, and it gives back everything else it had taken.\<close>

theorem pmm_alloc_2m_correct:
  assumes "pmm_inv st"
  shows "if \<exists>i. free_run (bitmap st) (nframes st) 1024 i
    then \<exists>a st'. pmm_alloc_2m st = (a * 4096, st') \<and> a mod 512 = 0 \<and> 0 < a \<and>
      a + 512 \<le> nframes st \<and> (\<forall>k < 512. \<not> bm_test (bitmap st) (a + k)) \<and>
      free_frames st = free_frames st' + 512 \<and>
      frame_count st' = (\<lambda>j. if a \<le> j \<and> j < a + 512 then 1 else frame_count st j) \<and>
      (\<forall>x. a * 4096 \<le> x \<and> x < (a + 512) * 4096 \<longrightarrow> phys_mem st' x = 0)
    else pmm_alloc_2m st = (0, st)"
  using assms
proof (cases rule: pmm_alloc_2m_cases)
  case (got a st')
  have "\<exists>i. free_run (bitmap st) (nframes st) 1024 i"
  proof (rule ccontr)
    assume "\<not> ?thesis"
    with assms have "pmm_alloc_2m st = (0, st)"
      by (rule_tac pmm_alloc_contiguous_cases [of st 1024]) (auto simp: pmm_alloc_2m_def)
    with got(1,2) show False by simp
  qed
  moreover have "\<exists>a st'. pmm_alloc_2m st = (a * 4096, st') \<and> a mod 512 = 0 \<and> 0 < a \<and>
      a + 512 \<le> nframes st \<and> (\<forall>k < 512. \<not> bm_test (bitmap st) (a + k)) \<and>
      free_frames st = free_frames st' + 512 \<and>
      frame_count st' = (\<lambda>j. if a \<le> j \<and> j < a + 512 then 1 else frame_count st j) \<and>
      (\<forall>x. a * 4096 \<le> x \<and> x < (a + 512) * 4096 \<longrightarrow> phys_mem st' x = 0)"
    using got by (intro exI [of _ a] exI [of _ st']) simp
  ultimately show ?thesis by argo
qed simp

theorem pmm_alloc_2m_correct_witness:
  "\<exists>a st'. pmm_alloc_2m demo_pmm = (a * 4096, st') \<and> a mod 512 = 0 \<and> 0 < a"
proof -
  have "free_run (bitmap demo_pmm) (nframes demo_pmm) 1024 1"
    using demo_pmm_test by (simp add: free_run_def demo_pmm_def)
  with pmm_alloc_2m_correct [OF demo_pmm_inv] show ?thesis by meson
qed

text \<open>C6: the bitmap \<open>pmm_init\<close> sizes as \<open>ALIGN_UP(nframes / 8)\<close> has a bit for every frame exactly
  when the last 32768-frame page of the bitmap is empty or used by at least 8 frames: with 1 to 7
  frames over a multiple of 32768 the division drops the partial byte and the bitmap is one page
  short.\<close>

theorem pmm_sized_bitmap_covers:
  "nframes (pmm_sized entries st) \<le> 8 * bitmap_bytes (pmm_sized entries st) \<longleftrightarrow>
   nframes (pmm_sized entries st) mod 32768 = 0 \<or> 8 \<le> nframes (pmm_sized entries st) mod 32768"
proof -
  let ?n = "nframes (pmm_sized entries st)"
  have n: "?n < 2 ^ 52" by (rule pmm_sized_bounds)
  have "bitmap_bytes (pmm_sized entries st) = ALIGN_UP (?n div 8) 4096"
    by (simp add: pmm_sized_def Let_def pmm_consts split: prod.split)
  also have "\<dots> = (?n div 8 + 4095) div 4096 * 4096"
    using n by (simp add: ALIGN_UP_def add64_id div_mult_mod_eq minus_mod_eq_div_mult)
  finally have b: "bitmap_bytes (pmm_sized entries st) = (?n div 8 + 4095) div 4096 * 4096" .
  have "?n = ?n div 32768 * 32768 + ?n mod 32768" by simp
  then obtain q r where qr: "?n = q * 32768 + r" "r < 32768" "q = ?n div 32768" "r = ?n mod 32768"
    by simp
  have "?n div 8 = q * 4096 + r div 8" using qr(1) by simp
  then have "(?n div 8 + 4095) div 4096 = q + (r div 8 + 4095) div 4096" by simp
  moreover have "(r div 8 + 4095) div 4096 = (if r < 8 then 0 else 1)" using qr(2) by auto
  ultimately show ?thesis unfolding b qr(4) [symmetric] by (subst qr(1)) (use qr(2) in auto)
qed

end
