(* ===== verification/TcpPolicy.thy ===== *)
theory TcpPolicy
  imports Prelude
begin

text \<open>
  The TCP policy layer of \<open>kernel/net/tcp_cc.h\<close>, \<open>tcp_m6.h\<close> and \<open>tcp_x5.h\<close>: congestion-window
  arithmetic, duplicate-ACK classification and fast retransmit, Nagle, delayed ACK, the closing
  half of the connection state machine, the retransmission timer, the segment-size ladder, the
  send scheduler and the inbound sequencer.  All quantities are 32-bit words and every \<open>+\<close>, \<open>-\<close>
  and \<open>*\<close> wraps as in C; a C cast \<open>(int32_t)(a - b)\<close> is \<open>seq_diff a b\<close>.
\<close>

definition seq_diff :: "u32 \<Rightarrow> u32 \<Rightarrow> int" where
  "seq_diff a b = sint (a - b)"

section \<open>Congestion control\<close>

definition tcpcc_iw :: "u32 \<Rightarrow> u32" where
  "tcpcc_iw mss =
     (let ten = 10 * mss;
          floor2 = (if 2 * mss > 14600 then 2 * mss else 14600)
      in if ten < floor2 then ten else floor2)"

definition tcpcc_ack_grow :: "u32 \<Rightarrow> u32 \<Rightarrow> u32 \<Rightarrow> u32 \<Rightarrow> u32 \<Rightarrow> u32" where
  "tcpcc_ack_grow cwnd ssthresh mss acked_bytes cap =
     (let grown = (if cwnd < ssthresh
                   then cwnd + (if acked_bytes < mss then acked_bytes else mss)
                   else let inc = (mss * mss) div (if cwnd \<noteq> 0 then cwnd else 1)
                        in cwnd + (if inc = 0 then 1 else inc));
          grown = (if grown < cwnd then cap else grown)
      in if grown > cap then cap else grown)"

definition tcpcc_rto_cwnd :: "u32 \<Rightarrow> u32" where
  "tcpcc_rto_cwnd mss = mss"

section \<open>Duplicate acknowledgements\<close>

definition TCPM6_DUPACK_THRESH :: u32 where "TCPM6_DUPACK_THRESH = 3"

record tcpm6_dupack =
  last_ack :: u32
  dup_count :: u32
  in_recovery :: bool
  recover :: u32

definition tcpm6_dupack_init :: tcpm6_dupack where
  "tcpm6_dupack_init = \<lparr>last_ack = 0, dup_count = 0, in_recovery = False, recover = 0\<rparr>"

datatype tcpm6_ack_kind =
  TCPM6_ACK_PROGRESS | TCPM6_ACK_DUP | TCPM6_ACK_FAST_RETX | TCPM6_ACK_IN_RECOVERY | TCPM6_ACK_OLD

definition tcpm6_on_ack ::
  "tcpm6_dupack \<Rightarrow> u32 \<Rightarrow> u32 \<Rightarrow> u32 \<Rightarrow> bool \<Rightarrow> bool \<Rightarrow> tcpm6_ack_kind \<times> tcpm6_dupack" where
  "tcpm6_on_ack d snd_una ack snd_nxt has_data win_changed =
     (if seq_diff ack snd_una > 0
      then (TCPM6_ACK_PROGRESS,
            d\<lparr>last_ack := ack, dup_count := 0,
              in_recovery := (if in_recovery d \<and> seq_diff ack (recover d) \<ge> 0
                              then False else in_recovery d)\<rparr>)
      else if seq_diff ack snd_una < 0 then (TCPM6_ACK_OLD, d)
      else if has_data \<or> win_changed then (TCPM6_ACK_OLD, d)
      else if snd_nxt = snd_una then (TCPM6_ACK_OLD, d)
      else if in_recovery d then (TCPM6_ACK_IN_RECOVERY, d\<lparr>dup_count := dup_count d + 1\<rparr>)
      else let d1 = d\<lparr>last_ack := ack, dup_count := dup_count d + 1\<rparr> in
           if dup_count d1 = TCPM6_DUPACK_THRESH
           then (TCPM6_ACK_FAST_RETX, d1\<lparr>in_recovery := True, recover := snd_nxt\<rparr>)
           else (TCPM6_ACK_DUP, d1))"

definition tcpm6_recovery_ssthresh :: "u32 \<Rightarrow> u32 \<Rightarrow> u32" where
  "tcpm6_recovery_ssthresh flight mss =
     (let half = flight div 2; floor = 2 * mss in if half > floor then half else floor)"

definition tcpm6_recovery_cwnd :: "u32 \<Rightarrow> u32 \<Rightarrow> u32 \<Rightarrow> u32" where
  "tcpm6_recovery_cwnd ssthresh mss dupacks = ssthresh + (if dupacks < 3 then 3 else dupacks) * mss"

section \<open>Nagle and delayed acknowledgements\<close>

definition tcpm6_nagle_may_send :: "u32 \<Rightarrow> u32 \<Rightarrow> u32 \<Rightarrow> u32 \<Rightarrow> bool \<Rightarrow> bool \<Rightarrow> bool" where
  "tcpm6_nagle_may_send len mss snd_una snd_nxt nodelay push =
     (if len = 0 then False
      else if nodelay then True
      else if len \<ge> mss then True
      else if snd_nxt = snd_una then True
      else if push then True
      else False)"

definition TCPM6_DELACK_MS :: u32 where "TCPM6_DELACK_MS = 200"
definition TCPM6_DELACK_SEGS :: u32 where "TCPM6_DELACK_SEGS = 2"

record tcpm6_delack =
  pending_segs :: u32
  first_tick :: u32

definition tcpm6_delack_init :: tcpm6_delack where
  "tcpm6_delack_init = \<lparr>pending_segs = 0, first_tick = 0\<rparr>"

definition tcpm6_delack_on_segment ::
  "tcpm6_delack \<Rightarrow> u32 \<Rightarrow> u32 \<Rightarrow> u32 \<Rightarrow> bool \<Rightarrow> bool \<Rightarrow> bool \<times> tcpm6_delack" where
  "tcpm6_delack_on_segment a now_tick seg_len mss push out_of_order =
     (if seg_len = 0 then (False, a)
      else if push \<or> out_of_order then (True, a\<lparr>pending_segs := 0\<rparr>)
      else let a1 = (if pending_segs a = 0 then a\<lparr>first_tick := now_tick\<rparr> else a);
               a2 = a1\<lparr>pending_segs := pending_segs a1 + 1\<rparr>
           in if pending_segs a2 \<ge> TCPM6_DELACK_SEGS \<or> seg_len \<ge> mss
              then (True, a2\<lparr>pending_segs := 0\<rparr>)
              else (False, a2))"

definition tcpm6_delack_expired :: "tcpm6_delack \<Rightarrow> u32 \<Rightarrow> u32 \<Rightarrow> bool" where
  "tcpm6_delack_expired a now_tick ms_per_tick =
     (if pending_segs a = 0 then False
      else (now_tick - first_tick a) * ms_per_tick \<ge> TCPM6_DELACK_MS)"

section \<open>Closing a connection\<close>

definition TCPM6_MSL_MS :: u32 where "TCPM6_MSL_MS = 15000"
definition TCPM6_TIME_WAIT_MS :: u32 where "TCPM6_TIME_WAIT_MS = 2 * TCPM6_MSL_MS"

definition tcpm6_time_wait_expired :: "u32 \<Rightarrow> u32 \<Rightarrow> u32 \<Rightarrow> bool" where
  "tcpm6_time_wait_expired entered_tick now_tick ms_per_tick =
     ((now_tick - entered_tick) * ms_per_tick \<ge> TCPM6_TIME_WAIT_MS)"

datatype tcpm6_state =
  TCPM6_ST_CLOSED | TCPM6_ST_LISTEN | TCPM6_ST_SYN_SENT | TCPM6_ST_ESTABLISHED |
  TCPM6_ST_FIN_WAIT_1 | TCPM6_ST_FIN_WAIT_2 | TCPM6_ST_CLOSING | TCPM6_ST_CLOSE_WAIT |
  TCPM6_ST_LAST_ACK | TCPM6_ST_TIME_WAIT

definition tcpm6_on_fin :: "tcpm6_state \<Rightarrow> tcpm6_state" where
  "tcpm6_on_fin state =
     (case state of
        TCPM6_ST_ESTABLISHED \<Rightarrow> TCPM6_ST_CLOSE_WAIT
      | TCPM6_ST_FIN_WAIT_2 \<Rightarrow> TCPM6_ST_TIME_WAIT
      | TCPM6_ST_FIN_WAIT_1 \<Rightarrow> TCPM6_ST_CLOSING
      | _ \<Rightarrow> TCPM6_ST_CLOSED)"

definition tcpm6_on_close :: "tcpm6_state \<Rightarrow> tcpm6_state" where
  "tcpm6_on_close state =
     (case state of
        TCPM6_ST_ESTABLISHED \<Rightarrow> TCPM6_ST_FIN_WAIT_1
      | TCPM6_ST_CLOSE_WAIT \<Rightarrow> TCPM6_ST_LAST_ACK
      | s \<Rightarrow> s)"

definition tcpm6_on_fin_acked :: "tcpm6_state \<Rightarrow> tcpm6_state" where
  "tcpm6_on_fin_acked state =
     (case state of
        TCPM6_ST_FIN_WAIT_1 \<Rightarrow> TCPM6_ST_FIN_WAIT_2
      | TCPM6_ST_LAST_ACK \<Rightarrow> TCPM6_ST_CLOSED
      | TCPM6_ST_CLOSING \<Rightarrow> TCPM6_ST_TIME_WAIT
      | s \<Rightarrow> s)"

definition tcpm6_can_recv :: "tcpm6_state \<Rightarrow> bool" where
  "tcpm6_can_recv state \<longleftrightarrow>
     state = TCPM6_ST_ESTABLISHED \<or> state = TCPM6_ST_FIN_WAIT_2 \<or> state = TCPM6_ST_CLOSE_WAIT"

definition tcpm6_can_send :: "tcpm6_state \<Rightarrow> bool" where
  "tcpm6_can_send state \<longleftrightarrow> state = TCPM6_ST_ESTABLISHED \<or> state = TCPM6_ST_CLOSE_WAIT"

section \<open>Retransmission timer\<close>

definition TCPX5_RTO_INIT_MS :: u32 where "TCPX5_RTO_INIT_MS = 1000"
definition TCPX5_RTO_MIN_MS :: u32 where "TCPX5_RTO_MIN_MS = 200"
definition TCPX5_RTO_MAX_MS :: u32 where "TCPX5_RTO_MAX_MS = 60000"

record tcpx5_rto =
  srtt_ms :: u32
  rttvar_ms :: u32
  rto_ms :: u32
  eff_ms :: u32
  backoff :: byte

definition tcpx5_rto_init :: tcpx5_rto where
  "tcpx5_rto_init = \<lparr>srtt_ms = 0, rttvar_ms = 0, rto_ms = TCPX5_RTO_INIT_MS,
     eff_ms = TCPX5_RTO_INIT_MS, backoff = 0\<rparr>"

definition tcpx5_rto_sample :: "tcpx5_rto \<Rightarrow> u32 \<Rightarrow> tcpx5_rto" where
  "tcpx5_rto_sample r rtt =
     (let rtt = (if rtt = 0 then 10 else rtt);
          r1 = (if srtt_ms r = 0
                then r\<lparr>srtt_ms := rtt, rttvar_ms := rtt div 2\<rparr>
                else let delta = (if srtt_ms r > rtt then srtt_ms r - rtt else rtt - srtt_ms r)
                     in r\<lparr>rttvar_ms := (3 * rttvar_ms r + delta) div 4,
                          srtt_ms := (7 * srtt_ms r + rtt) div 8\<rparr>);
          rto = srtt_ms r1 + 4 * rttvar_ms r1;
          rto = (if rto < TCPX5_RTO_MIN_MS then TCPX5_RTO_MIN_MS else rto);
          rto = (if rto > TCPX5_RTO_MAX_MS then TCPX5_RTO_MAX_MS else rto)
      in r1\<lparr>rto_ms := rto, eff_ms := rto, backoff := 0\<rparr>)"

definition tcpx5_rto_backoff :: "tcpx5_rto \<Rightarrow> tcpx5_rto" where
  "tcpx5_rto_backoff r =
     (let eff = eff_ms r * 2
      in r\<lparr>backoff := backoff r + 1,
           eff_ms := (if eff < eff_ms r \<or> eff > TCPX5_RTO_MAX_MS then TCPX5_RTO_MAX_MS else eff)\<rparr>)"

section \<open>Segment size, send budget and sequencer\<close>

definition TCPX5_LADDER_LEN :: u32 where "TCPX5_LADDER_LEN = 4"

definition tcpx5_mss_ladder :: "u32 \<Rightarrow> u32" where
  "tcpx5_mss_ladder timeouts =
     (let idx = (if timeouts < 3 then 0 else (timeouts - 1) div 2);
          idx = (if idx \<ge> TCPX5_LADDER_LEN then TCPX5_LADDER_LEN - 1 else idx)
      in [1460, 1200, 1024, 536] ! unat idx)"

definition tcpx5_send_chunk :: "u32 \<Rightarrow> u32 \<Rightarrow> u32 \<Rightarrow> u32 \<Rightarrow> u32 \<Rightarrow> u32 \<Rightarrow> u32" where
  "tcpx5_send_chunk snd_una snd_nxt cwnd snd_wnd eff_mss want =
     (let budget = (if cwnd < snd_wnd then cwnd else snd_wnd);
          in_flight = snd_nxt - snd_una
      in if in_flight \<ge> budget then 0
         else let room = budget - in_flight;
                  chunk = (if want < room then want else room)
              in if chunk < eff_mss then chunk else eff_mss)"

datatype tcpx5_seq_class =
  TCPX5_IN_ORDER | TCPX5_DUP | TCPX5_PARTIAL_DUP | TCPX5_OOO | TCPX5_OOO_FAR

definition tcpx5_classify :: "u32 \<Rightarrow> u32 \<Rightarrow> u32 \<Rightarrow> u32 \<Rightarrow> tcpx5_seq_class" where
  "tcpx5_classify expected seg_seq seg_len rcv_wnd =
     (if seg_len = 0 then TCPX5_IN_ORDER
      else if seg_seq = expected then TCPX5_IN_ORDER
      else let diff = seq_diff seg_seq expected in
           if diff \<ge> 0
           then (if (word_of_int diff :: u32) \<le> rcv_wnd then TCPX5_OOO else TCPX5_OOO_FAR)
           else if (word_of_int (- diff) :: u32) \<ge> seg_len then TCPX5_DUP
           else TCPX5_PARTIAL_DUP)"

definition tcpx5_dup_prefix :: "u32 \<Rightarrow> u32 \<Rightarrow> u32" where
  "tcpx5_dup_prefix expected seg_seq = expected - seg_seq"

end
