(* ===== verification/TcpPolicy_Props.thy ===== *)
theory TcpPolicy_Props
  imports TcpPolicy
begin

text \<open>
  Laws of sequence-number differences, and the properties of the TCP policy functions: when fast
  retransmit fires, how the closing states refine a half-close specification, the bounds of the
  retransmission timer, the send budget, the sequencer and the congestion window.
\<close>

section \<open>Sequence numbers\<close>

lemma seq_diff_range: "- (2 ^ 31) \<le> seq_diff a b" "seq_diff a b < 2 ^ 31"
  using sint_ge [of "a - b"] sint_lt [of "a - b"] by (simp_all add: seq_diff_def)

lemma seq_diff_eq_0 [simp]: "seq_diff a b = 0 \<longleftrightarrow> a = b"
  by (simp add: seq_diff_def signed_eq_0_iff)

lemma seq_diff_self [simp]: "seq_diff a a = 0"
  by simp

lemma seq_diff_offset:
  "- (2 ^ 31) \<le> k \<Longrightarrow> k < 2 ^ 31 \<Longrightarrow> seq_diff (b + word_of_int k) b = k"
  by (simp add: seq_diff_def int_word_sint)

lemma seq_diff_offset2:
  assumes "- (2 ^ 31) \<le> k - l" "k - l < 2 ^ 31"
  shows "seq_diff (b + word_of_int k) (b + word_of_int l) = k - l"
proof -
  have "(b + word_of_int k) - (b + word_of_int l) = (word_of_int (k - l) :: u32)" by simp
  then show ?thesis using assms seq_diff_offset [of "k - l" 0] by (simp add: seq_diff_def)
qed

section \<open>Fast retransmit\<close>

text \<open>The state after \<open>n\<close> pure duplicates of the acknowledgement \<open>una\<close>.\<close>

definition after_dups :: "nat \<Rightarrow> u32 \<Rightarrow> u32 \<Rightarrow> tcpm6_dupack \<Rightarrow> tcpm6_dupack" where
  "after_dups n una nxt = ((\<lambda>d. snd (tcpm6_on_ack d una una nxt False False)) ^^ n)"

lemma after_dups_state:
  assumes "una \<noteq> nxt" "dup_count d = 0" "\<not> in_recovery d"
  shows "in_recovery (after_dups n una nxt d) \<longleftrightarrow> 3 \<le> n"
    and "n \<le> 3 \<Longrightarrow> dup_count (after_dups n una nxt d) = of_nat n"
proof -
  have "(in_recovery (after_dups n una nxt d) \<longleftrightarrow> 3 \<le> n) \<and>
      (n \<le> 3 \<longrightarrow> dup_count (after_dups n una nxt d) = of_nat n)"
  proof (induction n)
    case (Suc n)
    let ?d = "after_dups n una nxt d"
    have step: "after_dups (Suc n) una nxt d = snd (tcpm6_on_ack ?d una una nxt False False)"
      by (simp add: after_dups_def)
    consider "n = 0" | "n = 1" | "n = 2" | "3 \<le> n" by linarith
    then show ?case
      using Suc assms(1) unfolding step
      by cases (auto simp: tcpm6_on_ack_def TCPM6_DUPACK_THRESH_def Let_def)
  qed (use assms in \<open>simp add: after_dups_def\<close>)
  then show "in_recovery (after_dups n una nxt d) \<longleftrightarrow> 3 \<le> n"
    "n \<le> 3 \<Longrightarrow> dup_count (after_dups n una nxt d) = of_nat n" by auto
qed

text \<open>C7: with data in flight and no loss recovery under way, the first two pure duplicate ACKs are
  only counted, the third starts exactly one fast retransmit, and every further duplicate is
  recognised as belonging to the same recovery, however many arrive.\<close>

theorem tcpm6_fast_retransmit_once:
  assumes "una \<noteq> nxt" and "dup_count d = 0" and "\<not> in_recovery d"
  shows "fst (tcpm6_on_ack (after_dups n una nxt d) una una nxt False False) =
    (if n < 2 then TCPM6_ACK_DUP else if n = 2 then TCPM6_ACK_FAST_RETX else TCPM6_ACK_IN_RECOVERY)"
proof -
  consider "n = 0" | "n = 1" | "n = 2" | "3 \<le> n" by linarith
  then show ?thesis
    using after_dups_state [OF assms, of n] assms(1)
    by cases (auto simp: tcpm6_on_ack_def TCPM6_DUPACK_THRESH_def Let_def)
qed

theorem tcpm6_fast_retransmit_once_witness:
  "fst (tcpm6_on_ack (after_dups 2 100 200 tcpm6_dupack_init) 100 100 200 False False)
     = TCPM6_ACK_FAST_RETX"
  using tcpm6_fast_retransmit_once [of 100 200 tcpm6_dupack_init 2]
  by (simp add: tcpm6_dupack_init_def)

section \<open>Closing\<close>

text \<open>
  The specification of a close: which side has sent its FIN, whether ours was acknowledged, and
  whether the peer's came first.  \<open>close_state\<close> is the RFC 793 state each combination stands for.
\<close>

record half_close =
  fin_sent :: bool
  fin_acked :: bool
  fin_rcvd :: bool
  peer_first :: bool

definition close_state :: "half_close \<Rightarrow> tcpm6_state" where
  "close_state h =
     (if \<not> fin_sent h \<and> \<not> fin_rcvd h then TCPM6_ST_ESTABLISHED
      else if \<not> fin_sent h then TCPM6_ST_CLOSE_WAIT
      else if peer_first h then (if fin_acked h then TCPM6_ST_CLOSED else TCPM6_ST_LAST_ACK)
      else if fin_rcvd h then (if fin_acked h then TCPM6_ST_TIME_WAIT else TCPM6_ST_CLOSING)
      else (if fin_acked h then TCPM6_ST_FIN_WAIT_2 else TCPM6_ST_FIN_WAIT_1))"

text \<open>Each side closes once, in any order, and our FIN is acknowledged after it was sent.\<close>

inductive closing :: "half_close \<Rightarrow> tcpm6_state \<Rightarrow> bool" where
  established: "closing \<lparr>fin_sent = False, fin_acked = False, fin_rcvd = False, peer_first = False\<rparr>
    TCPM6_ST_ESTABLISHED"
| peer_fin: "closing h s \<Longrightarrow> \<not> fin_rcvd h \<Longrightarrow>
    closing (h\<lparr>fin_rcvd := True, peer_first := \<not> fin_sent h\<rparr>) (tcpm6_on_fin s)"
| our_fin: "closing h s \<Longrightarrow> \<not> fin_sent h \<Longrightarrow> closing (h\<lparr>fin_sent := True\<rparr>) (tcpm6_on_close s)"
| our_fin_acked: "closing h s \<Longrightarrow> fin_sent h \<Longrightarrow> \<not> fin_acked h \<Longrightarrow>
    closing (h\<lparr>fin_acked := True\<rparr>) (tcpm6_on_fin_acked s)"

lemma closing_inv:
  "closing h s \<Longrightarrow> s = close_state h \<and> (fin_acked h \<longrightarrow> fin_sent h) \<and>
     (peer_first h \<longrightarrow> fin_rcvd h) \<and> (fin_rcvd h \<and> \<not> fin_sent h \<longrightarrow> peer_first h)"
  by (induction rule: closing.induct)
    (auto simp: close_state_def tcpm6_on_fin_def tcpm6_on_close_def tcpm6_on_fin_acked_def
      split: if_splits)

text \<open>C8: the three closing transitions implement the half-close specification.  Whatever the order
  of the two FINs and the acknowledgement, the state is the RFC 793 state of what has happened;
  the application may write exactly until it closes, and the connection is CLOSED or TIME_WAIT
  only once both FINs and the acknowledgement are done, TIME_WAIT exactly on the active side.\<close>

theorem tcpm6_closing_refines:
  assumes "closing h s"
  shows "s = close_state h \<and> (tcpm6_can_send s \<longleftrightarrow> \<not> fin_sent h) \<and>
    (s \<in> {TCPM6_ST_CLOSED, TCPM6_ST_TIME_WAIT} \<longleftrightarrow> fin_sent h \<and> fin_acked h \<and> fin_rcvd h) \<and>
    (s = TCPM6_ST_TIME_WAIT \<longleftrightarrow> fin_acked h \<and> fin_rcvd h \<and> \<not> peer_first h)"
  using closing_inv [OF assms] by (auto simp: close_state_def tcpm6_can_send_def)

theorem tcpm6_closing_refines_witness:
  "tcpm6_on_fin_acked (tcpm6_on_fin (tcpm6_on_close TCPM6_ST_ESTABLISHED)) = TCPM6_ST_TIME_WAIT"
proof -
  have "closing \<lparr>fin_sent = True, fin_acked = True, fin_rcvd = True, peer_first = False\<rparr>
    (tcpm6_on_fin_acked (tcpm6_on_fin (tcpm6_on_close TCPM6_ST_ESTABLISHED)))"
    using our_fin_acked [OF peer_fin [OF our_fin [OF established]]] by simp
  from tcpm6_closing_refines [OF this] show ?thesis by (simp add: close_state_def)
qed

section \<open>Retransmission timer\<close>

lemma rto_backoff_step:
  assumes "unat (eff_ms r) \<le> 60000"
  shows "unat (eff_ms (tcpx5_rto_backoff r)) = min 60000 (unat (eff_ms r) * 2)"
proof -
  have "unat (eff_ms r * 2) = unat (eff_ms r) * 2"
    using assms by (simp add: unat_word_ariths)
  then show ?thesis
    by (simp add: tcpx5_rto_backoff_def Let_def TCPX5_RTO_MAX_MS_def word_less_nat_alt min_def)
qed

lemma rto_backoff_iter:
  assumes "unat (eff_ms r) \<le> 60000"
  shows "unat (eff_ms ((tcpx5_rto_backoff ^^ n) r)) = min 60000 (unat (eff_ms r) * 2 ^ n)"
proof (induction n)
  case (Suc n)
  then have "unat (eff_ms ((tcpx5_rto_backoff ^^ n) r)) \<le> 60000" by simp
  from rto_backoff_step [OF this] Suc show ?case by (simp add: min_def)
qed (use assms in simp)

lemma rto_sample_clamped:
  "rto_ms (tcpx5_rto_sample r rtt) = eff_ms (tcpx5_rto_sample r rtt)"
  "200 \<le> unat (rto_ms (tcpx5_rto_sample r rtt))" "unat (rto_ms (tcpx5_rto_sample r rtt)) \<le> 60000"
  by (simp_all add: tcpx5_rto_sample_def Let_def TCPX5_RTO_MIN_MS_def TCPX5_RTO_MAX_MS_def
      word_less_nat_alt not_less)

text \<open>C9: after any RTT sample the timeout is between 200 ms and 60 s, and \<open>n\<close> expirations in a row
  double it \<open>n\<close> times, never beyond 60 s; the 32-bit doubling never wraps.\<close>

theorem tcpx5_rto_exponential_backoff:
  "200 \<le> unat (rto_ms (tcpx5_rto_sample r rtt)) \<and> unat (rto_ms (tcpx5_rto_sample r rtt)) \<le> 60000 \<and>
   unat (eff_ms ((tcpx5_rto_backoff ^^ n) (tcpx5_rto_sample r rtt))) =
     min 60000 (unat (rto_ms (tcpx5_rto_sample r rtt)) * 2 ^ n)"
  using rto_backoff_iter [of "tcpx5_rto_sample r rtt" n] rto_sample_clamped [of r rtt] by simp

section \<open>Send budget\<close>

text \<open>C10: a chunk handed to the wire never exceeds what was asked for or the segment size, keeps the
  bytes in flight within both the congestion and the peer's window, and is empty only when there
  is nothing to send or the budget is used up.\<close>

theorem tcpx5_send_chunk_within_windows:
  fixes una nxt cwnd wnd mss want :: u32
  defines "c \<equiv> tcpx5_send_chunk una nxt cwnd wnd mss want"
  shows "c \<le> want \<and> c \<le> mss \<and>
    (c = 0 \<or> unat (nxt - una) + unat c \<le> min (unat cwnd) (unat wnd)) \<and>
    (c = 0 \<longleftrightarrow> want = 0 \<or> mss = 0 \<or> min cwnd wnd \<le> nxt - una)"
proof -
  define b where "b = min cwnd wnd"
  have b: "(if cwnd < wnd then cwnd else wnd) = b" by (auto simp: b_def min_def)
  have ub: "unat b = min (unat cwnd) (unat wnd)" by (auto simp: b_def min_def word_le_nat_alt)
  show ?thesis
  proof (cases "b \<le> nxt - una")
    case True
    then have "c = 0" by (simp add: c_def tcpx5_send_chunk_def b Let_def)
    with True show ?thesis by (simp add: b_def)
  next
    case False
    define room where "room = b - (nxt - una)"
    have room: "unat room = unat b - unat (nxt - una)" "unat (nxt - una) < unat b"
      using False by (simp_all add: room_def word_le_nat_alt unat_sub not_le)
    have c: "c = min (min want room) mss"
      using False by (auto simp: c_def tcpx5_send_chunk_def b Let_def room_def min_def not_le)
    have "unat c \<le> unat room" by (auto simp: c word_le_nat_alt [symmetric] min_def)
    then have "unat (nxt - una) + unat c \<le> unat b" using room by linarith
    moreover have "room \<noteq> 0" using room by auto
    then have "c = 0 \<longleftrightarrow> want = 0 \<or> mss = 0" by (auto simp: c min_def)
    moreover have "c \<le> want" "c \<le> mss" by (auto simp: c min_def)
    ultimately show ?thesis using False by (simp add: ub b_def [symmetric])
  qed
qed

section \<open>Inbound sequencer\<close>

text \<open>C11: the sequencer decides by the true distance of the segment from the expected byte, also
  across the 32-bit wrap: for a segment \<open>k\<close> bytes ahead (or \<open>-k\<close> behind) it accepts, stashes, drops
  or trims as the distance, the length and the window say, and the prefix to trim is the overlap.\<close>

theorem tcpx5_classify_by_distance:
  fixes expected len wnd :: u32 and k :: int
  assumes "- (2 ^ 31) < k" and "k < 2 ^ 31"
  defines "seg \<equiv> expected + word_of_int k"
  shows "tcpx5_classify expected seg len wnd =
      (if len = 0 \<or> k = 0 then TCPX5_IN_ORDER
       else if k > 0 then (if k \<le> uint wnd then TCPX5_OOO else TCPX5_OOO_FAR)
       else if uint len \<le> - k then TCPX5_DUP else TCPX5_PARTIAL_DUP) \<and>
    (k \<le> 0 \<longrightarrow> uint (tcpx5_dup_prefix expected seg) = - k)"
proof -
  have d: "seq_diff seg expected = k" using assms seq_diff_offset [of k expected] by simp
  have k0: "seg = expected \<longleftrightarrow> k = 0" using d seq_diff_eq_0 [of seg expected] by simp
  have pos: "uint (word_of_int k :: u32) = k" if "0 \<le> k"
    using that assms by (simp add: uint_word_of_int)
  have neg: "uint (word_of_int (- k) :: u32) = - k" if "k \<le> 0"
    using that assms by (simp only: uint_word_of_int) (rule mod_pos_pos_trivial, auto)
  have "expected - seg = word_of_int (- k)" by (simp add: seg_def)
  then have "uint (tcpx5_dup_prefix expected seg) = - k" if "k \<le> 0"
    using neg [OF that] by (simp only: tcpx5_dup_prefix_def)
  moreover have "tcpx5_classify expected seg len wnd =
      (if len = 0 \<or> k = 0 then TCPX5_IN_ORDER
       else if k > 0 then (if k \<le> uint wnd then TCPX5_OOO else TCPX5_OOO_FAR)
       else if uint len \<le> - k then TCPX5_DUP else TCPX5_PARTIAL_DUP)"
    using pos neg unfolding tcpx5_classify_def Let_def d k0 word_le_def by (auto simp del: of_int_minus)
  ultimately show ?thesis by blast
qed

theorem tcpx5_classify_by_distance_witness:
  "tcpx5_classify 5 (- 1) 10 1000 = TCPX5_PARTIAL_DUP"
  using tcpx5_classify_by_distance [of "-6" 5 10 1000] by simp

section \<open>Congestion window\<close>

lemma unat_add_guard:
  fixes x y :: u32
  shows "unat (x + y) = unat x + unat y \<and> x \<le> x + y \<or> x + y < x \<and> 2 ^ 32 \<le> unat x + unat y"
proof (cases "unat x + unat y < 2 ^ 32")
  case True
  then have "unat (x + y) = unat x + unat y" by (simp add: unat_word_ariths)
  then show ?thesis by (simp add: word_le_nat_alt)
next
  case False
  have "unat x < 2 ^ 32" "unat y < 2 ^ 32"
    using unsigned_less [of x, where 'a = nat] unsigned_less [of y, where 'a = nat] by simp_all
  then have "(unat x + unat y) mod 2 ^ 32 = unat x + unat y - 2 ^ 32"
    using False by (simp add: mod_if)
  then show ?thesis using False \<open>unat y < 2 ^ 32\<close>
    by (auto simp: unat_word_ariths word_less_nat_alt)
qed

text \<open>An acknowledgement never shrinks a congestion window that is within its cap, never takes it
  past the cap, grows it by at most one segment during slow start, and always makes it grow while
  it is below the cap and new bytes were acknowledged.\<close>

theorem tcpcc_ack_grow_bounds:
  fixes cwnd ssthresh mss acked cap :: u32
  defines "g \<equiv> tcpcc_ack_grow cwnd ssthresh mss acked cap"
  shows "g \<le> cap \<and> (cwnd \<le> cap \<longrightarrow> cwnd \<le> g) \<and>
    (cwnd < ssthresh \<longrightarrow> unat g \<le> unat cwnd + min (unat acked) (unat mss)) \<and>
    (cwnd < cap \<and> 0 < mss \<and> 0 < acked \<longrightarrow> cwnd < g)"
proof -
  define inc where "inc = (if cwnd < ssthresh then min acked mss
    else max 1 ((mss * mss) div (if cwnd \<noteq> 0 then cwnd else 1)))"
  have max1: "(if x = 0 then 1 else x) = max 1 x" for x :: u32
    by (auto simp: max_def word_le_nat_alt) (metis One_nat_def le_0_eq not_less_eq_eq unat_eq_zero)
  have g: "g = (if cwnd + inc < cwnd then cap else min cap (cwnd + inc))"
    unfolding g_def tcpcc_ack_grow_def Let_def inc_def max1 by (auto simp: min_def)
  have pos: "0 < unat inc" if "0 < mss" "0 < acked"
    using that by (auto simp: unat_gt_0 inc_def min_def max_def)
  have cap: "unat cap < 2 ^ 32" using unsigned_less [of cap, where 'a = nat] by simp
  have ss: "unat inc = min (unat acked) (unat mss)" if "cwnd < ssthresh"
    using that by (auto simp: inc_def min_def word_le_nat_alt)
  from unat_add_guard [of cwnd inc] show ?thesis
  proof
    assume a: "unat (cwnd + inc) = unat cwnd + unat inc \<and> cwnd \<le> cwnd + inc"
    then have "g = min cap (cwnd + inc)" by (auto simp: g not_less [symmetric])
    then have "unat g = min (unat cap) (unat cwnd + unat inc)"
      using a by (auto simp: min_def word_le_nat_alt)
    then show ?thesis using pos ss
      by (auto simp: word_le_nat_alt word_less_nat_alt)
  next
    assume "cwnd + inc < cwnd \<and> 2 ^ 32 \<le> unat cwnd + unat inc"
    then show ?thesis using cap ss by (auto simp: g)
  qed
qed

theorem tcpcc_ack_grow_bounds_witness:
  "14600 < tcpcc_ack_grow 14600 64240 1460 1460 64240"
  using tcpcc_ack_grow_bounds [of 14600 64240 1460 1460 64240] by simp

end
