(* ===== verification/TcpOptions.thy ===== *)
theory TcpOptions
  imports TcpPolicy_Props
begin

text \<open>
  TCP options of \<open>kernel/net/tcp_m6c.h\<close> and the SACK option of \<open>tcp_m6d.h\<close>: parsing and building the
  SYN options, encoding and decoding selective-acknowledgement blocks.  The parsers run over bytes
  from the network; a read past the end of the given bytes is the value \<open>None\<close>, so that memory
  safety is a theorem.  An option area has \<open>data_offset * 4 - 20 \<le> 40\<close> bytes: the index arithmetic
  is written over \<open>nat\<close> and cannot wrap.
\<close>

section \<open>SYN options\<close>

definition TCPOPT_END :: byte where "TCPOPT_END = 0"
definition TCPOPT_NOP :: byte where "TCPOPT_NOP = 1"
definition TCPOPT_MSS :: byte where "TCPOPT_MSS = 2"
definition TCPOPT_WSCALE :: byte where "TCPOPT_WSCALE = 3"
definition TCPOPT_SACK_PERM :: byte where "TCPOPT_SACK_PERM = 4"
definition TCPOPT_SACK :: byte where "TCPOPT_SACK = 5"

lemmas TCPOPT_defs = TCPOPT_END_def TCPOPT_NOP_def TCPOPT_MSS_def TCPOPT_WSCALE_def
  TCPOPT_SACK_PERM_def TCPOPT_SACK_def

record tcpm6c_opts =
  o_mss :: u16
  sack_permitted :: bool
  wscale :: byte

definition tcpm6c_opts_init :: tcpm6c_opts where
  "tcpm6c_opts_init = \<lparr>o_mss = 0, sack_permitted = False, wscale = 0xFF\<rparr>"

definition rd :: "byte list \<Rightarrow> nat \<Rightarrow> byte option" where
  "rd p i = (if i < length p then Some (p ! i) else None)"

lemma rd_Some [simp]: "i < length p \<Longrightarrow> rd p i = Some (p ! i)"
  by (simp add: rd_def)

text \<open>The body of the \<open>switch\<close>: one option of \<open>olen\<close> bytes at index \<open>i\<close>.\<close>

definition parse_opt :: "byte list \<Rightarrow> nat \<Rightarrow> byte \<Rightarrow> byte \<Rightarrow> tcpm6c_opts \<Rightarrow> tcpm6c_opts option" where
  "parse_opt p i kind olen out =
     (if kind = TCPOPT_MSS then
        (if olen = 4
         then (case (rd p (i + 2), rd p (i + 3)) of
                 (Some h, Some l) \<Rightarrow> Some (out\<lparr>o_mss := push_bit 8 (ucast h) OR ucast l\<rparr>)
               | _ \<Rightarrow> None)
         else Some out)
      else if kind = TCPOPT_SACK_PERM then
        Some (if olen = 2 then out\<lparr>sack_permitted := True\<rparr> else out)
      else if kind = TCPOPT_WSCALE then
        (if olen = 3
         then (case rd p (i + 2) of Some w \<Rightarrow> Some (out\<lparr>wscale := w\<rparr>) | None \<Rightarrow> None)
         else Some out)
      else Some out)"

function parse_opts_loop :: "byte list \<Rightarrow> nat \<Rightarrow> nat \<Rightarrow> tcpm6c_opts \<Rightarrow> (int \<times> tcpm6c_opts) option" where
  "parse_opts_loop p len i out =
     (if i < len then
        (case rd p i of
           None \<Rightarrow> None
         | Some kind \<Rightarrow>
             if kind = TCPOPT_END then Some (0, out)
             else if kind = TCPOPT_NOP then parse_opts_loop p len (i + 1) out
             else if i + 1 \<ge> len then Some (-1, out)
             else (case rd p (i + 1) of
                     None \<Rightarrow> None
                   | Some olen \<Rightarrow>
                       if olen < 2 \<or> i + unat olen > len then Some (-1, out)
                       else (case parse_opt p i kind olen out of
                               None \<Rightarrow> None
                             | Some out' \<Rightarrow> parse_opts_loop p len (i + unat olen) out')))
      else Some (0, out))"
  by pat_completeness auto
termination
  by (relation "measure (\<lambda>(p, len, i, out). len - i)") (auto simp: not_less word_le_nat_alt)

declare parse_opts_loop.simps [simp del]

definition tcpm6c_parse_opts :: "byte list \<Rightarrow> nat \<Rightarrow> (int \<times> tcpm6c_opts) option" where
  "tcpm6c_parse_opts p len = parse_opts_loop p len 0 tcpm6c_opts_init"

text \<open>Padding to a 32-bit boundary.\<close>

function pad_opts :: "byte list \<Rightarrow> byte list" where
  "pad_opts buf = (if length buf mod 4 \<noteq> 0 then pad_opts (buf @ [TCPOPT_END]) else buf)"
  by pat_completeness auto
termination
  by (relation "measure (\<lambda>b. (4 - length b mod 4) mod 4)") (auto simp: mod_Suc)

declare pad_opts.simps [simp del]

definition tcpm6c_build_syn_opts :: "u16 \<Rightarrow> bool \<Rightarrow> byte list" where
  "tcpm6c_build_syn_opts mss want_sack =
     pad_opts ([TCPOPT_MSS, 4, ucast (drop_bit 8 mss), ucast (mss AND 0xFF)] @
       (if want_sack then [TCPOPT_NOP, TCPOPT_NOP, TCPOPT_SACK_PERM, 2] else []))"

definition tcpm6c_data_offset :: "u32 \<Rightarrow> byte" where
  "tcpm6c_data_offset optlen = ucast (push_bit 4 ((20 + optlen) div 4))"

section \<open>SACK blocks\<close>

definition TCPM6D_MAX_BLOCKS :: nat where "TCPM6D_MAX_BLOCKS = 4"

record tcpm6d_block =
  b_start :: u32
  b_end :: u32

definition be32 :: "u32 \<Rightarrow> byte list" where
  "be32 w = [ucast (drop_bit 24 w), ucast (drop_bit 16 w), ucast (drop_bit 8 w), ucast w]"

definition tcpm6d_encode :: "tcpm6d_block list \<Rightarrow> byte list" where
  "tcpm6d_encode blk =
     (if blk = [] then []
      else let n = (if length blk > TCPM6D_MAX_BLOCKS then TCPM6D_MAX_BLOCKS else length blk)
           in pad_opts ([TCPOPT_NOP, TCPOPT_NOP, TCPOPT_SACK, of_nat (2 + 8 * n)] @
                concat (map (\<lambda>b. be32 (b_start b) @ be32 (b_end b)) (take n blk))))"

text \<open>Four bytes at an index, most significant first.\<close>

definition rd_be32 :: "byte list \<Rightarrow> nat \<Rightarrow> u32 option" where
  "rd_be32 p i =
     (case (rd p i, rd p (i + 1), rd p (i + 2), rd p (i + 3)) of
        (Some a, Some b, Some c, Some d) \<Rightarrow>
          Some (push_bit 24 (ucast a) OR push_bit 16 (ucast b) OR push_bit 8 (ucast c) OR ucast d)
      | _ \<Rightarrow> None)"

text \<open>The inner loop: \<open>nb\<close> blocks from index \<open>q\<close>, appended to \<open>out\<close> until it holds four.\<close>

fun decode_blocks :: "byte list \<Rightarrow> nat \<Rightarrow> nat \<Rightarrow> tcpm6d_block list \<Rightarrow> tcpm6d_block list option" where
  "decode_blocks p q 0 out = Some out"
| "decode_blocks p q (Suc nb) out =
     (if length out < TCPM6D_MAX_BLOCKS
      then (case (rd_be32 p q, rd_be32 p (q + 4)) of
              (Some s, Some e) \<Rightarrow>
                decode_blocks p (q + 8) nb
                  (if seq_diff e s \<le> 0 then out else out @ [\<lparr>b_start = s, b_end = e\<rparr>])
            | _ \<Rightarrow> None)
      else Some out)"

function decode_loop :: "byte list \<Rightarrow> nat \<Rightarrow> nat \<Rightarrow> tcpm6d_block list \<Rightarrow> tcpm6d_block list option" where
  "decode_loop p len i out =
     (if i < len then
        (case rd p i of
           None \<Rightarrow> None
         | Some kind \<Rightarrow>
             if kind = TCPOPT_END then Some out
             else if kind = TCPOPT_NOP then decode_loop p len (i + 1) out
             else if i + 1 \<ge> len then Some out
             else (case rd p (i + 1) of
                     None \<Rightarrow> None
                   | Some olen \<Rightarrow>
                       if olen < 2 \<or> i + unat olen > len then Some out
                       else (case (if kind = TCPOPT_SACK \<and> olen \<ge> 10 \<and> (unat olen - 2) mod 8 = 0
                                   then decode_blocks p (i + 2) ((unat olen - 2) div 8) out
                                   else Some out) of
                               None \<Rightarrow> None
                             | Some out' \<Rightarrow> decode_loop p len (i + unat olen) out')))
      else Some out)"
  by pat_completeness auto
termination
  by (relation "measure (\<lambda>(p, len, i, out). len - i)") (auto simp: not_less word_le_nat_alt)

declare decode_loop.simps [simp del]

definition tcpm6d_decode :: "byte list \<Rightarrow> nat \<Rightarrow> tcpm6d_block list option" where
  "tcpm6d_decode p len = decode_loop p len 0 []"

definition tcpm6d_build_blocks :: "bool \<Rightarrow> u32 \<Rightarrow> u32 \<Rightarrow> tcpm6d_block list" where
  "tcpm6d_build_blocks ooo_valid ooo_seq ooo_len =
     (if \<not> ooo_valid \<or> ooo_len = 0 then [] else [\<lparr>b_start = ooo_seq, b_end = ooo_seq + ooo_len\<rparr>])"

section \<open>Safety on hostile input\<close>

lemma parse_opt_Some:
  assumes "i + unat olen \<le> length p"
  shows "\<exists>out'. parse_opt p i kind olen out = Some out'"
  using assms by (auto simp: parse_opt_def)

lemma parse_opts_loop_Some:
  assumes "len \<le> length p"
  shows "\<exists>r out'. parse_opts_loop p len i out = Some (r, out') \<and> (r = 0 \<or> r = -1)"
  using assms
proof (induction p len i out rule: parse_opts_loop.induct)
  case (1 p len i out)
  show ?case
  proof (cases "i < len \<and> p ! i \<noteq> TCPOPT_END \<and> p ! i \<noteq> TCPOPT_NOP \<and> i + 1 < len \<and>
      \<not> (p ! (i + 1) < 2 \<or> i + unat (p ! (i + 1)) > len)")
    case True
    then obtain out' where "parse_opt p i (p ! i) (p ! (i + 1)) out = Some out'"
      using parse_opt_Some [of i "p ! (i + 1)" p "p ! i" out] 1(3) by auto
    with 1(2) True 1(3) show ?thesis by (subst parse_opts_loop.simps) auto
  next
    case False
    with 1(1) 1(3) show ?thesis by (subst parse_opts_loop.simps) auto
  qed
qed

text \<open>The blocks the decoder accepts: few, and each ending after its start.\<close>

definition sack_ok :: "tcpm6d_block list \<Rightarrow> bool" where
  "sack_ok bs \<longleftrightarrow> length bs \<le> TCPM6D_MAX_BLOCKS \<and> (\<forall>b \<in> set bs. 0 < seq_diff (b_end b) (b_start b))"

lemma rd_be32_Some: "i + 4 \<le> length p \<Longrightarrow> \<exists>w. rd_be32 p i = Some w"
  by (simp add: rd_be32_def)

lemma decode_blocks_Some:
  assumes "q + 8 * nb \<le> length p" "sack_ok out"
  shows "\<exists>out'. decode_blocks p q nb out = Some out' \<and> sack_ok out'"
  using assms
proof (induction p q nb out rule: decode_blocks.induct)
  case (2 p q nb out)
  obtain s e where "rd_be32 p q = Some s" "rd_be32 p (q + 4) = Some e"
    using rd_be32_Some [of q p] rd_be32_Some [of "q + 4" p] 2(2) by auto
  with 2 show ?case by (auto simp: sack_ok_def)
qed auto

lemma decode_loop_Some:
  assumes "len \<le> length p" "sack_ok out"
  shows "\<exists>out'. decode_loop p len i out = Some out' \<and> sack_ok out'"
  using assms
proof (induction p len i out rule: decode_loop.induct)
  case (1 p len i out)
  let ?k = "p ! i" and ?l = "p ! (i + 1)"
  show ?case
  proof (cases "i < len \<and> ?k \<noteq> TCPOPT_END \<and> ?k \<noteq> TCPOPT_NOP \<and> i + 1 < len \<and>
      \<not> (?l < 2 \<or> i + unat ?l > len)")
    case True
    let ?c = "?k = TCPOPT_SACK \<and> ?l \<ge> 10 \<and> (unat ?l - 2) mod 8 = 0"
    have "2 \<le> unat ?l" using True by (auto simp: word_less_nat_alt)
    then have "i + 2 + 8 * ((unat ?l - 2) div 8) \<le> length p" using True 1(3) by auto
    then obtain out' where "decode_blocks p (i + 2) ((unat ?l - 2) div 8) out = Some out'" "sack_ok out'"
      using decode_blocks_Some 1(4) by blast
    with 1(4) have "\<exists>out''. (if ?c then decode_blocks p (i + 2) ((unat ?l - 2) div 8) out else Some out)
        = Some out'' \<and> sack_ok out''" by (cases ?c) auto
    then obtain out'' where o: "(if ?c then decode_blocks p (i + 2) ((unat ?l - 2) div 8) out else Some out)
        = Some out''" "sack_ok out''" by blast
    have "decode_loop p len i out = decode_loop p len (i + unat ?l) out''"
      using True 1(3) o(1) by (subst decode_loop.simps) auto
    moreover have "\<exists>o3. decode_loop p len (i + unat ?l) out'' = Some o3 \<and> sack_ok o3"
      by (rule 1(2) [of ?k ?l out'']) (use True 1(3) o in auto)
    ultimately show ?thesis by simp
  next
    case False
    with 1(1) 1(3,4) show ?thesis by (subst decode_loop.simps) auto
  qed
qed

section \<open>Round trips\<close>

lemma pad_opts_aligned: "length b mod 4 = 0 \<Longrightarrow> pad_opts b = b"
  by (simp add: pad_opts.simps)

lemma ucast16_bytes:
  "push_bit 8 (ucast (ucast (drop_bit 8 m) :: byte)) OR ucast (ucast (m AND 0xFF) :: byte) = (m :: u16)"
proof (rule bit_word_eqI)
  fix n assume "n < LENGTH(16)"
  then have "n < 16" by simp
  have "bit (0xFF :: u16) n \<longleftrightarrow> n < 8"
    using \<open>n < 16\<close> by (simp add: bit_numeral_rec less_Suc_eq numeral_eq_Suc) auto
  then show "bit (push_bit 8 (ucast (ucast (drop_bit 8 m) :: byte)) OR
      ucast (ucast (m AND 0xFF) :: byte) :: u16) n = bit m n"
    using \<open>n < 16\<close> by (auto simp: bit_simps not_less)
qed

lemma ucast32_bytes:
  "push_bit 24 (ucast (ucast (drop_bit 24 w) :: byte)) OR push_bit 16 (ucast (ucast (drop_bit 16 w) :: byte)) OR
   push_bit 8 (ucast (ucast (drop_bit 8 w) :: byte)) OR ucast (ucast w :: byte) = (w :: u32)"
proof (rule bit_word_eqI)
  fix n assume "n < LENGTH(32)"
  then consider "n < 8" | "8 \<le> n" "n < 16" | "16 \<le> n" "n < 24" | "24 \<le> n" "n < 32" by fastforce
  then show "bit (push_bit 24 (ucast (ucast (drop_bit 24 w) :: byte)) OR
      push_bit 16 (ucast (ucast (drop_bit 16 w) :: byte)) OR
      push_bit 8 (ucast (ucast (drop_bit 8 w) :: byte)) OR ucast (ucast w :: byte) :: u32) n = bit w n"
    by cases (auto simp: bit_simps)
qed

lemma rd_be32_be32: "rd_be32 (pre @ be32 w @ suf) (length pre) = Some w"
  by (simp add: rd_be32_def be32_def rd_def nth_append ucast32_bytes)

lemma length_be32 [simp]: "length (be32 w) = 4"
  by (simp add: be32_def)

definition block_bytes :: "tcpm6d_block list \<Rightarrow> byte list" where
  "block_bytes bs = concat (map (\<lambda>b. be32 (b_start b) @ be32 (b_end b)) bs)"

lemma length_block_bytes [simp]: "length (block_bytes bs) = 8 * length bs"
  by (induction bs) (auto simp: block_bytes_def)

lemma decode_blocks_encoded:
  assumes "length out + length bs \<le> TCPM6D_MAX_BLOCKS"
  shows "decode_blocks (pre @ block_bytes bs) (length pre) (length bs) out =
    Some (out @ filter (\<lambda>b. 0 < seq_diff (b_end b) (b_start b)) bs)"
  using assms
proof (induction bs arbitrary: pre out)
  case (Cons b bs)
  have "rd_be32 (pre @ block_bytes (b # bs)) (length pre) = Some (b_start b)"
    using rd_be32_be32 [of pre "b_start b" "be32 (b_end b) @ block_bytes bs"]
    by (simp add: block_bytes_def)
  moreover have "rd_be32 (pre @ block_bytes (b # bs)) (length pre + 4) = Some (b_end b)"
    using rd_be32_be32 [of "pre @ be32 (b_start b)" "b_end b" "block_bytes bs"]
    by (simp add: block_bytes_def)
  moreover have "decode_blocks (pre @ block_bytes (b # bs)) (length pre + 8) (length bs) out' =
      Some (out' @ filter (\<lambda>b. 0 < seq_diff (b_end b) (b_start b)) bs)"
    if "length out' \<le> Suc (length out)" for out'
    using Cons.IH [of out' "pre @ be32 (b_start b) @ be32 (b_end b)"] Cons.prems that
    by (simp add: block_bytes_def)
  ultimately show ?case using Cons.prems by (simp add: not_less)
qed simp

lemma decode_loop_NOP:
  "i < len \<Longrightarrow> rd p i = Some TCPOPT_NOP \<Longrightarrow> decode_loop p len i out = decode_loop p len (i + 1) out"
  by (subst decode_loop.simps) (simp add: TCPOPT_defs)

lemma decode_loop_SACK:
  assumes "i + 2 + 8 * n \<le> len" "0 < n" "n \<le> 4"
    "rd p i = Some TCPOPT_SACK" "rd p (i + 1) = Some (of_nat (2 + 8 * n))"
    "decode_blocks p (i + 2) n out = Some out'"
  shows "decode_loop p len i out = decode_loop p len (i + 2 + 8 * n) out'"
proof -
  let ?l = "of_nat (2 + 8 * n) :: byte"
  have u: "unat ?l = 2 + 8 * n" unfolding unat_of_nat using assms(3) by simp
  have "\<not> ?l < 2" "10 \<le> ?l"
    using assms(2) u by (simp_all only: word_less_nat_alt word_le_nat_alt) simp_all
  with assms u show ?thesis
    by (subst decode_loop.simps) (simp add: TCPOPT_defs del: of_nat_add of_nat_mult)
qed

section \<open>Properties\<close>

text \<open>C12: on any bytes whatsoever both option parsers terminate without reading past the option area;
  the SYN parser answers 0 or -1, and the SACK decoder yields at most four blocks, each with its
  end after its start.\<close>

theorem tcp_option_parsers_safe:
  assumes "len \<le> length p"
  shows "(\<exists>r out. tcpm6c_parse_opts p len = Some (r, out) \<and> (r = 0 \<or> r = -1)) \<and>
    (\<exists>bs. tcpm6d_decode p len = Some bs \<and> length bs \<le> 4 \<and>
       (\<forall>b \<in> set bs. 0 < seq_diff (b_end b) (b_start b)))"
proof -
  have "sack_ok []" by (simp add: sack_ok_def)
  from decode_loop_Some [OF assms this, of 0] parse_opts_loop_Some [OF assms, of 0 tcpm6c_opts_init]
  show ?thesis by (auto simp: tcpm6c_parse_opts_def tcpm6d_decode_def sack_ok_def TCPM6D_MAX_BLOCKS_def)
qed

theorem tcp_option_parsers_safe_witness:
  "\<exists>r out. tcpm6c_parse_opts [2, 0, 5, 255] 4 = Some (r, out) \<and> (r = 0 \<or> r = -1)"
  using tcp_option_parsers_safe [of 4 "[2, 0, 5, 255]"] by simp

text \<open>What the SYN option builder writes, the parser reads back: the maximum segment size and the
  SACK permission, with no window scale, and the block is a whole number of 32-bit words.\<close>

theorem tcpm6c_syn_opts_roundtrip:
  "tcpm6c_parse_opts (tcpm6c_build_syn_opts mss sack) (length (tcpm6c_build_syn_opts mss sack)) =
     Some (0, \<lparr>o_mss = mss, sack_permitted = sack, wscale = 0xFF\<rparr>) \<and>
   length (tcpm6c_build_syn_opts mss sack) mod 4 = 0"
proof -
  note loop = parse_opts_loop.simps [of "_ # _"] parse_opts_loop.simps [of _ 8 8] parse_opts_loop.simps [of _ 4 4]
  show ?thesis
    by (cases sack) (simp_all add: tcpm6c_build_syn_opts_def pad_opts_aligned tcpm6c_parse_opts_def
        loop TCPOPT_defs parse_opt_def rd_def ucast16_bytes tcpm6c_opts_init_def)
qed

text \<open>C13: the SACK option is decoded to the blocks that were encoded: the first four of them, without
  those that do not end after their start; the encoding fits the 36 bytes set aside for it.\<close>

theorem tcpm6d_sack_roundtrip:
  "tcpm6d_decode (tcpm6d_encode bs) (length (tcpm6d_encode bs)) =
     Some (filter (\<lambda>b. 0 < seq_diff (b_end b) (b_start b)) (take 4 bs)) \<and>
   length (tcpm6d_encode bs) \<le> 36 \<and> length (tcpm6d_encode bs) mod 4 = 0"
proof (cases "bs = []")
  case True
  then show ?thesis by (simp add: tcpm6d_encode_def tcpm6d_decode_def decode_loop.simps)
next
  case False
  define n where "n = min 4 (length bs)"
  have n: "0 < n" "n \<le> 4" "length (take n bs) = n" using False by (auto simp: n_def)
  have tk: "take n bs = take 4 bs" by (simp add: n_def min_def)
  let ?pre = "[TCPOPT_NOP, TCPOPT_NOP, TCPOPT_SACK, of_nat (2 + 8 * n)]"
  have enc: "tcpm6d_encode bs = ?pre @ block_bytes (take n bs)"
    using False n by (simp add: tcpm6d_encode_def TCPM6D_MAX_BLOCKS_def n_def block_bytes_def [symmetric]
        pad_opts_aligned Let_def min_def)
  let ?e = "?pre @ block_bytes (take n bs)"
  have len: "length ?e = 4 + 8 * n" using n by simp
  have blk: "decode_blocks ?e 4 n [] = Some (filter (\<lambda>b. 0 < seq_diff (b_end b) (b_start b)) (take n bs))"
    using decode_blocks_encoded [of "[]" "take n bs" ?pre] n by (simp add: TCPM6D_MAX_BLOCKS_def eval_nat_numeral)
  have rds: "rd ?e 0 = Some TCPOPT_NOP" "rd ?e 1 = Some TCPOPT_NOP" "rd ?e 2 = Some TCPOPT_SACK"
    "rd ?e 3 = Some (of_nat (2 + 8 * n))" by (simp_all add: rd_def)
  have "decode_loop ?e (4 + 8 * n) 0 [] = decode_loop ?e (4 + 8 * n) 2 []"
    using decode_loop_NOP [OF _ rds(1)] decode_loop_NOP [OF _ rds(2)] by (simp add: numeral_2_eq_2)
  also have "\<dots> = decode_loop ?e (4 + 8 * n) (2 + 2 + 8 * n)
      (filter (\<lambda>b. 0 < seq_diff (b_end b) (b_start b)) (take n bs))"
    by (rule decode_loop_SACK) (use n rds blk in simp_all)
  also have "\<dots> = Some (filter (\<lambda>b. 0 < seq_diff (b_end b) (b_start b)) (take 4 bs))"
    by (simp add: decode_loop.simps tk)
  finally show ?thesis using n unfolding tcpm6d_decode_def enc len by auto
qed

end
