(* ===== verification/Ring.thy ===== *)
theory Ring
  imports Main
begin

text \<open>
  Bounded rings, the data structure behind the TCP retransmit queue and the listen backlog: a
  fixed array, the index of the oldest element and a count.  \<open>ring_list\<close> reads the queue off the
  array; the locale \<open>fifo\<close> is the contract a client of such a queue relies on.
\<close>

definition ring_list :: "'a list \<Rightarrow> nat \<Rightarrow> nat \<Rightarrow> 'a list" where
  "ring_list buf head count = map (\<lambda>i. buf ! ((head + i) mod length buf)) [0..<count]"

lemma length_ring_list [simp]: "length (ring_list buf head count) = count"
  by (simp add: ring_list_def)

lemma nth_ring_list [simp]:
  "i < count \<Longrightarrow> ring_list buf head count ! i = buf ! ((head + i) mod length buf)"
  by (simp add: ring_list_def)

lemma ring_list_0 [simp]: "ring_list buf head 0 = []"
  by (simp add: ring_list_def)

lemma ring_list_Nil_iff [simp]: "ring_list buf head count = [] \<longleftrightarrow> count = 0"
  by (simp add: ring_list_def)

lemma ring_slots_distinct:
  fixes head :: nat
  assumes "i < n" "j < n" "(head + i) mod n = (head + j) mod n"
  shows "i = j"
proof -
  have "i mod n = j mod n" using assms(3) by (simp add: nat_mod_eq_iff)
  then show ?thesis using assms(1,2) by simp
qed

lemma ring_list_push:
  assumes "count < length buf"
  shows "ring_list (buf[(head + count) mod length buf := x]) head (Suc count) =
    ring_list buf head count @ [x]"
proof (rule nth_equalityI)
  fix i assume "i < length (ring_list (buf[(head + count) mod length buf := x]) head (Suc count))"
  then have i: "i < Suc count" by simp
  show "ring_list (buf[(head + count) mod length buf := x]) head (Suc count) ! i =
      (ring_list buf head count @ [x]) ! i"
  proof (cases "i = count")
    case True
    have "(head + count) mod length buf < length buf" using assms by (cases buf) auto
    with True show ?thesis by (simp add: nth_append)
  next
    case False
    with i assms have "(head + i) mod length buf \<noteq> (head + count) mod length buf"
      using ring_slots_distinct [of i "length buf" count head] by auto
    with False i show ?thesis by (simp add: nth_append)
  qed
qed simp

lemma ring_list_tl:
  assumes "0 < count"
  shows "tl (ring_list buf head count) = ring_list buf ((head + 1) mod length buf) (count - 1)"
  using assms by (intro nth_equalityI) (auto simp: nth_tl mod_simps)

lemma ring_list_hd: "0 < count \<Longrightarrow> hd (ring_list buf head count) = buf ! (head mod length buf)"
  by (simp add: hd_conv_nth)

text \<open>Writing the slot of the \<open>k\<close>-th element.\<close>

lemma ring_list_update:
  assumes "k < count" "count \<le> length buf"
  shows "ring_list (buf[(head + k) mod length buf := x]) head count = (ring_list buf head count)[k := x]"
proof (rule nth_equalityI)
  fix i assume "i < length (ring_list (buf[(head + k) mod length buf := x]) head count)"
  then have i: "i < count" by simp
  have "(head + k) mod length buf < length buf" using assms by (cases buf) auto
  moreover have "(head + i) mod length buf = (head + k) mod length buf \<longleftrightarrow> i = k"
    using i assms ring_slots_distinct [of i "length buf" k head] by auto
  ultimately show "ring_list (buf[(head + k) mod length buf := x]) head count ! i =
      (ring_list buf head count)[k := x] ! i"
    using i by (cases "i = k") auto
qed simp

text \<open>A slot that holds no queue element may be written freely.\<close>

lemma ring_list_dead_slot:
  assumes "count \<le> k" "k < length buf"
  shows "ring_list (buf[(head + k) mod length buf := x]) head count = ring_list buf head count"
proof (rule nth_equalityI)
  fix i assume "i < length (ring_list (buf[(head + k) mod length buf := x]) head count)"
  then have i: "i < count" by simp
  with assms have "(head + i) mod length buf \<noteq> (head + k) mod length buf"
    using ring_slots_distinct [of i "length buf" k head] by auto
  with i show "ring_list (buf[(head + k) mod length buf := x]) head count ! i =
      ring_list buf head count ! i" by simp
qed simp

section \<open>The contract of a bounded FIFO\<close>

locale fifo =
  fixes q_inv :: "'q \<Rightarrow> bool"
    and contents :: "'q \<Rightarrow> 'a list"
    and room :: "'q \<Rightarrow> nat"
    and item :: "'x \<Rightarrow> 'a"
    and enq :: "'x \<Rightarrow> 'q \<Rightarrow> 'q"
    and deq :: "'q \<Rightarrow> 'q"
  assumes enq_inv: "q_inv q \<Longrightarrow> length (contents q) < room q \<Longrightarrow> q_inv (enq x q)"
    and contents_enq: "q_inv q \<Longrightarrow> length (contents q) < room q \<Longrightarrow>
      contents (enq x q) = contents q @ [item x]"
    and room_enq: "q_inv q \<Longrightarrow> length (contents q) < room q \<Longrightarrow> room (enq x q) = room q"
    and deq_inv: "q_inv q \<Longrightarrow> contents q \<noteq> [] \<Longrightarrow> q_inv (deq q)"
    and contents_deq: "q_inv q \<Longrightarrow> contents q \<noteq> [] \<Longrightarrow> contents (deq q) = tl (contents q)"
    and room_deq: "q_inv q \<Longrightarrow> contents q \<noteq> [] \<Longrightarrow> room (deq q) = room q"
begin

lemma enq_all:
  assumes "q_inv q" "length (contents q) + length xs \<le> room q"
  shows "q_inv (fold enq xs q) \<and> contents (fold enq xs q) = contents q @ map item xs \<and>
    room (fold enq xs q) = room q"
  using assms
proof (induction xs arbitrary: q)
  case (Cons x xs)
  then have "length (contents q) < room q" by simp
  note facts = enq_inv [OF Cons.prems(1) this, of x] contents_enq [OF Cons.prems(1) this, of x]
    room_enq [OF Cons.prems(1) this, of x]
  from Cons.IH [of "enq x q"] facts Cons.prems show ?case by simp
qed simp

lemma deq_n:
  assumes "q_inv q" "n \<le> length (contents q)"
  shows "q_inv ((deq ^^ n) q) \<and> contents ((deq ^^ n) q) = drop n (contents q) \<and>
    room ((deq ^^ n) q) = room q"
  using assms(2)
proof (induction n)
  case (Suc n)
  then have IH: "q_inv ((deq ^^ n) q)" "contents ((deq ^^ n) q) = drop n (contents q)"
    "room ((deq ^^ n) q) = room q" by auto
  have ne: "contents ((deq ^^ n) q) \<noteq> []" using IH(2) Suc.prems by simp
  from deq_inv [OF IH(1) ne] contents_deq [OF IH(1) ne] room_deq [OF IH(1) ne] IH
  show ?case by (simp add: tl_drop drop_Suc)
qed (use assms(1) in simp)

text \<open>First in, first out: the element enqueued last comes out after exactly those before it.\<close>

lemma fifo_order:
  assumes "q_inv q" "length (contents q) + length xs \<le> room q" "n < length xs"
  shows "hd (contents ((deq ^^ (length (contents q) + n)) (fold enq xs q))) = item (xs ! n)"
proof -
  note e = enq_all [OF assms(1,2)]
  have "length (contents q) + n \<le> length (contents (fold enq xs q))" using e assms(3) by simp
  from deq_n [OF _ this] e have "contents ((deq ^^ (length (contents q) + n)) (fold enq xs q)) =
      drop n (map item xs)" by simp
  then show ?thesis using assms(3) by (simp add: hd_drop_conv_nth)
qed

end

end
