(* ===== verification/TcpQueue.thy ===== *)
theory TcpQueue
  imports TcpOptions Ring
begin

text \<open>
  The retransmit queue of \<open>kernel/net/tcp_m6c.h\<close>, SACK bookkeeping on it (\<open>tcp_m6d.h\<close>), and the
  listen backlog, bind rule and keepalive of \<open>tcp_m6e.h\<close>.  Both queues are rings of eight slots;
  ring indices stay below 16, so they are \<open>nat\<close>.  A returned slot pointer is the slot's index.
\<close>

section \<open>Retransmit queue\<close>

definition TCPM6C_RETXQ_DEPTH :: nat where "TCPM6C_RETXQ_DEPTH = 8"

record tcpm6c_seg =
  s_seq :: u32
  s_len :: u32
  s_flags :: byte
  s_in_use :: bool
  s_sacked :: bool
  s_first_tick :: u32

record tcpm6c_retxq =
  rq_seg :: "tcpm6c_seg list"
  rq_head :: nat
  rq_count :: nat

definition tcpm6c_retxq_init :: "tcpm6c_retxq \<Rightarrow> tcpm6c_retxq" where
  "tcpm6c_retxq_init q =
     q\<lparr>rq_seg := map (\<lambda>s. s\<lparr>s_in_use := False, s_sacked := False\<rparr>) (rq_seg q),
       rq_head := 0, rq_count := 0\<rparr>"

definition tcpm6c_retxq_full :: "tcpm6c_retxq \<Rightarrow> bool" where
  "tcpm6c_retxq_full q \<longleftrightarrow> rq_count q \<ge> TCPM6C_RETXQ_DEPTH"

definition tcpm6c_retxq_push ::
  "tcpm6c_retxq \<Rightarrow> u32 \<Rightarrow> u32 \<Rightarrow> byte \<Rightarrow> u32 \<Rightarrow> int \<times> tcpm6c_retxq" where
  "tcpm6c_retxq_push q seq len flags tick =
     (if tcpm6c_retxq_full q then (-1, q)
      else let idx = (rq_head q + rq_count q) mod TCPM6C_RETXQ_DEPTH in
        (int idx,
         q\<lparr>rq_seg := (rq_seg q)[idx := \<lparr>s_seq = seq, s_len = len, s_flags = flags,
             s_in_use = True, s_sacked = False, s_first_tick = tick\<rparr>],
           rq_count := rq_count q + 1\<rparr>))"

text \<open>Retiring the oldest segment, the body of the loop of \<open>tcpm6c_retxq_ack\<close>.\<close>

definition retxq_drop_oldest :: "tcpm6c_retxq \<Rightarrow> tcpm6c_retxq" where
  "retxq_drop_oldest q =
     q\<lparr>rq_seg := (rq_seg q)[rq_head q := (rq_seg q ! rq_head q)\<lparr>s_in_use := False, s_sacked := False\<rparr>],
       rq_head := (rq_head q + 1) mod TCPM6C_RETXQ_DEPTH,
       rq_count := rq_count q - 1\<rparr>"

function retxq_ack_loop :: "tcpm6c_retxq \<Rightarrow> u32 \<Rightarrow> u32 \<Rightarrow> u32 \<times> tcpm6c_retxq" where
  "retxq_ack_loop q ack retired =
     (if rq_count q > 0 then
        (let s = rq_seg q ! rq_head q in
         if seq_diff ack (s_seq s + s_len s) < 0 then (retired, q)
         else retxq_ack_loop (retxq_drop_oldest q) ack (retired + 1))
      else (retired, q))"
  by pat_completeness auto
termination
  by (relation "measure (\<lambda>(q, ack, retired). rq_count q)") (auto simp: retxq_drop_oldest_def)

declare retxq_ack_loop.simps [simp del]

definition tcpm6c_retxq_ack :: "tcpm6c_retxq \<Rightarrow> u32 \<Rightarrow> u32 \<times> tcpm6c_retxq" where
  "tcpm6c_retxq_ack q ack = retxq_ack_loop q ack 0"

definition tcpm6c_retxq_oldest :: "tcpm6c_retxq \<Rightarrow> nat option" where
  "tcpm6c_retxq_oldest q = (if rq_count q = 0 then None else Some (rq_head q))"

definition tcpm6c_retxq_at :: "tcpm6c_retxq \<Rightarrow> nat \<Rightarrow> nat option" where
  "tcpm6c_retxq_at q i =
     (if i \<ge> rq_count q then None else Some ((rq_head q + i) mod TCPM6C_RETXQ_DEPTH))"

definition tcpm6c_retxq_bytes :: "tcpm6c_retxq \<Rightarrow> u32" where
  "tcpm6c_retxq_bytes q =
     fold (\<lambda>i n. n + s_len (rq_seg q ! ((rq_head q + i) mod TCPM6C_RETXQ_DEPTH))) [0..<rq_count q] 0"

section \<open>SACK on the sender side\<close>

definition covers :: "tcpm6d_block \<Rightarrow> tcpm6c_seg \<Rightarrow> bool" where
  "covers b s \<longleftrightarrow> seq_diff (s_seq s) (b_start b) \<ge> 0 \<and> seq_diff (b_end b) (s_seq s + s_len s) \<ge> 0"

definition tcpm6d_mark :: "tcpm6c_retxq \<Rightarrow> tcpm6d_block list \<Rightarrow> u32 \<times> tcpm6c_retxq" where
  "tcpm6d_mark q blk =
     fold (\<lambda>i (marked, q).
        case tcpm6c_retxq_at q i of
          None \<Rightarrow> (marked, q)
        | Some idx \<Rightarrow>
            let s = rq_seg q ! idx in
            if s_sacked s then (marked, q)
            else if \<exists>b \<in> set blk. covers b s
            then (marked + 1, q\<lparr>rq_seg := (rq_seg q)[idx := s\<lparr>s_sacked := True\<rparr>]\<rparr>)
            else (marked, q)) [0..<rq_count q] (0, q)"

definition tcpm6d_next_hole :: "tcpm6c_retxq \<Rightarrow> nat option" where
  "tcpm6d_next_hole q =
     first_some (\<lambda>i. case tcpm6c_retxq_at q i of
                       Some idx \<Rightarrow> if \<not> s_sacked (rq_seg q ! idx) then Some idx else None
                     | None \<Rightarrow> None) [0..<rq_count q]"

definition tcpm6d_sacked_bytes :: "tcpm6c_retxq \<Rightarrow> u32" where
  "tcpm6d_sacked_bytes q =
     fold (\<lambda>i n. let s = rq_seg q ! ((rq_head q + i) mod TCPM6C_RETXQ_DEPTH)
                 in if s_sacked s then n + s_len s else n) [0..<rq_count q] 0"

section \<open>Listen backlog\<close>

definition TCPM6E_BACKLOG_MAX :: nat where "TCPM6E_BACKLOG_MAX = 8"

record tcpm6e_pending =
  peer_ip :: u32
  peer_port :: u16
  peer_seq :: u32
  p_in_use :: bool

record tcpm6e_backlog =
  bl_q :: "tcpm6e_pending list"
  bl_head :: nat
  bl_count :: nat
  bl_limit :: nat
  bl_dropped :: u32

definition tcpm6e_backlog_init :: "tcpm6e_backlog \<Rightarrow> nat \<Rightarrow> tcpm6e_backlog" where
  "tcpm6e_backlog_init b limit =
     (let limit = (if limit = 0 then 1 else limit)
      in b\<lparr>bl_q := map (\<lambda>p. p\<lparr>p_in_use := False\<rparr>) (bl_q b), bl_head := 0, bl_count := 0,
           bl_dropped := 0,
           bl_limit := (if limit > TCPM6E_BACKLOG_MAX then TCPM6E_BACKLOG_MAX else limit)\<rparr>)"

definition tcpm6e_backlog_full :: "tcpm6e_backlog \<Rightarrow> bool" where
  "tcpm6e_backlog_full b \<longleftrightarrow> bl_count b \<ge> bl_limit b"

definition tcpm6e_backlog_push :: "tcpm6e_backlog \<Rightarrow> u32 \<Rightarrow> u16 \<Rightarrow> u32 \<Rightarrow> int \<times> tcpm6e_backlog" where
  "tcpm6e_backlog_push b ip port seq =
     (if tcpm6e_backlog_full b then (-1, b\<lparr>bl_dropped := bl_dropped b + 1\<rparr>)
      else let idx = (bl_head b + bl_count b) mod TCPM6E_BACKLOG_MAX in
        (0, b\<lparr>bl_q := (bl_q b)[idx := \<lparr>peer_ip = ip, peer_port = port, peer_seq = seq,
                p_in_use = True\<rparr>],
              bl_count := bl_count b + 1\<rparr>))"

definition tcpm6e_backlog_pop :: "tcpm6e_backlog \<Rightarrow> nat option \<times> tcpm6e_backlog" where
  "tcpm6e_backlog_pop b =
     (if bl_count b = 0 then (None, b)
      else (Some (bl_head b),
            b\<lparr>bl_head := (bl_head b + 1) mod TCPM6E_BACKLOG_MAX,
              bl_count := bl_count b - 1,
              bl_q := (bl_q b)[bl_head b := (bl_q b ! bl_head b)\<lparr>p_in_use := False\<rparr>]\<rparr>))"

definition tcpm6e_backlog_has :: "tcpm6e_backlog \<Rightarrow> u32 \<Rightarrow> u16 \<Rightarrow> bool" where
  "tcpm6e_backlog_has b ip port \<longleftrightarrow>
     (\<exists>i \<in> set [0..<bl_count b].
        let p = bl_q b ! ((bl_head b + i) mod TCPM6E_BACKLOG_MAX)
        in peer_ip p = ip \<and> peer_port p = port)"

section \<open>Bind rule and keepalive\<close>

datatype tcpm6e_port_state =
  TCPM6E_ST_FREE | TCPM6E_ST_LISTENING | TCPM6E_ST_TIME_WAIT | TCPM6E_ST_ACTIVE

datatype tcpm6e_bind = TCPM6E_BIND_OK | TCPM6E_BIND_IN_USE

definition tcpm6e_can_bind :: "tcpm6e_port_state \<Rightarrow> bool \<Rightarrow> tcpm6e_bind" where
  "tcpm6e_can_bind existing_state reuseaddr =
     (case existing_state of
        TCPM6E_ST_FREE \<Rightarrow> TCPM6E_BIND_OK
      | TCPM6E_ST_TIME_WAIT \<Rightarrow> if reuseaddr then TCPM6E_BIND_OK else TCPM6E_BIND_IN_USE
      | _ \<Rightarrow> TCPM6E_BIND_IN_USE)"

definition TCPM6E_KA_IDLE_MS :: u32 where "TCPM6E_KA_IDLE_MS = 7200000"
definition TCPM6E_KA_INTVL_MS :: u32 where "TCPM6E_KA_INTVL_MS = 75000"
definition TCPM6E_KA_COUNT :: u32 where "TCPM6E_KA_COUNT = 9"

record tcpm6e_ka =
  ka_enabled :: bool
  ka_idle_ms :: u32
  ka_intvl_ms :: u32
  ka_count :: u32
  ka_probes_sent :: u32
  ka_last_activity :: u32
  ka_last_probe :: u32

definition tcpm6e_ka_init :: "u32 \<Rightarrow> tcpm6e_ka" where
  "tcpm6e_ka_init now = \<lparr>ka_enabled = False, ka_idle_ms = TCPM6E_KA_IDLE_MS,
     ka_intvl_ms = TCPM6E_KA_INTVL_MS, ka_count = TCPM6E_KA_COUNT, ka_probes_sent = 0,
     ka_last_activity = now, ka_last_probe = 0\<rparr>"

definition tcpm6e_ka_activity :: "tcpm6e_ka \<Rightarrow> u32 \<Rightarrow> tcpm6e_ka" where
  "tcpm6e_ka_activity k now = k\<lparr>ka_last_activity := now, ka_probes_sent := 0\<rparr>"

datatype tcpm6e_ka_action = TCPM6E_KA_IDLE_STILL | TCPM6E_KA_SEND_PROBE | TCPM6E_KA_DEAD

definition tcpm6e_ka_poll :: "tcpm6e_ka \<Rightarrow> u32 \<Rightarrow> u32 \<Rightarrow> tcpm6e_ka_action" where
  "tcpm6e_ka_poll k now ms_per_tick =
     (if \<not> ka_enabled k then TCPM6E_KA_IDLE_STILL
      else if ka_probes_sent k = 0
      then (if (now - ka_last_activity k) * ms_per_tick < ka_idle_ms k
            then TCPM6E_KA_IDLE_STILL else TCPM6E_KA_SEND_PROBE)
      else if ka_probes_sent k \<ge> ka_count k then TCPM6E_KA_DEAD
      else if (now - ka_last_probe k) * ms_per_tick < ka_intvl_ms k then TCPM6E_KA_IDLE_STILL
      else TCPM6E_KA_SEND_PROBE)"

definition tcpm6e_ka_probe_sent :: "tcpm6e_ka \<Rightarrow> u32 \<Rightarrow> tcpm6e_ka" where
  "tcpm6e_ka_probe_sent k now = k\<lparr>ka_probes_sent := ka_probes_sent k + 1, ka_last_probe := now\<rparr>"

section \<open>The queues as lists\<close>

definition retxq_inv :: "tcpm6c_retxq \<Rightarrow> bool" where
  "retxq_inv q \<longleftrightarrow> length (rq_seg q) = 8 \<and> rq_head q < 8 \<and> rq_count q \<le> 8"

definition retxq_list :: "tcpm6c_retxq \<Rightarrow> tcpm6c_seg list" where
  "retxq_list q = ring_list (rq_seg q) (rq_head q) (rq_count q)"

definition new_seg :: "u32 \<times> u32 \<times> byte \<times> u32 \<Rightarrow> tcpm6c_seg" where
  "new_seg = (\<lambda>(seq, len, flags, tick). \<lparr>s_seq = seq, s_len = len, s_flags = flags, s_in_use = True,
     s_sacked = False, s_first_tick = tick\<rparr>)"

lemma retxq_list_length [simp]: "length (retxq_list q) = rq_count q"
  by (simp add: retxq_list_def)

lemma retxq_drop_oldest_list:
  assumes "retxq_inv q" "0 < rq_count q"
  shows "retxq_inv (retxq_drop_oldest q)" "retxq_list (retxq_drop_oldest q) = tl (retxq_list q)"
proof -
  let ?s = "(rq_seg q ! rq_head q)\<lparr>s_in_use := False, s_sacked := False\<rparr>"
  have l: "length (rq_seg q) = 8" "rq_head q < 8" "rq_count q \<le> 8" using assms by (auto simp: retxq_inv_def)
  then show "retxq_inv (retxq_drop_oldest q)"
    by (simp add: retxq_inv_def retxq_drop_oldest_def TCPM6C_RETXQ_DEPTH_def)
  have "(((rq_head q + 1) mod 8) + 7) mod 8 = rq_head q" using l by (simp add: mod_simps)
  then have "ring_list ((rq_seg q)[rq_head q := ?s]) ((rq_head q + 1) mod 8) (rq_count q - 1) =
      ring_list (rq_seg q) ((rq_head q + 1) mod 8) (rq_count q - 1)"
    using ring_list_dead_slot [of "rq_count q - 1" 7 "rq_seg q" "(rq_head q + 1) mod 8" ?s] l by simp
  then show "retxq_list (retxq_drop_oldest q) = tl (retxq_list q)"
    using l assms(2) ring_list_tl [of "rq_count q" "rq_seg q" "rq_head q"]
    by (simp add: retxq_list_def retxq_drop_oldest_def TCPM6C_RETXQ_DEPTH_def)
qed

lemma retxq_push_list:
  assumes "retxq_inv q" "rq_count q < 8"
  shows "retxq_inv (snd (tcpm6c_retxq_push q seq len flags tick))"
    "retxq_list (snd (tcpm6c_retxq_push q seq len flags tick)) =
      retxq_list q @ [new_seg (seq, len, flags, tick)]"
    "fst (tcpm6c_retxq_push q seq len flags tick) = int ((rq_head q + rq_count q) mod 8)"
  using assms ring_list_push [of "rq_count q" "rq_seg q" "rq_head q"]
  by (auto simp: retxq_inv_def retxq_list_def tcpm6c_retxq_push_def tcpm6c_retxq_full_def new_seg_def
      TCPM6C_RETXQ_DEPTH_def Let_def)

interpretation retxq: fifo retxq_inv retxq_list "\<lambda>_. 8" new_seg
  "\<lambda>(seq, len, flags, tick) q. snd (tcpm6c_retxq_push q seq len flags tick)" retxq_drop_oldest
  by unfold_locales
    (auto simp: retxq_push_list retxq_drop_oldest_list retxq_list_def [symmetric]
      simp flip: length_greater_0_conv)

lemma retxq_at_list:
  assumes "retxq_inv q"
  shows "tcpm6c_retxq_at q i =
    (if i < rq_count q then Some ((rq_head q + i) mod 8) else None)"
    and "i < rq_count q \<Longrightarrow> rq_seg q ! ((rq_head q + i) mod 8) = retxq_list q ! i"
  using assms by (auto simp: tcpm6c_retxq_at_def TCPM6C_RETXQ_DEPTH_def retxq_list_def retxq_inv_def)

section \<open>Acknowledgement\<close>

text \<open>A segment is retired when the acknowledgement reaches its end.\<close>

definition seg_acked :: "u32 \<Rightarrow> tcpm6c_seg \<Rightarrow> bool" where
  "seg_acked ack s \<longleftrightarrow> seq_diff ack (s_seq s + s_len s) \<ge> 0"

lemma retxq_ack_loop_list:
  assumes "retxq_inv q"
  shows "retxq_inv (snd (retxq_ack_loop q ack r)) \<and>
    retxq_list (snd (retxq_ack_loop q ack r)) = dropWhile (seg_acked ack) (retxq_list q) \<and>
    fst (retxq_ack_loop q ack r) = r + of_nat (length (takeWhile (seg_acked ack) (retxq_list q)))"
  using assms
proof (induction q ack r rule: retxq_ack_loop.induct)
  case (1 q ack r)
  note step = retxq_ack_loop.simps [of q ack r]
  show ?case
  proof (cases "rq_count q = 0")
    case True
    then have "retxq_list q = []" by (simp add: retxq_list_def)
    with True 1(2) show ?thesis by (simp add: step)
  next
    case False
    let ?s = "rq_seg q ! rq_head q"
    obtain ss where c: "retxq_list q = ?s # ss"
      using False 1(2) ring_list_hd [of "rq_count q" "rq_seg q" "rq_head q"]
      by (metis bot_nat_0.not_eq_extremum list.collapse mod_less retxq_inv_def retxq_list_def ring_list_Nil_iff)
    have d: "retxq_inv (retxq_drop_oldest q)" "retxq_list (retxq_drop_oldest q) = ss"
      using retxq_drop_oldest_list [OF 1(2)] False by (auto simp: c)
    show ?thesis
    proof (cases "seg_acked ack ?s")
      case True
      have "retxq_ack_loop q ack r = retxq_ack_loop (retxq_drop_oldest q) ack (r + 1)"
        using True False by (simp add: step seg_acked_def Let_def)
      with 1(1) [OF _ refl _ d(1)] True False show ?thesis
        by (simp add: c d(2)) (simp add: seg_acked_def algebra_simps)
    next
      case f: False
      then have "retxq_ack_loop q ack r = (r, q)"
        using False by (simp add: step seg_acked_def Let_def)
      with f 1(2) show ?thesis by (simp add: c)
    qed
  qed
qed

text \<open>Segments queued one after another, as the sender produces them.\<close>

fun contiguous :: "tcpm6c_seg list \<Rightarrow> bool" where
  "contiguous (s # t # ss) \<longleftrightarrow> s_seq t = s_seq s + s_len s \<and> contiguous (t # ss)"
| "contiguous _ \<longleftrightarrow> True"

lemma contiguous_sum:
  "contiguous ss \<Longrightarrow> ss \<noteq> [] \<Longrightarrow>
     sum_list (map s_len ss) = s_seq (last ss) + s_len (last ss) - s_seq (hd ss)"
  by (induction ss rule: contiguous.induct) (auto simp: algebra_simps)

lemma fold_sum: "fold (\<lambda>i n. n + f i) is (n :: u32) = n + sum_list (map f is)"
  by (induction "is" arbitrary: n) (auto simp: algebra_simps)

lemma retxq_bytes_list:
  assumes "retxq_inv q"
  shows "tcpm6c_retxq_bytes q = sum_list (map s_len (retxq_list q))"
proof -
  have "map s_len (retxq_list q) =
      map (\<lambda>i. s_len (rq_seg q ! ((rq_head q + i) mod 8))) [0..<rq_count q]"
    using assms by (simp add: retxq_list_def ring_list_def retxq_inv_def)
  then show ?thesis by (simp add: tcpm6c_retxq_bytes_def fold_sum TCPM6C_RETXQ_DEPTH_def)
qed

section \<open>Selective acknowledgement\<close>

definition newly_sacked :: "tcpm6d_block list \<Rightarrow> tcpm6c_seg \<Rightarrow> bool" where
  "newly_sacked blk s \<longleftrightarrow> \<not> s_sacked s \<and> (\<exists>b \<in> set blk. covers b s)"

definition mark_seg :: "tcpm6d_block list \<Rightarrow> tcpm6c_seg \<Rightarrow> tcpm6c_seg" where
  "mark_seg blk s = (if newly_sacked blk s then s\<lparr>s_sacked := True\<rparr> else s)"

definition mark_step :: "tcpm6d_block list \<Rightarrow> nat \<Rightarrow> u32 \<times> tcpm6c_retxq \<Rightarrow> u32 \<times> tcpm6c_retxq" where
  "mark_step blk i = (\<lambda>(marked, q).
        case tcpm6c_retxq_at q i of
          None \<Rightarrow> (marked, q)
        | Some idx \<Rightarrow>
            let s = rq_seg q ! idx in
            if s_sacked s then (marked, q)
            else if \<exists>b \<in> set blk. covers b s
            then (marked + 1, q\<lparr>rq_seg := (rq_seg q)[idx := s\<lparr>s_sacked := True\<rparr>]\<rparr>)
            else (marked, q))"

lemma tcpm6d_mark_fold: "tcpm6d_mark q blk = fold (mark_step blk) [0..<rq_count q] (0, q)"
  by (simp add: tcpm6d_mark_def mark_step_def [abs_def])

lemma mark_step_list:
  assumes "retxq_inv q" "i < rq_count q" "mark_step blk i (k, q) = (k', q')"
  shows "retxq_inv q'" "rq_count q' = rq_count q"
    "retxq_list q' = (retxq_list q)[i := mark_seg blk (retxq_list q ! i)]"
    "k' = (if newly_sacked blk (retxq_list q ! i) then k + 1 else k)"
proof -
  note at = retxq_at_list [OF assms(1), of i]
  have upd: "ring_list ((rq_seg q)[(rq_head q + i) mod 8 := x]) (rq_head q) (rq_count q) =
      (retxq_list q)[i := x]" for x
    using ring_list_update [OF assms(2), of "rq_seg q" "rq_head q" x] assms(1)
    by (simp add: retxq_list_def retxq_inv_def)
  let ?s = "retxq_list q ! i"
  have "mark_step blk i (k, q) = (if newly_sacked blk ?s
      then (k + 1, q\<lparr>rq_seg := (rq_seg q)[(rq_head q + i) mod 8 := ?s\<lparr>s_sacked := True\<rparr>]\<rparr>) else (k, q))"
    using assms(2) at(2) by (simp add: mark_step_def at(1) newly_sacked_def Let_def)
  with assms(3) have q': "(k', q') = (if newly_sacked blk ?s
      then (k + 1, q\<lparr>rq_seg := (rq_seg q)[(rq_head q + i) mod 8 := ?s\<lparr>s_sacked := True\<rparr>]\<rparr>) else (k, q))"
    by simp
  show "retxq_inv q'" "rq_count q' = rq_count q"
    "retxq_list q' = (retxq_list q)[i := mark_seg blk ?s]"
    "k' = (if newly_sacked blk ?s then k + 1 else k)"
    using q' assms(1) upd [of "?s\<lparr>s_sacked := True\<rparr>"]
    by (auto simp: mark_seg_def retxq_inv_def retxq_list_def [of "_\<lparr>rq_seg := _\<rparr>"] split: if_splits)
qed

lemma mark_fold_list:
  assumes "retxq_inv q" "n \<le> rq_count q" "fold (mark_step blk) [0..<n] (0, q) = (k, q')"
  shows "retxq_inv q' \<and> rq_count q' = rq_count q \<and>
    retxq_list q' = map (mark_seg blk) (take n (retxq_list q)) @ drop n (retxq_list q) \<and>
    k = of_nat (length (filter (newly_sacked blk) (take n (retxq_list q))))"
  using assms(2,3)
proof (induction n arbitrary: k q')
  case (Suc n)
  obtain k1 q1 where s1: "fold (mark_step blk) [0..<n] (0, q) = (k1, q1)" by fastforce
  then have s2: "mark_step blk n (k1, q1) = (k, q')" using Suc.prems(2) by simp
  from Suc.IH [OF _ s1] Suc.prems(1) have IH: "retxq_inv q1" "rq_count q1 = rq_count q"
    "retxq_list q1 = map (mark_seg blk) (take n (retxq_list q)) @ drop n (retxq_list q)"
    "k1 = of_nat (length (filter (newly_sacked blk) (take n (retxq_list q))))" by auto
  have n: "n < length (retxq_list q)" using Suc.prems(1) by simp
  have nth: "retxq_list q1 ! n = retxq_list q ! n" using n by (simp add: IH(3) nth_append)
  have "drop n (retxq_list q) = retxq_list q ! n # drop (Suc n) (retxq_list q)"
    using n by (simp add: Cons_nth_drop_Suc)
  moreover have "n < rq_count q1" using Suc.prems(1) IH(2) by simp
  note st = mark_step_list [OF IH(1) this s2, unfolded nth]
  ultimately show ?case using n IH
    by (simp add: st take_Suc_conv_app_nth list_update_append)
qed (use assms(1) in simp)

lemma next_hole_list:
  assumes "retxq_inv q"
  shows "map_option (\<lambda>idx. rq_seg q ! idx) (tcpm6d_next_hole q) =
    find (\<lambda>s. \<not> s_sacked s) (retxq_list q)"
proof -
  let ?f = "\<lambda>i. case tcpm6c_retxq_at q i of
      Some idx \<Rightarrow> if \<not> s_sacked (rq_seg q ! idx) then Some idx else None | None \<Rightarrow> None"
  have "map_option (\<lambda>idx. rq_seg q ! idx) (first_some ?f is) =
      find (\<lambda>s. \<not> s_sacked s) (map (\<lambda>i. rq_seg q ! ((rq_head q + i) mod 8)) is)"
    if "set is \<subseteq> {0..<rq_count q}" for "is"
    using that by (induction "is") (auto simp: retxq_at_list(1) [OF assms])
  from this [of "[0..<rq_count q]"] show ?thesis
    using assms by (simp add: tcpm6d_next_hole_def retxq_list_def ring_list_def retxq_inv_def)
qed

section \<open>The backlog as a list\<close>

definition backlog_inv :: "tcpm6e_backlog \<Rightarrow> bool" where
  "backlog_inv b \<longleftrightarrow> length (bl_q b) = 8 \<and> bl_head b < 8 \<and> bl_count b \<le> bl_limit b \<and> bl_limit b \<le> 8"

definition backlog_list :: "tcpm6e_backlog \<Rightarrow> tcpm6e_pending list" where
  "backlog_list b = ring_list (bl_q b) (bl_head b) (bl_count b)"

definition new_pending :: "u32 \<times> u16 \<times> u32 \<Rightarrow> tcpm6e_pending" where
  "new_pending = (\<lambda>(ip, port, seq). \<lparr>peer_ip = ip, peer_port = port, peer_seq = seq, p_in_use = True\<rparr>)"

lemma backlog_list_length [simp]: "length (backlog_list b) = bl_count b"
  by (simp add: backlog_list_def)

lemma backlog_push_list:
  assumes "backlog_inv b" "bl_count b < bl_limit b"
  shows "fst (tcpm6e_backlog_push b ip port seq) = 0"
    "backlog_inv (snd (tcpm6e_backlog_push b ip port seq))"
    "backlog_list (snd (tcpm6e_backlog_push b ip port seq)) = backlog_list b @ [new_pending (ip, port, seq)]"
    "bl_limit (snd (tcpm6e_backlog_push b ip port seq)) = bl_limit b"
  using assms ring_list_push [of "bl_count b" "bl_q b" "bl_head b"]
  by (auto simp: backlog_inv_def backlog_list_def tcpm6e_backlog_push_def tcpm6e_backlog_full_def
      new_pending_def TCPM6E_BACKLOG_MAX_def Let_def)

lemma backlog_pop_list:
  assumes "backlog_inv b" "0 < bl_count b"
  shows "fst (tcpm6e_backlog_pop b) = Some (bl_head b)"
    "bl_q b ! bl_head b = hd (backlog_list b)"
    "backlog_inv (snd (tcpm6e_backlog_pop b))"
    "backlog_list (snd (tcpm6e_backlog_pop b)) = tl (backlog_list b)"
    "bl_limit (snd (tcpm6e_backlog_pop b)) = bl_limit b"
proof -
  let ?p = "(bl_q b ! bl_head b)\<lparr>p_in_use := False\<rparr>"
  have l: "length (bl_q b) = 8" "bl_head b < 8" "bl_count b \<le> 8"
    using assms by (auto simp: backlog_inv_def)
  then show "bl_q b ! bl_head b = hd (backlog_list b)" "fst (tcpm6e_backlog_pop b) = Some (bl_head b)"
    "backlog_inv (snd (tcpm6e_backlog_pop b))" "bl_limit (snd (tcpm6e_backlog_pop b)) = bl_limit b"
    using assms by (auto simp: backlog_list_def ring_list_hd tcpm6e_backlog_pop_def backlog_inv_def
        TCPM6E_BACKLOG_MAX_def)
  have "(((bl_head b + 1) mod 8) + 7) mod 8 = bl_head b" using l by (simp add: mod_simps)
  then have "ring_list ((bl_q b)[bl_head b := ?p]) ((bl_head b + 1) mod 8) (bl_count b - 1) =
      ring_list (bl_q b) ((bl_head b + 1) mod 8) (bl_count b - 1)"
    using ring_list_dead_slot [of "bl_count b - 1" 7 "bl_q b" "(bl_head b + 1) mod 8" ?p] l by simp
  then show "backlog_list (snd (tcpm6e_backlog_pop b)) = tl (backlog_list b)"
    using l assms(2) ring_list_tl [of "bl_count b" "bl_q b" "bl_head b"]
    by (simp add: backlog_list_def tcpm6e_backlog_pop_def TCPM6E_BACKLOG_MAX_def)
qed

interpretation backlog: fifo backlog_inv backlog_list bl_limit new_pending
  "\<lambda>(ip, port, seq) b. snd (tcpm6e_backlog_push b ip port seq)" "\<lambda>b. snd (tcpm6e_backlog_pop b)"
  by unfold_locales
    (auto simp: backlog_push_list backlog_pop_list simp flip: length_greater_0_conv)

section \<open>Properties\<close>

definition demo_retxq :: tcpm6c_retxq where
  "demo_retxq = snd (tcpm6c_retxq_push (snd (tcpm6c_retxq_push
     (tcpm6c_retxq_init \<lparr>rq_seg = replicate 8 (new_seg (0, 0, 0, 0)), rq_head = 0, rq_count = 0\<rparr>)
     1000 100 0 5)) 1100 200 0 6)"

lemma demo_retxq_facts:
  "retxq_inv demo_retxq" "retxq_list demo_retxq = [new_seg (1000, 100, 0, 5), new_seg (1100, 200, 0, 6)]"
proof -
  let ?q0 = "tcpm6c_retxq_init \<lparr>rq_seg = replicate 8 (new_seg (0, 0, 0, 0)), rq_head = 0, rq_count = 0\<rparr>"
  have q0: "retxq_inv ?q0" "retxq_list ?q0 = []"
    by (simp_all add: retxq_inv_def retxq_list_def tcpm6c_retxq_init_def)
  have "length (retxq_list ?q0) + length [(1000, 100, 0, 5), (1100, 200, 0, 6)] \<le> 8"
    by (simp only: q0) simp
  from retxq.enq_all [OF q0(1) this]
  show "retxq_inv demo_retxq" "retxq_list demo_retxq = [new_seg (1000, 100, 0, 5), new_seg (1100, 200, 0, 6)]"
    by (simp_all add: demo_retxq_def q0(2))
qed

text \<open>C14: a cumulative acknowledgement retires exactly the longest prefix of segments it covers, in
  wrap-around sequence arithmetic, reports how many, and leaves the rest in order; for segments
  queued back to back the bytes reported in flight are the distance from the oldest unacknowledged
  byte to the end of the newest segment.\<close>

theorem tcpm6c_retxq_ack_prefix:
  assumes "retxq_inv q"
  shows "retxq_inv (snd (tcpm6c_retxq_ack q ack)) \<and>
    retxq_list (snd (tcpm6c_retxq_ack q ack)) = dropWhile (seg_acked ack) (retxq_list q) \<and>
    fst (tcpm6c_retxq_ack q ack) = of_nat (length (takeWhile (seg_acked ack) (retxq_list q))) \<and>
    (contiguous (retxq_list q) \<and> retxq_list q \<noteq> [] \<longrightarrow>
       tcpm6c_retxq_bytes q = s_seq (last (retxq_list q)) + s_len (last (retxq_list q)) - s_seq (hd (retxq_list q)))"
  using retxq_ack_loop_list [OF assms, of ack 0] retxq_bytes_list [OF assms]
    contiguous_sum [of "retxq_list q"]
  by (auto simp: tcpm6c_retxq_ack_def)

theorem tcpm6c_retxq_ack_prefix_witness:
  "fst (tcpm6c_retxq_ack demo_retxq 1100) = 1 \<and> tcpm6c_retxq_bytes demo_retxq = 300"
  using tcpm6c_retxq_ack_prefix [OF demo_retxq_facts(1), of 1100]
  by (simp add: demo_retxq_facts new_seg_def seg_acked_def seq_diff_def)



text \<open>C16: the listen backlog is a bounded first-in first-out queue: a SYN is queued at the end while
  fewer than the limit wait and refused and counted otherwise, accept takes the one that waited
  longest, and the duplicate test sees exactly the queued peers.\<close>

theorem tcpm6e_backlog_fifo:
  assumes "backlog_inv b"
  shows "(if bl_count b < bl_limit b
      then fst (tcpm6e_backlog_push b ip port seq) = 0 \<and>
        backlog_list (snd (tcpm6e_backlog_push b ip port seq)) = backlog_list b @ [new_pending (ip, port, seq)]
      else tcpm6e_backlog_push b ip port seq = (-1, b\<lparr>bl_dropped := bl_dropped b + 1\<rparr>)) \<and>
    (if backlog_list b = [] then tcpm6e_backlog_pop b = (None, b)
     else \<exists>i. fst (tcpm6e_backlog_pop b) = Some i \<and> bl_q b ! i = hd (backlog_list b) \<and>
       backlog_list (snd (tcpm6e_backlog_pop b)) = tl (backlog_list b)) \<and>
    (tcpm6e_backlog_has b ip port \<longleftrightarrow>
       (\<exists>p \<in> set (backlog_list b). peer_ip p = ip \<and> peer_port p = port))"
proof -
  have "tcpm6e_backlog_has b ip port \<longleftrightarrow>
      (\<exists>p \<in> set (backlog_list b). peer_ip p = ip \<and> peer_port p = port)"
    using assms by (auto simp: tcpm6e_backlog_has_def backlog_list_def ring_list_def backlog_inv_def
        TCPM6E_BACKLOG_MAX_def Let_def)
  moreover have "if backlog_list b = [] then tcpm6e_backlog_pop b = (None, b)
     else \<exists>i. fst (tcpm6e_backlog_pop b) = Some i \<and> bl_q b ! i = hd (backlog_list b) \<and>
       backlog_list (snd (tcpm6e_backlog_pop b)) = tl (backlog_list b)"
  proof (cases "bl_count b = 0")
    case True
    then show ?thesis by (simp add: backlog_list_def tcpm6e_backlog_pop_def)
  next
    case False
    then have "backlog_list b \<noteq> []" by (simp add: backlog_list_def)
    with backlog_pop_list [OF assms] False show ?thesis by simp
  qed
  ultimately show ?thesis
    using backlog_push_list [OF assms]
    by (auto simp: tcpm6e_backlog_push_def tcpm6e_backlog_full_def)
qed

theorem tcpm6e_backlog_fifo_witness:
  "fst (tcpm6e_backlog_push (tcpm6e_backlog_init \<lparr>bl_q = replicate 8 (new_pending (0, 0, 0)),
     bl_head = 3, bl_count = 2, bl_limit = 0, bl_dropped = 0\<rparr> 0) 1 2 3) = 0"
  using tcpm6e_backlog_fifo [of "tcpm6e_backlog_init \<lparr>bl_q = replicate 8 (new_pending (0, 0, 0)),
     bl_head = 3, bl_count = 2, bl_limit = 0, bl_dropped = 0\<rparr> 0" 1 2 3]
  by (simp add: tcpm6e_backlog_init_def backlog_inv_def TCPM6E_BACKLOG_MAX_def)

text \<open>C17: the keepalive declares a connection dead in the same tick in which the last of its probes was
  sent, so that probe is given no time to be answered, whatever the probe interval.\<close>

theorem tcpm6e_ka_last_probe_unanswerable:
  assumes "ka_enabled k" and "ka_probes_sent k + 1 = ka_count k" and "ka_count k \<noteq> 0"
  shows "tcpm6e_ka_poll (tcpm6e_ka_probe_sent k now) now ms_per_tick = TCPM6E_KA_DEAD"
  using assms by (simp add: tcpm6e_ka_poll_def tcpm6e_ka_probe_sent_def)

theorem tcpm6e_ka_last_probe_unanswerable_witness:
  "tcpm6e_ka_poll (tcpm6e_ka_probe_sent ((tcpm6e_ka_init 0)\<lparr>ka_enabled := True, ka_probes_sent := 8\<rparr>) 500) 500 10
     = TCPM6E_KA_DEAD"
  by (rule tcpm6e_ka_last_probe_unanswerable) (simp_all add: tcpm6e_ka_init_def TCPM6E_KA_COUNT_def)

end
