(* ===== verification/IpReasm.thy ===== *)
theory IpReasm
  imports Bitmap
begin

text \<open>
  The IPv4 fragment reassembly engine of \<open>kernel/net/ip_reasm.c\<close>: a table of eight datagrams of at
  most 8192 bytes, one received-bit per byte.  Offsets and lengths are 16-bit quantities, kept as
  \<open>nat\<close> with the one possible wrap written out; times and counters are 32-bit words.  The output
  buffer is present and large enough to take \<open>out_cap\<close> bytes.
\<close>

definition IPREASM_MAX_ENTRIES :: nat where "IPREASM_MAX_ENTRIES = 8"
definition IPREASM_CAP :: nat where "IPREASM_CAP = 8192"

record ipreasm_key =
  k_src :: u32
  k_dst :: u32
  k_proto :: byte
  k_id :: u16

record ipreasm_entry =
  en_used :: bool
  en_key :: ipreasm_key
  first_seen_ms :: u32
  have_bytes :: nat
  expected_len :: nat
  en_data :: "nat \<Rightarrow> byte"
  en_bitmap :: "byte list"

record ipreasm =
  rt_e :: "ipreasm_entry list"
  n_complete :: u32
  n_timeout :: u32
  n_overlap_refused :: u32
  n_cap_refused :: u32
  n_evicted :: u32

datatype ipreasm_result =
  IPREASM_PENDING | IPREASM_COMPLETE "byte list" nat | IPREASM_REFUSED

definition ipreasm_bm_set :: "byte list \<Rightarrow> nat \<Rightarrow> byte list" where
  "ipreasm_bm_set bm i = bm[i div 8 := (bm ! (i div 8)) OR push_bit (i mod 8) 1]"

definition ipreasm_bm_get :: "byte list \<Rightarrow> nat \<Rightarrow> bool" where
  "ipreasm_bm_get bm i \<longleftrightarrow> drop_bit (i mod 8) (bm ! (i div 8)) AND 1 \<noteq> 0"

definition zero_key :: ipreasm_key where
  "zero_key = \<lparr>k_src = 0, k_dst = 0, k_proto = 0, k_id = 0\<rparr>"

text \<open>An entry after \<open>memset(e, 0, sizeof *e)\<close>.\<close>

definition zero_entry :: ipreasm_entry where
  "zero_entry = \<lparr>en_used = False, en_key = zero_key, first_seen_ms = 0, have_bytes = 0,
     expected_len = 0, en_data = (\<lambda>_. 0), en_bitmap = replicate (IPREASM_CAP div 8) 0\<rparr>"

definition ipreasm_init :: ipreasm where
  "ipreasm_init = \<lparr>rt_e = replicate IPREASM_MAX_ENTRIES zero_entry, n_complete = 0, n_timeout = 0,
     n_overlap_refused = 0, n_cap_refused = 0, n_evicted = 0\<rparr>"

definition ipreasm_entries :: "ipreasm \<Rightarrow> nat" where
  "ipreasm_entries t = fold (\<lambda>e n. if en_used e then n + 1 else n) (rt_e t) 0"

definition key_eq :: "ipreasm_key \<Rightarrow> ipreasm_key \<Rightarrow> bool" where
  "key_eq a b \<longleftrightarrow> k_src a = k_src b \<and> k_dst a = k_dst b \<and> k_proto a = k_proto b \<and> k_id a = k_id b"

definition entry_expired :: "ipreasm_entry \<Rightarrow> u32 \<Rightarrow> u32 \<Rightarrow> bool" where
  "entry_expired e now_ms timeout_ms \<longleftrightarrow> now_ms - first_seen_ms e > timeout_ms"

definition ipreasm_sweep :: "ipreasm \<Rightarrow> u32 \<Rightarrow> u32 \<Rightarrow> nat \<times> ipreasm" where
  "ipreasm_sweep t now_ms timeout_ms =
     (let drop = (\<lambda>e. en_used e \<and> entry_expired e now_ms timeout_ms);
          dropped = length (filter drop (rt_e t))
      in (dropped, t\<lparr>rt_e := map (\<lambda>e. if drop e then e\<lparr>en_used := False\<rparr> else e) (rt_e t),
                     n_timeout := n_timeout t + of_nat dropped\<rparr>))"

text \<open>Finding the entry of a key, and choosing a slot for a new one: the first free slot, or the
  oldest entry.\<close>

definition find_entry :: "ipreasm \<Rightarrow> ipreasm_key \<Rightarrow> nat option" where
  "find_entry t key =
     find (\<lambda>i. en_used (rt_e t ! i) \<and> key_eq (en_key (rt_e t ! i)) key) [0..<IPREASM_MAX_ENTRIES]"

fun pick_slot :: "ipreasm_entry list \<Rightarrow> nat \<Rightarrow> u32 \<Rightarrow> nat \<Rightarrow> u32 \<Rightarrow> bool \<times> nat" where
  "pick_slot [] i now_ms oldest_i oldest_age = (True, oldest_i)"
| "pick_slot (e # es) i now_ms oldest_i oldest_age =
     (if \<not> en_used e then (False, i)
      else let age = now_ms - first_seen_ms e in
           if age \<ge> oldest_age then pick_slot es (i + 1) now_ms i age
           else pick_slot es (i + 1) now_ms oldest_i oldest_age)"

definition make_entry :: "ipreasm \<Rightarrow> u32 \<Rightarrow> ipreasm_key \<Rightarrow> nat \<times> ipreasm" where
  "make_entry t now_ms key =
     (case pick_slot (rt_e t) 0 now_ms 0 0 of (evict, i) \<Rightarrow>
        (i, t\<lparr>rt_e := (rt_e t)[i := zero_entry\<lparr>en_used := True, en_key := key, first_seen_ms := now_ms\<rparr>],
              n_evicted := (if evict then n_evicted t + 1 else n_evicted t)\<rparr>))"

text \<open>The two passes over the payload: the conflict check and the copy.\<close>

definition frag_pos :: "nat \<Rightarrow> nat \<Rightarrow> nat" where
  "frag_pos off i = (off + i) mod 2 ^ 16"

definition frag_conflict :: "ipreasm_entry \<Rightarrow> nat \<Rightarrow> byte list \<Rightarrow> bool" where
  "frag_conflict e off payload \<longleftrightarrow>
     list_ex (\<lambda>i. ipreasm_bm_get (en_bitmap e) (frag_pos off i) \<and> en_data e (frag_pos off i) \<noteq> payload ! i)
       [0..<length payload]"

definition frag_write :: "nat \<Rightarrow> byte list \<Rightarrow> ipreasm_entry \<Rightarrow> ipreasm_entry" where
  "frag_write off payload e =
     fold (\<lambda>i e. let pos = frag_pos off i in
             if \<not> ipreasm_bm_get (en_bitmap e) pos
             then e\<lparr>en_bitmap := ipreasm_bm_set (en_bitmap e) pos,
                    en_data := (en_data e)(pos := payload ! i),
                    have_bytes := have_bytes e + 1\<rparr>
             else e) [0..<length payload] e"

text \<open>The part of \<open>ipreasm_input\<close> from the pinned length on, for the entry at index \<open>i\<close>.\<close>

definition frag_accept ::
  "ipreasm \<Rightarrow> nat \<Rightarrow> nat \<Rightarrow> nat \<Rightarrow> byte list \<Rightarrow> nat \<Rightarrow> ipreasm_result \<times> ipreasm" where
  "frag_accept t i expected_len_or_0 off payload out_cap =
     (let e = rt_e t ! i; plen = length payload in
      if expected_len_or_0 \<noteq> 0 \<and> expected_len e \<noteq> 0 \<and> expected_len e \<noteq> expected_len_or_0
      then (IPREASM_REFUSED, t)
      else let e1 = (if expected_len_or_0 \<noteq> 0 then e\<lparr>expected_len := expected_len_or_0\<rparr> else e);
               t1 = t\<lparr>rt_e := (rt_e t)[i := e1]\<rparr> in
      if expected_len e1 \<noteq> 0 \<and> off + plen > expected_len e1 then (IPREASM_REFUSED, t1)
      else if frag_conflict e1 off payload
      then (IPREASM_REFUSED, t1\<lparr>n_overlap_refused := n_overlap_refused t1 + 1\<rparr>)
      else let e2 = frag_write off payload e1; t2 = t1\<lparr>rt_e := (rt_e t1)[i := e2]\<rparr> in
      if expected_len e2 \<noteq> 0 \<and> have_bytes e2 = expected_len e2
      then let total = expected_len e2; ncopy = (if total > out_cap then out_cap else total)
           in (IPREASM_COMPLETE (map (en_data e2) [0..<ncopy]) total,
               t2\<lparr>rt_e := (rt_e t2)[i := e2\<lparr>en_used := False\<rparr>], n_complete := n_complete t2 + 1\<rparr>)
      else (IPREASM_PENDING, t2))"

definition ipreasm_input ::
  "ipreasm \<Rightarrow> u32 \<Rightarrow> u32 \<Rightarrow> ipreasm_key \<Rightarrow> nat \<Rightarrow> nat \<Rightarrow> byte list \<Rightarrow> nat \<Rightarrow>
     ipreasm_result \<times> ipreasm" where
  "ipreasm_input t now_ms timeout_ms key expected_len_or_0 off payload out_cap =
     (let plen = length payload in
      if plen = 0 then (IPREASM_REFUSED, t)
      else if off mod 8 \<noteq> 0 then (IPREASM_REFUSED, t)
      else let t1 = snd (ipreasm_sweep t now_ms timeout_ms) in
      if off + plen > IPREASM_CAP
      then (IPREASM_REFUSED,
            t1\<lparr>rt_e := map (\<lambda>e. if en_used e \<and> key_eq (en_key e) key then e\<lparr>en_used := False\<rparr> else e) (rt_e t1),
               n_cap_refused := n_cap_refused t1 + 1\<rparr>)
      else if expected_len_or_0 > IPREASM_CAP \<or>
              (expected_len_or_0 \<noteq> 0 \<and> off + plen \<noteq> expected_len_or_0)
      then (IPREASM_REFUSED, t1\<lparr>n_cap_refused := n_cap_refused t1 + 1\<rparr>)
      else case find_entry t1 key of
             Some i \<Rightarrow> frag_accept t1 i expected_len_or_0 off payload out_cap
           | None \<Rightarrow> (case make_entry t1 now_ms key of (i, t2) \<Rightarrow>
                       frag_accept t2 i expected_len_or_0 off payload out_cap))"

section \<open>The received bits\<close>

lemma ipreasm_bm_eq: "ipreasm_bm_set = bm_set" "ipreasm_bm_get = bm_test"
  by (simp_all add: fun_eq_iff ipreasm_bm_set_def bm_set_def ipreasm_bm_get_def bm_test_def)

interpretation reasm: bit_array ipreasm_bm_set ipreasm_bm_get "\<lambda>bm. 8 * length bm"
  unfolding ipreasm_bm_eq by unfold_locales (auto simp: bm_test_set)

definition received :: "ipreasm_entry \<Rightarrow> nat \<Rightarrow> bool" where
  "received e p \<longleftrightarrow> p < IPREASM_CAP \<and> ipreasm_bm_get (en_bitmap e) p"

definition entry_ok :: "ipreasm_entry \<Rightarrow> bool" where
  "entry_ok e \<longleftrightarrow> length (en_bitmap e) = 1024 \<and> have_bytes e = count_upto (received e) 8192 \<and>
     expected_len e \<le> 8192"

definition ipreasm_inv :: "ipreasm \<Rightarrow> bool" where
  "ipreasm_inv t \<longleftrightarrow> length (rt_e t) = 8 \<and> (\<forall>e \<in> set (rt_e t). entry_ok e)"

lemma received_update [simp]:
  "received (e\<lparr>en_used := u\<rparr>) = received e" "received (e\<lparr>expected_len := l\<rparr>) = received e"
  "received (e\<lparr>en_key := k\<rparr>) = received e" "received (e\<lparr>first_seen_ms := f\<rparr>) = received e"
  "received (e\<lparr>have_bytes := h\<rparr>) = received e" "received (e\<lparr>en_data := d\<rparr>) = received e"
  by (simp_all add: received_def fun_eq_iff)

lemma entry_ok_update [simp]:
  "entry_ok (e\<lparr>en_used := u\<rparr>) = entry_ok e" "entry_ok (e\<lparr>en_key := k\<rparr>) = entry_ok e"
  "entry_ok (e\<lparr>first_seen_ms := f\<rparr>) = entry_ok e"
  "entry_ok e \<Longrightarrow> l \<le> 8192 \<Longrightarrow> entry_ok (e\<lparr>expected_len := l\<rparr>)"
  by (simp_all add: entry_ok_def)

lemma zero_entry_facts [simp]: "\<not> received zero_entry p" "entry_ok zero_entry"
  "expected_len zero_entry = 0"
proof -
  show z: "\<not> received zero_entry p" for p
    by (simp add: received_def zero_entry_def ipreasm_bm_get_def IPREASM_CAP_def)
  have "count_upto (received zero_entry) 8192 = 0" by (simp add: count_upto_def z)
  then show "entry_ok zero_entry" by (simp add: entry_ok_def) (simp add: zero_entry_def IPREASM_CAP_def)
  show "expected_len zero_entry = 0" by (simp add: zero_entry_def)
qed

section \<open>Storing a fragment\<close>

definition write_step :: "nat \<Rightarrow> byte list \<Rightarrow> nat \<Rightarrow> ipreasm_entry \<Rightarrow> ipreasm_entry" where
  "write_step off payload i e =
     (let pos = frag_pos off i in
      if \<not> ipreasm_bm_get (en_bitmap e) pos
      then e\<lparr>en_bitmap := ipreasm_bm_set (en_bitmap e) pos,
             en_data := (en_data e)(pos := payload ! i),
             have_bytes := have_bytes e + 1\<rparr>
      else e)"

lemma frag_write_fold: "frag_write off payload = fold (write_step off payload) [0..<length payload]"
  by (simp add: fun_eq_iff frag_write_def write_step_def [abs_def])

lemma write_step_spec:
  fixes payload :: "byte list"
  assumes "off + i < 8192" "entry_ok e"
  defines "e' \<equiv> write_step off payload i e"
  shows "entry_ok e'" "received e' p \<longleftrightarrow> p = off + i \<or> received e p"
    "en_data e' p = (if p = off + i \<and> \<not> received e p then payload ! i else en_data e p)"
    "expected_len e' = expected_len e" "en_used e' = en_used e" "en_key e' = en_key e"
proof -
  let ?p = "off + i"
  have pos: "frag_pos off i = ?p" using assms(1) by (simp add: frag_pos_def)
  have len: "length (en_bitmap e) = 1024" using assms(2) by (simp add: entry_ok_def)
  have new: "received (e\<lparr>en_bitmap := ipreasm_bm_set (en_bitmap e) ?p\<rparr>) = (\<lambda>q. q = ?p \<or> received e q)"
    using assms(1) len reasm.btest_bset [of ?p "en_bitmap e"]
    by (auto simp: received_def IPREASM_CAP_def fun_eq_iff)
  have bit: "ipreasm_bm_get (en_bitmap e) ?p \<longleftrightarrow> received e ?p"
    using assms(1) by (simp add: received_def IPREASM_CAP_def)
  have cnt: "count_upto (\<lambda>q. q = ?p \<or> received e q) 8192 = Suc (have_bytes e)" if "\<not> received e ?p"
    using that assms by (simp add: count_upto_add entry_ok_def)
  show "entry_ok e'"
    using assms(2) new cnt bit len reasm.bcap_bset [of "en_bitmap e" ?p]
    by (auto simp: entry_ok_def e'_def write_step_def pos Let_def)
  show "received e' p \<longleftrightarrow> p = ?p \<or> received e p"
    using new bit by (auto simp: e'_def write_step_def pos Let_def)
  show "en_data e' p = (if p = ?p \<and> \<not> received e p then payload ! i else en_data e p)"
    "expected_len e' = expected_len e" "en_used e' = en_used e" "en_key e' = en_key e"
    using bit by (auto simp: e'_def write_step_def pos Let_def)
qed

lemma frag_write_spec:
  assumes "off + length payload \<le> 8192" "entry_ok e"
  defines "e' \<equiv> frag_write off payload e"
  shows "entry_ok e'"
    and "received e' p \<longleftrightarrow> off \<le> p \<and> p < off + length payload \<or> received e p"
    and "en_data e' p = (if off \<le> p \<and> p < off + length payload \<and> \<not> received e p
           then payload ! (p - off) else en_data e p)"
    and "expected_len e' = expected_len e" "en_used e' = en_used e" "en_key e' = en_key e"
proof -
  have "entry_ok (fold (write_step off payload) [0..<n] e) \<and>
    (\<forall>p. received (fold (write_step off payload) [0..<n] e) p \<longleftrightarrow> off \<le> p \<and> p < off + n \<or> received e p) \<and>
    (\<forall>p. en_data (fold (write_step off payload) [0..<n] e) p =
       (if off \<le> p \<and> p < off + n \<and> \<not> received e p then payload ! (p - off) else en_data e p)) \<and>
    expected_len (fold (write_step off payload) [0..<n] e) = expected_len e \<and>
    en_used (fold (write_step off payload) [0..<n] e) = en_used e \<and>
    en_key (fold (write_step off payload) [0..<n] e) = en_key e" if "n \<le> length payload" for n
    using that
  proof (induction n)
    case (Suc n)
    then have "off + n < 8192" using assms(1) by simp
    note st = write_step_spec [OF this, of "fold (write_step off payload) [0..<n] e" payload]
    from Suc st show ?case by (auto simp: less_Suc_eq)
  qed (use assms(2) in auto)
  from this [of "length payload"] show "entry_ok e'"
    "received e' p \<longleftrightarrow> off \<le> p \<and> p < off + length payload \<or> received e p"
    "en_data e' p = (if off \<le> p \<and> p < off + length payload \<and> \<not> received e p
           then payload ! (p - off) else en_data e p)"
    "expected_len e' = expected_len e" "en_used e' = en_used e" "en_key e' = en_key e"
    by (auto simp: e'_def frag_write_fold)
qed

section \<open>The table\<close>

lemma sweep_table:
  "length (rt_e (snd (ipreasm_sweep t now tm))) = length (rt_e t)"
  "ipreasm_inv t \<Longrightarrow> ipreasm_inv (snd (ipreasm_sweep t now tm))"
  by (auto simp: ipreasm_sweep_def Let_def ipreasm_inv_def)

lemma find_entry_Some: "find_entry t key = Some i \<Longrightarrow> i < 8 \<and> en_used (rt_e t ! i) \<and> key_eq (en_key (rt_e t ! i)) key"
  by (auto simp: find_entry_def IPREASM_MAX_ENTRIES_def find_Some_iff)

lemma pick_slot_bound:
  "pick_slot es i now oi oa = (ev, k) \<Longrightarrow> k = oi \<or> i \<le> k \<and> k < i + length es"
  by (induction es i now oi oa rule: pick_slot.induct) (fastforce simp: Let_def split: if_splits)+

lemma make_entry_spec:
  assumes "ipreasm_inv t" "make_entry t now key = (i, t')"
  shows "i < 8" "ipreasm_inv t'"
    "rt_e t' ! i = zero_entry\<lparr>en_used := True, en_key := key, first_seen_ms := now\<rparr>"
proof -
  obtain ev where p: "pick_slot (rt_e t) 0 now 0 0 = (ev, i)"
    and t': "rt_e t' = (rt_e t)[i := zero_entry\<lparr>en_used := True, en_key := key, first_seen_ms := now\<rparr>]"
    using assms(2) by (auto simp: make_entry_def split: prod.splits)
  show i: "i < 8" using pick_slot_bound [OF p] assms(1) by (auto simp: ipreasm_inv_def)
  show "ipreasm_inv t'" "rt_e t' ! i = zero_entry\<lparr>en_used := True, en_key := key, first_seen_ms := now\<rparr>"
    using i assms(1) by (auto simp: ipreasm_inv_def t' dest!: set_update_subset_insert [THEN subsetD])
qed

text \<open>What accepting a fragment does to its entry, on every branch.\<close>

lemma frag_accept_cases:
  assumes "ipreasm_inv t" "i < 8" "x \<le> 8192" "off + length payload \<le> 8192"
    and acc: "frag_accept t i x off payload out_cap = (res, t')"
  defines "e \<equiv> rt_e t ! i"
  obtains (refused) e1 where "res = IPREASM_REFUSED" "rt_e t' = (rt_e t)[i := e1]" "entry_ok e1"
      "received e1 = received e" "en_data e1 = en_data e"
  | (stored) e2 where "res \<noteq> IPREASM_REFUSED" "rt_e t' = (rt_e t)[i := e2]" "entry_ok e2"
      "\<not> frag_conflict e off payload"
      "\<And>p. received e2 p \<longleftrightarrow> off \<le> p \<and> p < off + length payload \<or> received e p"
      "\<And>p. en_data e2 p = (if off \<le> p \<and> p < off + length payload \<and> \<not> received e p
           then payload ! (p - off) else en_data e p)"
      "res = (if expected_len e2 \<noteq> 0 \<and> have_bytes e2 = expected_len e2
         then IPREASM_COMPLETE (map (en_data e2) [0..<min out_cap (expected_len e2)]) (expected_len e2)
         else IPREASM_PENDING)"
      "expected_len e2 \<noteq> 0 \<longrightarrow> off + length payload \<le> expected_len e2"
proof -
  have ok: "entry_ok e" using assms(1,2) by (auto simp: ipreasm_inv_def e_def)
  have len: "length (rt_e t) = 8" using assms(1) by (simp add: ipreasm_inv_def)
  define e1 where "e1 = (if x \<noteq> 0 then e\<lparr>expected_len := x\<rparr> else e)"
  have e1: "entry_ok e1" "received e1 = received e" "en_data e1 = en_data e"
    "frag_conflict e1 off payload = frag_conflict e off payload"
    using ok assms(3) by (auto simp: e1_def frag_conflict_def)
  let ?t1 = "t\<lparr>rt_e := (rt_e t)[i := e1]\<rparr>" and ?e2 = "frag_write off payload e1"
  define full where "full \<longleftrightarrow> expected_len ?e2 \<noteq> 0 \<and> have_bytes ?e2 = expected_len ?e2"
  have acc2: "(res, t') =
     (if x \<noteq> 0 \<and> expected_len e \<noteq> 0 \<and> expected_len e \<noteq> x then (IPREASM_REFUSED, t)
      else if expected_len e1 \<noteq> 0 \<and> off + length payload > expected_len e1 then (IPREASM_REFUSED, ?t1)
      else if frag_conflict e1 off payload
      then (IPREASM_REFUSED, ?t1\<lparr>n_overlap_refused := n_overlap_refused ?t1 + 1\<rparr>)
      else if full
      then (IPREASM_COMPLETE (map (en_data ?e2) [0..<if expected_len ?e2 > out_cap then out_cap else expected_len ?e2])
              (expected_len ?e2),
            ?t1\<lparr>rt_e := (rt_e t)[i := ?e2\<lparr>en_used := False\<rparr>], n_complete := n_complete t + 1\<rparr>)
      else (IPREASM_PENDING, t\<lparr>rt_e := (rt_e t)[i := ?e2]\<rparr>))"
    unfolding acc [symmetric] frag_accept_def Let_def e_def [symmetric] e1_def [symmetric] full_def
    by simp
  consider (a) "x \<noteq> 0 \<and> expected_len e \<noteq> 0 \<and> expected_len e \<noteq> x"
    | (b) "\<not> (x \<noteq> 0 \<and> expected_len e \<noteq> 0 \<and> expected_len e \<noteq> x)"
        "expected_len e1 \<noteq> 0 \<and> off + length payload > expected_len e1 \<or> frag_conflict e1 off payload"
    | (c) "\<not> (x \<noteq> 0 \<and> expected_len e \<noteq> 0 \<and> expected_len e \<noteq> x)"
        "\<not> (expected_len e1 \<noteq> 0 \<and> off + length payload > expected_len e1)" "\<not> frag_conflict e1 off payload"
    by blast
  then show thesis
  proof cases
    case a
    then have "res = IPREASM_REFUSED" "t' = t" using acc2 by auto
    with ok show thesis by (intro refused [of e]) (auto simp: e_def)
  next
    case b
    then have "res = IPREASM_REFUSED" "rt_e t' = (rt_e t)[i := e1]"
      using acc2 by (auto split: if_splits)
    with e1 show thesis by (intro refused [of e1]) auto
  next
    case c
    note w = frag_write_spec [OF assms(4) e1(1)]
    have r: "res = (if full then IPREASM_COMPLETE (map (en_data ?e2) [0..<min out_cap (expected_len ?e2)]) (expected_len ?e2)
         else IPREASM_PENDING)"
      "rt_e t' = (rt_e t)[i := (if full then ?e2\<lparr>en_used := False\<rparr> else ?e2)]"
      using acc2 c by (auto simp: min_def)
    have d: "expected_len (if full then ?e2\<lparr>en_used := False\<rparr> else ?e2) = expected_len ?e2"
      "have_bytes (if full then ?e2\<lparr>en_used := False\<rparr> else ?e2) = have_bytes ?e2"
      "en_data (if full then ?e2\<lparr>en_used := False\<rparr> else ?e2) = en_data ?e2"
      "received (if full then ?e2\<lparr>en_used := False\<rparr> else ?e2) = received ?e2"
      "entry_ok (if full then ?e2\<lparr>en_used := False\<rparr> else ?e2)"
      using w(1) by auto
    show thesis
      by (rule stored [OF _ r(2)])
        (use c e1 w(2-4) r(1) d in \<open>auto simp: full_def\<close>)
  qed
qed

lemma frag_accept_inv:
  assumes "ipreasm_inv t" "i < 8" "x \<le> 8192" "off + length payload \<le> 8192"
    and "frag_accept t i x off payload out_cap = (res, t')"
  shows "ipreasm_inv t'"
proof -
  have "\<exists>e'. entry_ok e' \<and> rt_e t' = (rt_e t)[i := e']"
    using assms by (rule frag_accept_cases) blast+
  then show ?thesis using assms(1)
    by (auto simp: ipreasm_inv_def dest!: set_update_subset_insert [THEN subsetD])
qed

text \<open>The slot a fragment of \<open>key\<close> goes to and the table it goes to it in: the tracked entry, or a
  new one.\<close>

definition frag_slot :: "ipreasm \<Rightarrow> u32 \<Rightarrow> u32 \<Rightarrow> ipreasm_key \<Rightarrow> nat \<times> ipreasm" where
  "frag_slot t now_ms timeout_ms key =
     (let t1 = snd (ipreasm_sweep t now_ms timeout_ms) in
      case find_entry t1 key of Some i \<Rightarrow> (i, t1) | None \<Rightarrow> make_entry t1 now_ms key)"

lemma frag_slot_inv:
  assumes "ipreasm_inv t" "frag_slot t now tm key = (i, t1)"
  shows "i < 8" "ipreasm_inv t1"
proof -
  let ?s = "snd (ipreasm_sweep t now tm)"
  have s: "ipreasm_inv ?s" using sweep_table(2) [OF assms(1)] .
  have "i < 8 \<and> ipreasm_inv t1"
  proof (cases "find_entry ?s key")
    case None
    then have "make_entry ?s now key = (i, t1)" using assms(2) by (simp add: frag_slot_def Let_def)
    from make_entry_spec [OF s this] show ?thesis by simp
  next
    case (Some k)
    with assms(2) s find_entry_Some [OF Some] show ?thesis by (simp add: frag_slot_def Let_def)
  qed
  then show "i < 8" "ipreasm_inv t1" by auto
qed

text \<open>Every call either refuses the fragment before it reaches an entry, or accepts it into its
  slot.\<close>

lemma ipreasm_input_cases:
  assumes "ipreasm_input t now tm key x off payload out_cap = (res, t')"
  obtains (early) "res = IPREASM_REFUSED" "ipreasm_inv t \<longrightarrow> ipreasm_inv t'"
  | (accept) i t1 where "frag_slot t now tm key = (i, t1)" "x \<le> 8192" "off + length payload \<le> 8192"
      "x \<noteq> 0 \<longrightarrow> off + length payload = x"
      "frag_accept t1 i x off payload out_cap = (res, t')"
proof -
  let ?s = "snd (ipreasm_sweep t now tm)"
  have inv: "ipreasm_inv t \<longrightarrow> ipreasm_inv ?s" using sweep_table(2) by blast
  show thesis
  proof (cases "length payload = 0 \<or> off mod 8 \<noteq> 0 \<or> off + length payload > IPREASM_CAP \<or>
      x > IPREASM_CAP \<or> (x \<noteq> 0 \<and> off + length payload \<noteq> x)")
    case True
    then have "res = IPREASM_REFUSED \<and> (ipreasm_inv t \<longrightarrow> ipreasm_inv t')"
      using assms inv by (auto simp: ipreasm_input_def Let_def ipreasm_inv_def split: if_splits)
    then show thesis using early by blast
  next
    case False
    obtain i t1 where s: "frag_slot t now tm key = (i, t1)" by fastforce
    with False assms have "frag_accept t1 i x off payload out_cap = (res, t')"
      by (auto simp: ipreasm_input_def Let_def frag_slot_def split: option.splits prod.splits)
    with False s show thesis by (intro accept) (auto simp: IPREASM_CAP_def)
  qed
qed

lemma ipreasm_input_inv:
  assumes "ipreasm_inv t" "ipreasm_input t now tm key x off payload out_cap = (res, t')"
  shows "ipreasm_inv t'"
  using assms(2)
proof (cases rule: ipreasm_input_cases)
  case (accept i t1)
  from frag_slot_inv [OF assms(1) accept(1)] accept show ?thesis by (auto intro: frag_accept_inv)
qed (use assms(1) in simp)

section \<open>Properties\<close>

inductive reassembling :: "ipreasm \<Rightarrow> bool" where
  start: "reassembling ipreasm_init"
| fragment: "reassembling t \<Longrightarrow> reassembling (snd (ipreasm_input t now tm key x off payload out_cap))"
| sweep: "reassembling t \<Longrightarrow> reassembling (snd (ipreasm_sweep t now tm))"

lemma ipreasm_init_inv: "ipreasm_inv ipreasm_init"
  by (simp add: ipreasm_inv_def ipreasm_init_def IPREASM_MAX_ENTRIES_def)

text \<open>C18: whatever fragments arrive, in any order and with any lengths, offsets and clocks, the table
  keeps eight entries whose byte count is exactly the number of distinct bytes received and whose
  pinned length is within the 8192-byte cap.\<close>

theorem ipreasm_reachable_inv:
  assumes "reassembling t"
  shows "ipreasm_inv t"
  using assms
  by induction (auto intro: ipreasm_init_inv sweep_table ipreasm_input_inv [OF _ prod.collapse [symmetric]])

theorem ipreasm_reachable_inv_witness:
  "ipreasm_inv (snd (ipreasm_input ipreasm_init 0 30000 zero_key 0 16 [1, 2, 3, 4, 5, 6, 7, 8] 8192))"
  by (rule ipreasm_reachable_inv) (intro reassembling.intros)

text \<open>C19: the first writer wins.  A byte already received for a tracked datagram keeps its value and
  stays received whatever fragment comes next, and a fragment that disagrees with any received
  byte is refused.\<close>

theorem ipreasm_first_writer_wins:
  assumes "ipreasm_inv t" and "find_entry (snd (ipreasm_sweep t now tm)) key = Some i"
    and "off + length payload \<le> 8192"
    and "ipreasm_input t now tm key x off payload out_cap = (res, t')"
  defines "e \<equiv> rt_e (snd (ipreasm_sweep t now tm)) ! i"
  shows "(\<forall>p. received e p \<longrightarrow> received (rt_e t' ! i) p \<and> en_data (rt_e t' ! i) p = en_data e p) \<and>
    ((\<exists>p. off \<le> p \<and> p < off + length payload \<and> received e p \<and> payload ! (p - off) \<noteq> en_data e p)
      \<longrightarrow> res = IPREASM_REFUSED)"
proof -
  let ?s = "snd (ipreasm_sweep t now tm)"
  have s: "ipreasm_inv ?s" by (rule sweep_table(2) [OF assms(1)])
  have i: "i < 8" "i < length (rt_e ?s)" using find_entry_Some [OF assms(2)] s by (auto simp: ipreasm_inv_def)
  show ?thesis
  proof (cases "length payload = 0 \<or> off mod 8 \<noteq> 0 \<or> x > IPREASM_CAP \<or> (x \<noteq> 0 \<and> off + length payload \<noteq> x)")
    case True
    have "rt_e t' ! i = e \<or> rt_e t' = rt_e t" "res = IPREASM_REFUSED"
      using True assms(3,4) by (auto simp: ipreasm_input_def Let_def e_def IPREASM_CAP_def split: if_splits)
    moreover have "received (rt_e t ! i) = received e" "en_data (rt_e t ! i) = en_data e"
      using i by (auto simp: e_def ipreasm_sweep_def Let_def)
    ultimately show ?thesis by auto
  next
    case False
    with assms(2-4) have acc: "frag_accept ?s i x off payload out_cap = (res, t')" and x: "x \<le> 8192"
      by (auto simp: ipreasm_input_def Let_def IPREASM_CAP_def)
    from s i(1) x assms(3) acc show ?thesis
    proof (cases rule: frag_accept_cases)
      case (refused e1)
      with i show ?thesis by (simp add: e_def)
    next
      case (stored e2)
      have "payload ! (p - off) = en_data e p" if "off \<le> p" "p < off + length payload" "received e p" for p
      proof -
        have "frag_pos off (p - off) = p" using that assms(3) by (simp add: frag_pos_def)
        moreover have "p - off < length payload" using that by linarith
        ultimately show ?thesis using stored(4) that
          by (force simp: frag_conflict_def list_ex_iff received_def e_def)
      qed
      with stored i show ?thesis by (auto simp: e_def)
    qed
  qed
qed

section \<open>Completion\<close>

lemma count_interval: "b \<le> n \<Longrightarrow> count_upto (\<lambda>p. a \<le> p \<and> p < b) n = b - a"
proof -
  assume "b \<le> n"
  then have "{i. i < n \<and> a \<le> i \<and> i < b} = {a..<b}" by auto
  then show ?thesis by (simp add: count_upto_def)
qed

lemma full_prefix:
  assumes "entry_ok e" "have_bytes e = n" "\<forall>p. received e p \<longrightarrow> p < n" "p < n"
  shows "received e p"
proof -
  have n: "n \<le> 8192" using assms(1,2) count_upto_le by (auto simp: entry_ok_def)
  have "{i. i < 8192 \<and> received e i} = {i. i < n \<and> received e i}" using assms(3) n by auto
  then have "count_upto (received e) n = n" using assms(1,2) by (simp add: entry_ok_def count_upto_def)
  then show ?thesis using count_upto_full [of "received e" n] assms(4) by simp
qed

text \<open>C20: when a datagram completes and none of its earlier fragments reached past the final length,
  every byte of it was received, and the datagram delivered carries for each byte the first value
  received for it.\<close>

theorem ipreasm_complete_sound:
  assumes "ipreasm_inv t" and "ipreasm_input t now tm key x off payload out_cap = (IPREASM_COMPLETE out n, t')"
    and "frag_slot t now tm key = (i, t1)" and "\<forall>p. received (rt_e t1 ! i) p \<longrightarrow> p < n"
  shows "length out = min out_cap n \<and>
    (\<forall>p < n. received (rt_e t1 ! i) p \<or> off \<le> p \<and> p < off + length payload) \<and>
    (\<forall>p < length out. out ! p =
      (if received (rt_e t1 ! i) p then en_data (rt_e t1 ! i) p else payload ! (p - off)))"
  using assms(2)
proof (cases rule: ipreasm_input_cases)
  case (accept i' t1')
  then have acc: "frag_accept t1 i x off payload out_cap = (IPREASM_COMPLETE out n, t')"
    using assms(3) by simp
  note inv = frag_slot_inv [OF assms(1,3)]
  from inv(2,1) accept(2,3) acc show ?thesis
  proof (cases rule: frag_accept_cases)
    case (stored e2)
    from stored(7) have fin: "have_bytes e2 = n" "expected_len e2 = n" "n \<noteq> 0"
      "out = map (en_data e2) [0..<min out_cap n]" by (auto split: if_splits)
    have "\<forall>p. received e2 p \<longrightarrow> p < n" using stored(5,8) assms(4) fin by auto
    from full_prefix [OF stored(3) fin(1) this] have all: "\<forall>p < n. received e2 p" by blast
    then show ?thesis using stored(5,6) fin(4) by (auto)
  qed simp
qed simp

section \<open>An example\<close>

definition fresh0 :: ipreasm_entry where
  "fresh0 = zero_entry\<lparr>en_used := True, en_key := zero_key, first_seen_ms := 0\<rparr>"

definition demo_frag1 :: ipreasm where
  "demo_frag1 = snd (ipreasm_input ipreasm_init 0 30000 zero_key 0 16 [1, 2, 3, 4, 5, 6, 7, 8] 8192)"

lemma no_conflict:
  "off + length payload \<le> 8192 \<Longrightarrow>
   (\<forall>p. off \<le> p \<and> p < off + length payload \<longrightarrow> \<not> received e p) \<Longrightarrow> \<not> frag_conflict e off payload"
  by (auto simp: frag_conflict_def list_ex_iff received_def frag_pos_def IPREASM_CAP_def)

lemma frag_slot_init: "frag_slot ipreasm_init 0 30000 zero_key = (0, ipreasm_init\<lparr>rt_e := fresh0 # replicate 7 zero_entry\<rparr>)"
proof -
  have "map (\<lambda>e. if en_used e \<and> entry_expired e 0 30000 then e\<lparr>en_used := False\<rparr> else e)
      (replicate 8 zero_entry) = replicate 8 zero_entry" by (simp add: zero_entry_def)
  then have "snd (ipreasm_sweep ipreasm_init 0 30000) = ipreasm_init"
    by (simp add: ipreasm_sweep_def ipreasm_init_def Let_def IPREASM_MAX_ENTRIES_def)
      (simp add: zero_entry_def)
  moreover have "find_entry ipreasm_init zero_key = None"
    by (auto simp: find_entry_def ipreasm_init_def IPREASM_MAX_ENTRIES_def find_None_iff zero_entry_def)
  moreover have "replicate 8 zero_entry = zero_entry # replicate 7 zero_entry"
    by (simp add: numeral_eq_Suc)
  moreover have "\<not> en_used zero_entry" by (simp add: zero_entry_def)
  ultimately show ?thesis
    by (simp add: frag_slot_def Let_def make_entry_def ipreasm_init_def IPREASM_MAX_ENTRIES_def fresh0_def)
qed

lemma input_via_slot:
  assumes "length payload \<noteq> 0" "off mod 8 = 0" "off + length payload \<le> 8192" "x \<le> 8192"
    "x \<noteq> 0 \<longrightarrow> off + length payload = x" "frag_slot t now tm key = (i, t1)"
  shows "ipreasm_input t now tm key x off payload out_cap = frag_accept t1 i x off payload out_cap"
  using assms by (auto simp: ipreasm_input_def Let_def frag_slot_def IPREASM_CAP_def split: option.splits prod.splits)

abbreviation demo_pl :: "byte list" where "demo_pl \<equiv> [1, 2, 3, 4, 5, 6, 7, 8]"

definition demo_entry :: ipreasm_entry where
  "demo_entry = frag_write 16 demo_pl fresh0"

lemma demo_entry_facts:
  "entry_ok demo_entry" "received demo_entry p \<longleftrightarrow> 16 \<le> p \<and> p < 24" "expected_len demo_entry = 0"
  "p < 16 \<Longrightarrow> en_data demo_entry p = 0" "en_used demo_entry" "en_key demo_entry = zero_key"
  "en_data demo_entry 16 = 1"
proof -
  have ok: "entry_ok fresh0" by (simp add: fresh0_def)
  have f: "\<not> received fresh0 p" "expected_len fresh0 = 0" "en_data fresh0 p = 0" "en_used fresh0"
    "en_key fresh0 = zero_key" for p
    by (simp_all add: fresh0_def) (simp_all add: zero_entry_def)
  note w = frag_write_spec [OF _ ok, of 16 demo_pl, folded demo_entry_def]
  show "entry_ok demo_entry" "received demo_entry p \<longleftrightarrow> 16 \<le> p \<and> p < 24" "expected_len demo_entry = 0"
    "p < 16 \<Longrightarrow> en_data demo_entry p = 0" "en_used demo_entry" "en_key demo_entry = zero_key"
    "en_data demo_entry 16 = 1"
    using w f by simp_all
qed

lemma demo_frag1_eq: "demo_frag1 = ipreasm_init\<lparr>rt_e := demo_entry # replicate 7 zero_entry\<rparr>"
proof -
  have nc: "\<not> frag_conflict fresh0 16 demo_pl" by (rule no_conflict) (simp_all add: fresh0_def)
  have x: "expected_len fresh0 = 0" by (simp add: fresh0_def)
  have "ipreasm_input ipreasm_init 0 30000 zero_key 0 16 demo_pl 8192 =
      (IPREASM_PENDING, ipreasm_init\<lparr>rt_e := demo_entry # replicate 7 zero_entry\<rparr>)"
    using nc x demo_entry_facts(3)
    by (subst input_via_slot [OF _ _ _ _ _ frag_slot_init])
      (simp_all add: frag_accept_def demo_entry_def Let_def)
  then show ?thesis by (simp add: demo_frag1_def)
qed

lemma demo_frag1_inv: "ipreasm_inv demo_frag1"
  by (simp add: demo_frag1_eq ipreasm_inv_def demo_entry_facts)

lemma demo_frag1_swept: "snd (ipreasm_sweep demo_frag1 0 30000) = demo_frag1"
proof -
  have "\<not> entry_expired demo_entry 0 30000"
  proof -
    have "first_seen_ms (fold (write_step 16 demo_pl) is e) = first_seen_ms e" for "is" e
      by (induction "is" arbitrary: e) (auto simp: write_step_def Let_def)
    then have "first_seen_ms demo_entry = first_seen_ms fresh0"
      by (simp only: demo_entry_def frag_write_fold)
    then have "first_seen_ms demo_entry = 0" by (simp add: fresh0_def)
    then show ?thesis by (simp add: entry_expired_def)
  qed
  moreover have "\<not> en_used zero_entry" by (simp add: zero_entry_def)
  ultimately show ?thesis
    by (simp add: ipreasm_sweep_def demo_frag1_eq Let_def)
qed

lemma demo_frag1_find: "find_entry demo_frag1 zero_key = Some 0"
proof -
  have "[0..<8] = (0::nat) # [1..<8]" by (simp add: upt_rec)
  then show ?thesis
    by (simp add: find_entry_def IPREASM_MAX_ENTRIES_def demo_frag1_eq demo_entry_facts key_eq_def)
qed

lemma demo_frag1_slot: "frag_slot demo_frag1 0 30000 zero_key = (0, demo_frag1)"
  by (simp add: frag_slot_def demo_frag1_swept demo_frag1_find)

theorem ipreasm_first_writer_wins_witness:
  "fst (ipreasm_input demo_frag1 0 30000 zero_key 0 16 [99] 8192) = IPREASM_REFUSED"
proof -
  obtain res t' where r: "ipreasm_input demo_frag1 0 30000 zero_key 0 16 [99] 8192 = (res, t')" by fastforce
  have "find_entry (snd (ipreasm_sweep demo_frag1 0 30000)) zero_key = Some 0"
    by (simp add: demo_frag1_swept demo_frag1_find)
  note fw = ipreasm_first_writer_wins [OF demo_frag1_inv this _ r]
  have "rt_e demo_frag1 ! 0 = demo_entry" by (simp add: demo_frag1_eq)
  with fw have "(\<exists>p. 16 \<le> p \<and> p < 17 \<and> received demo_entry p \<and> [99] ! (p - 16) \<noteq> en_data demo_entry p)
      \<longrightarrow> res = IPREASM_REFUSED"
    by (simp add: demo_frag1_swept)
  moreover have "16 \<le> (16::nat) \<and> (16::nat) < 17 \<and> received demo_entry 16 \<and> [99] ! (16 - 16) \<noteq> en_data demo_entry 16"
    by (simp add: demo_entry_facts)
  ultimately show ?thesis using r by auto
qed

lemma demo_frag2:
  assumes "length pl = 16 - off" "off = 0 \<or> off = 8" "x = 16 \<or> x = 0" "x = 16 \<longrightarrow> off + length pl = 16"
  defines "w \<equiv> frag_write off pl (if x \<noteq> 0 then demo_entry\<lparr>expected_len := x\<rparr> else demo_entry)"
  shows "fst (ipreasm_input demo_frag1 0 30000 zero_key x off pl 8192) =
      (if x \<noteq> 0 \<and> have_bytes w = x then IPREASM_COMPLETE (map (en_data w) [0..<x]) x else IPREASM_PENDING)"
    and "have_bytes w = 24 - off"
proof -
  let ?e = "if x \<noteq> 0 then demo_entry\<lparr>expected_len := x\<rparr> else demo_entry"
  have e: "entry_ok ?e" "received ?e = received demo_entry" "expected_len ?e = x" "en_data ?e = en_data demo_entry"
    using assms(3) demo_entry_facts(1,3) by auto
  have nc: "\<not> frag_conflict ?e off pl"
    using assms(1,2) by (intro no_conflict) (auto simp: e(2) demo_entry_facts)
  have le: "off + length pl \<le> 8192" using assms(1,2) by auto
  note w = frag_write_spec [OF le e(1), folded w_def]
  have "received w = (\<lambda>p. off \<le> p \<and> p < 24)"
    using w(2) assms(1,2) by (auto simp: fun_eq_iff e(2) demo_entry_facts)
  then show "have_bytes w = 24 - off"
    using w(1) count_interval [of 24 8192 off] by (simp add: entry_ok_def)
  have l: "length pl \<noteq> 0" "off mod 8 = 0" "x \<le> 8192" "x \<noteq> 0 \<longrightarrow> off + length pl = x"
    using assms(1-4) by auto
  note in_slot = input_via_slot [OF l(1,2) le l(3,4) demo_frag1_slot, of 8192]
  have hd: "rt_e demo_frag1 ! 0 = demo_entry" "rt_e demo_frag1 = demo_entry # replicate 7 zero_entry"
    by (simp_all add: demo_frag1_eq)
  show "fst (ipreasm_input demo_frag1 0 30000 zero_key x off pl 8192) =
      (if x \<noteq> 0 \<and> have_bytes w = x then IPREASM_COMPLETE (map (en_data w) [0..<x]) x else IPREASM_PENDING)"
    using nc w(4) e(3) l(3,4) demo_entry_facts(3)
    unfolding in_slot by (auto simp: frag_accept_def Let_def hd w_def)
qed

text \<open>C21: a datagram can be reported complete although a part of it never arrived.  Bytes past the
  final length, received before the last fragment pinned it, still count: after a fragment at
  offset 16, a last fragment at offset 8 completes a 16-byte datagram whose first eight bytes were
  in no fragment; they are delivered as zeros.\<close>

theorem ipreasm_complete_with_hole:
  "fst (ipreasm_input
      (snd (ipreasm_input ipreasm_init 0 30000 zero_key 0 16 [1, 2, 3, 4, 5, 6, 7, 8] 8192))
      0 30000 zero_key 16 8 (replicate 8 9) 8192) =
   IPREASM_COMPLETE (replicate 8 0 @ replicate 8 9) 16"
proof -
  let ?w = "frag_write 8 (replicate 8 9) (demo_entry\<lparr>expected_len := 16\<rparr>)"
  have e: "entry_ok (demo_entry\<lparr>expected_len := 16\<rparr>)" by (simp add: demo_entry_facts)
  have d: "en_data ?w p = (if 8 \<le> p then 9 else 0)" if "p < 16" for p
    using frag_write_spec(3) [OF _ e, of 8 "replicate 8 9" p] that by (auto simp: demo_entry_facts)
  have "map (en_data ?w) [0..<16] = map (\<lambda>p. if 8 \<le> p then 9 else 0) [0..<16]"
    using d by (intro map_cong) auto
  also have "\<dots> = replicate 8 0 @ replicate 8 9" by (simp add: upt_rec numeral_eq_Suc)
  finally show ?thesis
    using demo_frag2 [of "replicate 8 9" 8 16] by (simp add: demo_frag1_def [symmetric])
qed

lemma demo_single:
  "ipreasm_input ipreasm_init 0 30000 zero_key 8 0 (replicate 8 7) 8192 =
     (IPREASM_COMPLETE (map (en_data (frag_write 0 (replicate 8 7) (fresh0\<lparr>expected_len := 8\<rparr>))) [0..<8]) 8,
      snd (ipreasm_input ipreasm_init 0 30000 zero_key 8 0 (replicate 8 7) 8192))"
proof -
  let ?e = "fresh0\<lparr>expected_len := 8\<rparr>" and ?pl = "replicate 8 (7::byte)"
  have e: "entry_ok ?e" "expected_len fresh0 = 0" "\<not> received ?e p" for p by (simp_all add: fresh0_def)
  note w = frag_write_spec [OF _ e(1), of 0 ?pl]
  have "received (frag_write 0 ?pl ?e) = (\<lambda>p. 0 \<le> p \<and> p < 8)" using w(2) e(3) by (auto simp: fun_eq_iff)
  then have h: "have_bytes (frag_write 0 ?pl ?e) = 8" "expected_len (frag_write 0 ?pl ?e) = 8"
    using w(1,4) count_interval [of 8 8192 0] by (simp_all add: entry_ok_def)
  have "\<not> frag_conflict ?e 0 ?pl" using e(3) by (intro no_conflict) auto
  with h e(2) have "fst (ipreasm_input ipreasm_init 0 30000 zero_key 8 0 ?pl 8192) =
      IPREASM_COMPLETE (map (en_data (frag_write 0 ?pl ?e)) [0..<8]) 8"
    by (subst input_via_slot [OF _ _ _ _ _ frag_slot_init]) (simp_all add: frag_accept_def Let_def)
  then show ?thesis by (simp add: prod_eq_iff)
qed

theorem ipreasm_complete_sound_witness:
  "\<exists>out n t'. ipreasm_input ipreasm_init 0 30000 zero_key 8 0 (replicate 8 7) 8192 = (IPREASM_COMPLETE out n, t') \<and>
     length out = 8 \<and> (\<forall>p < length out. out ! p = 7)"
proof -
  have r: "\<not> received fresh0 p" for p by (simp add: fresh0_def)
  let ?out = "map (en_data (frag_write 0 (replicate 8 7) (fresh0\<lparr>expected_len := 8\<rparr>))) [0..<8]"
  have "length ?out = min 8192 8 \<and> (\<forall>p < length ?out. ?out ! p = replicate 8 7 ! p)"
    using ipreasm_complete_sound [OF ipreasm_init_inv demo_single frag_slot_init] r by simp
  moreover have "length ?out = 8" by simp
  ultimately have "length ?out = 8 \<and> (\<forall>p < length ?out. ?out ! p = 7)" by (metis nth_replicate)
  then show ?thesis using demo_single by blast
qed

end
