(* ===== verification/Ipv6Addr.thy ===== *)
theory Ipv6Addr
  imports Prelude
begin

text \<open>
  The IPv6 address helpers of \<open>kernel/net/ipv6_addr.c\<close>.  An address is its 16 bytes; a C string is
  the list of its characters without the terminator, and the end of the list plays the role of the
  terminating \<open>NUL\<close>.  Group values are 16-bit numbers.  \<open>None\<close> is the return value -1.
\<close>

section \<open>Text to bytes\<close>

definition IPV6_ADDR_LEN :: nat where "IPV6_ADDR_LEN = 16"

type_synonym ipv6_addr = "byte list"

definition hexval :: "char \<Rightarrow> nat option" where
  "hexval c =
     (let n = of_char c :: nat in
      if 48 \<le> n \<and> n \<le> 57 then Some (n - 48)
      else if 97 \<le> n \<and> n \<le> 102 then Some (n - 97 + 10)
      else if 65 \<le> n \<and> n \<le> 70 then Some (n - 65 + 10)
      else None)"

text \<open>The scanning loop: the rest of the text, the groups so far, the position of \<open>::\<close>, the value of
  the group being read and whether the last character was a lone separator.\<close>

fun pton_loop :: "string \<Rightarrow> nat list \<Rightarrow> nat option \<Rightarrow> nat option \<Rightarrow> bool \<Rightarrow> (nat list \<times> nat option) option" where
  "pton_loop [] g dc (Some v) trailing_sep = (if length g \<ge> 8 then None else Some (g @ [v], dc))"
| "pton_loop [] g dc None trailing_sep = (if trailing_sep then None else Some (g, dc))"
| "pton_loop (c # p) g dc val trailing_sep =
     (if c = CHR '':''
      then (case val of
              Some v \<Rightarrow>
                if length g \<ge> 8 then None
                else let g = g @ [v] in
                  (case p of
                     c2 # p2 \<Rightarrow>
                       if c2 = CHR '':''
                       then (if dc \<noteq> None then None else pton_loop p2 g (Some (length g)) None False)
                       else pton_loop p g dc None True
                   | [] \<Rightarrow> pton_loop p g dc None True)
            | None \<Rightarrow>
                (case p of
                   c2 # p2 \<Rightarrow>
                     if c2 = CHR '':''
                     then (if dc \<noteq> None then None else pton_loop p2 g (Some (length g)) None trailing_sep)
                     else None
                 | [] \<Rightarrow> None))
      else (case hexval c of
              None \<Rightarrow> None
            | Some d \<Rightarrow>
                let val' = (case val of None \<Rightarrow> d | Some v \<Rightarrow> v * 16 + d) in
                if val' > 0xFFFF then None else pton_loop p g dc (Some val') trailing_sep))"

definition group_bytes :: "nat \<Rightarrow> byte list" where
  "group_bytes g = [of_nat (g div 256), of_nat (g mod 256)]"

definition ipv6_pton :: "string \<Rightarrow> ipv6_addr option" where
  "ipv6_pton s =
     (case pton_loop s [] None None False of
        None \<Rightarrow> None
      | Some (g, Some dc) \<Rightarrow>
          if 8 - int (length g) < 1 then None
          else Some (concat (map group_bytes (take dc g)) @ replicate ((8 - length g) * 2) 0 @
                     concat (map group_bytes (drop dc g)))
      | Some (g, None) \<Rightarrow>
          if length g \<noteq> 8 then None else Some (concat (map group_bytes g)))"

section \<open>Bytes to text\<close>

definition groups :: "ipv6_addr \<Rightarrow> nat list" where
  "groups a = map (\<lambda>i. unat (a ! (i * 2)) * 256 + unat (a ! (i * 2 + 1))) [0..<8]"

function run_end :: "nat list \<Rightarrow> nat \<Rightarrow> nat" where
  "run_end g j = (if j < 8 \<and> g ! j = 0 then run_end g (j + 1) else j)"
  by pat_completeness auto
termination
  by (relation "measure (\<lambda>(g, j). 8 - j)") auto

declare run_end.simps [simp del]

lemma run_end_ge: "j \<le> run_end g j"
  by (induction g j rule: run_end.induct) (subst run_end.simps, auto)

text \<open>The search for the longest run of zero groups; (0, 0) stands for no run.\<close>

function best_run :: "nat list \<Rightarrow> nat \<Rightarrow> nat \<Rightarrow> nat \<Rightarrow> nat \<times> nat" where
  "best_run g i best_start best_len =
     (if i < 8 then
        (if g ! i = 0 then
           let j = run_end g i; len = j - i in
           if len \<ge> 2 \<and> len > best_len then best_run g j i len
           else best_run g j best_start best_len
         else best_run g (i + 1) best_start best_len)
      else (best_start, best_len))"
  by pat_completeness auto
termination
proof (relation "measure (\<lambda>(g, i, s, l). 8 - i)")
  fix g :: "nat list" and i s l x y
  assume "i < 8" "g ! i = 0" "x = run_end g i"
  moreover have "run_end g i = run_end g (i + 1)"
    using \<open>i < 8\<close> \<open>g ! i = 0\<close> by (subst run_end.simps) simp
  ultimately have "i < x" using run_end_ge [of "i + 1" g] by simp
  then show "((g, x, i, y), (g, i, s, l)) \<in> measure (\<lambda>(g, i, s, l). 8 - i)"
    "((g, x, s, l), (g, i, s, l)) \<in> measure (\<lambda>(g, i, s, l). 8 - i)"
    using \<open>i < 8\<close> by auto
qed auto

declare best_run.simps [simp del]

definition hexdigit :: "nat \<Rightarrow> char" where
  "hexdigit d = ''0123456789abcdef'' ! d"

text \<open>The digits of a group, least significant first, as the do-while loop leaves them in \<open>tmp\<close>.\<close>

function tmp_digits :: "nat \<Rightarrow> string" where
  "tmp_digits v = hexdigit (v mod 16) # (if v div 16 \<noteq> 0 then tmp_digits (v div 16) else [])"
  by pat_completeness auto
termination
  by (relation "measure id") auto

declare tmp_digits.simps [simp del]

definition emit :: "nat \<Rightarrow> char \<Rightarrow> string \<Rightarrow> string option" where
  "emit buflen c buf = (if length buf + 1 \<ge> buflen then None else Some (buf @ [c]))"

fun emits :: "nat \<Rightarrow> string \<Rightarrow> string \<Rightarrow> string option" where
  "emits buflen [] buf = Some buf"
| "emits buflen (c # cs) buf =
     (case emit buflen c buf of None \<Rightarrow> None | Some buf' \<Rightarrow> emits buflen cs buf')"

function ntop_loop :: "nat \<Rightarrow> nat list \<Rightarrow> nat \<Rightarrow> nat \<Rightarrow> nat \<Rightarrow> bool \<Rightarrow> string \<Rightarrow> string option" where
  "ntop_loop buflen g best_start best_len i compressed buf =
     (if i < 8 then
        (if best_len > 0 \<and> i = best_start
         then (case emits buflen '':'' buf of
                 None \<Rightarrow> None
               | Some buf1 \<Rightarrow>
                   (case emits buflen '':'' buf1 of
                      None \<Rightarrow> None
                    | Some buf2 \<Rightarrow> ntop_loop buflen g best_start best_len (i + best_len) True buf2))
         else (case emits buflen (if i > 0 \<and> \<not> compressed then '':'' else []) buf of
                 None \<Rightarrow> None
               | Some buf1 \<Rightarrow>
                   (case emits buflen (rev (tmp_digits (g ! i))) buf1 of
                      None \<Rightarrow> None
                    | Some buf2 \<Rightarrow> ntop_loop buflen g best_start best_len (i + 1) False buf2)))
      else Some buf)"
  by pat_completeness auto
termination
  by (relation "measure (\<lambda>(bl, g, s, l, i, c, b). 8 - i)") auto

declare ntop_loop.simps [simp del]

definition ipv6_ntop :: "ipv6_addr \<Rightarrow> nat \<Rightarrow> string option" where
  "ipv6_ntop a buflen =
     (if buflen = 0 then None
      else case best_run (groups a) 0 0 0 of (best_start, best_len) \<Rightarrow>
        (case ntop_loop buflen (groups a) best_start best_len 0 False [] of
           None \<Rightarrow> None
         | Some buf \<Rightarrow> if length buf + 1 \<ge> buflen then None else Some buf))"

section \<open>Classification and checksum\<close>

definition ipv6_linklocal_from_mac :: "byte list \<Rightarrow> ipv6_addr" where
  "ipv6_linklocal_from_mac mac =
     [0xFE, 0x80] @ replicate 6 0 @
     [mac ! 0 XOR 0x02, mac ! 1, mac ! 2, 0xFF, 0xFE, mac ! 3, mac ! 4, mac ! 5]"

definition ipv6_is_unspecified :: "ipv6_addr \<Rightarrow> bool" where
  "ipv6_is_unspecified a \<longleftrightarrow> list_all (\<lambda>i. a ! i = 0) [0..<IPV6_ADDR_LEN]"

definition ipv6_is_loopback :: "ipv6_addr \<Rightarrow> bool" where
  "ipv6_is_loopback a \<longleftrightarrow> list_all (\<lambda>i. if i = 15 then a ! i = 1 else a ! i = 0) [0..<IPV6_ADDR_LEN]"

definition ipv6_is_linklocal :: "ipv6_addr \<Rightarrow> bool" where
  "ipv6_is_linklocal a \<longleftrightarrow> a ! 0 = 0xFE \<and> (a ! 1) AND 0xC0 = 0x80"

text \<open>The C library's \<open>memcmp\<close> over equally long arrays: the first difference.\<close>

fun memcmp :: "byte list \<Rightarrow> byte list \<Rightarrow> int" where
  "memcmp (x # xs) (y # ys) = (if x \<noteq> y then int (unat x) - int (unat y) else memcmp xs ys)"
| "memcmp _ _ = 0"

definition ipv6_eq :: "ipv6_addr \<Rightarrow> ipv6_addr \<Rightarrow> int" where
  "ipv6_eq a b = memcmp (take IPV6_ADDR_LEN a) (take IPV6_ADDR_LEN b)"

text \<open>Big-endian 16-bit words summed in a 32-bit accumulator, an odd last byte in the high half.\<close>

fun word_sum :: "byte list \<Rightarrow> nat \<Rightarrow> nat" where
  "word_sum (x # y # p) acc = word_sum p (add32 acc (unat x * 256 + unat y))"
| "word_sum [x] acc = add32 acc (unat x * 256)"
| "word_sum [] acc = acc"

function fold16 :: "nat \<Rightarrow> nat" where
  "fold16 acc = (if acc div 2 ^ 16 \<noteq> 0 then fold16 (acc mod 2 ^ 16 + acc div 2 ^ 16) else acc)"
  by pat_completeness auto
termination
proof (relation "measure id")
  fix acc :: nat
  assume "acc div 2 ^ 16 \<noteq> 0"
  then have "0 < acc div 65536" by simp
  moreover have "acc mod 65536 + 65536 * (acc div 65536) = acc" by (rule mod_mult_div_eq)
  ultimately have "acc mod 65536 + acc div 65536 < acc" by linarith
  then show "(acc mod 2 ^ 16 + acc div 2 ^ 16, acc) \<in> measure id" by simp
qed simp

declare fold16.simps [simp del]

definition ones_complement_sum :: "byte list \<Rightarrow> nat" where
  "ones_complement_sum data = fold16 (word_sum data 0)"

definition pseudo_header :: "ipv6_addr \<Rightarrow> ipv6_addr \<Rightarrow> u32 \<Rightarrow> byte \<Rightarrow> byte list" where
  "pseudo_header src dst len next_header =
     src @ dst @ [ucast (drop_bit 24 len), ucast (drop_bit 16 len), ucast (drop_bit 8 len), ucast len,
       0, 0, 0, next_header]"

definition ipv6_checksum_pseudo :: "ipv6_addr \<Rightarrow> ipv6_addr \<Rightarrow> u32 \<Rightarrow> byte \<Rightarrow> byte list \<Rightarrow> nat" where
  "ipv6_checksum_pseudo src dst len next_header msg =
     (let acc = add32 (ones_complement_sum (pseudo_header src dst len next_header)) (ones_complement_sum msg)
      in 0xFFFF - fold16 acc)"

end
