(* ===== verification/Ipv6Addr_Props.thy ===== *)
theory Ipv6Addr_Props
  imports Ipv6Addr
begin

text \<open>
  Printing an IPv6 address and parsing the text gives the address back, for all 16-byte addresses;
  and the checksum makes the one's-complement sum of the packet come out right.
\<close>

section \<open>Hexadecimal groups\<close>

lemma hexdigit_val: "d < 16 \<Longrightarrow> hexval (hexdigit d) = Some d \<and> hexdigit d \<noteq> CHR '':''"
proof -
  have "\<forall>d \<in> set [0..<16]. hexval (hexdigit d) = Some d \<and> hexdigit d \<noteq> CHR '':''" by code_simp
  then show "d < 16 \<Longrightarrow> ?thesis" by simp
qed

definition hex :: "nat \<Rightarrow> string" where
  "hex v = rev (tmp_digits v)"

lemma hex_rec: "hex v = (if v div 16 \<noteq> 0 then hex (v div 16) else []) @ [hexdigit (v mod 16)]"
  by (simp add: hex_def tmp_digits.simps [of v])

lemma hex_not_Nil [simp]: "hex v \<noteq> []"
  by (subst hex_rec) simp

lemma pton_digit:
  assumes "d < 16" "v * 16 + d \<le> 0xFFFF"
  shows "pton_loop (hexdigit d # p) g dc (Some v) t = pton_loop p g dc (Some (v * 16 + d)) t"
  using hexdigit_val [OF assms(1)] assms(2) by simp

lemma pton_hex:
  "v \<le> 0xFFFF \<Longrightarrow> pton_loop (hex v @ p) g dc None t = pton_loop p g dc (Some v) t"
proof (induction v arbitrary: p rule: less_induct)
  case (less v)
  show ?case
  proof (cases "v div 16 = 0")
    case True
    then have "hex v = [hexdigit v]" "v < 16" by (simp_all add: hex_rec [of v])
    then show ?thesis using hexdigit_val [of v] by simp
  next
    case False
    then have "pton_loop (hex v @ p) g dc None t =
        pton_loop (hex (v div 16) @ hexdigit (v mod 16) # p) g dc None t"
      by (subst hex_rec) simp
    also have "\<dots> = pton_loop (hexdigit (v mod 16) # p) g dc (Some (v div 16)) t"
      using False less.prems by (intro less.IH) (auto simp: div_le_dividend)
    also have "\<dots> = pton_loop p g dc (Some (v div 16 * 16 + v mod 16)) t"
      using less.prems by (intro pton_digit) auto
    finally show ?thesis by simp
  qed
qed

lemma hex_hd: "\<exists>c cs. hex v = c # cs \<and> c \<noteq> CHR '':''"
proof (induction v rule: less_induct)
  case (less v)
  show ?case
  proof (cases "v div 16 = 0")
    case True
    then show ?thesis using hexdigit_val [of v] by (simp add: hex_rec [of v])
  next
    case False
    then obtain c cs where "hex (v div 16) = c # cs" "c \<noteq> CHR '':''" using less [of "v div 16"] by auto
    with False show ?thesis by (simp add: hex_rec [of v])
  qed
qed

section \<open>Groups joined by colons\<close>

fun more :: "nat list \<Rightarrow> string" where
  "more [] = []"
| "more (x # xs) = CHR '':'' # hex x @ more xs"

fun join :: "nat list \<Rightarrow> string" where
  "join [] = []"
| "join (x # xs) = hex x @ more xs"

text \<open>A separator pushes the group read so far.\<close>

lemma pton_sep:
  assumes "length g < 8" "x \<le> 0xFFFF"
  shows "pton_loop (CHR '':'' # hex x @ p) g dc (Some v) t = pton_loop p (g @ [v]) dc (Some x) True"
proof -
  obtain c cs where c: "hex x = c # cs" "c \<noteq> CHR '':''" using hex_hd by blast
  have "pton_loop (CHR '':'' # hex x @ p) g dc (Some v) t = pton_loop (hex x @ p) (g @ [v]) dc None True"
    using assms(1) c by simp
  with pton_hex [OF assms(2)] show ?thesis by simp
qed

lemma pton_more:
  assumes "length g + length xs < 8" "\<forall>x \<in> set xs. x \<le> 0xFFFF"
  shows "pton_loop (more xs @ p) g dc (Some v) t =
    pton_loop p (g @ butlast (v # xs)) dc (Some (last (v # xs))) (t \<or> xs \<noteq> [])"
  using assms
proof (induction xs arbitrary: g v t)
  case (Cons x xs)
  have "pton_loop (more (x # xs) @ p) g dc (Some v) t = pton_loop (more xs @ p) (g @ [v]) dc (Some x) True"
    using pton_sep [of g x "more xs @ p"] Cons.prems by simp
  with Cons.IH [of "g @ [v]" x True] Cons.prems show ?case by simp
qed simp

lemma pton_join:
  assumes "length g + length xs \<le> 8" "\<forall>x \<in> set xs. x \<le> 0xFFFF"
  shows "pton_loop (join xs) g dc None False = Some (g @ xs, dc)"
proof (cases xs)
  case (Cons x ys)
  then have "pton_loop (join xs) g dc None False = pton_loop (more ys @ []) g dc (Some x) False"
    using pton_hex [of x "more ys"] assms(2) by simp
  also have "\<dots> = pton_loop [] (g @ butlast (x # ys)) dc (Some (last (x # ys))) (ys \<noteq> [])"
    using pton_more [of g ys "[]" dc x False] assms Cons by simp
  also have "\<dots> = Some (g @ xs, dc)" using assms(1) Cons by simp
  finally show ?thesis .
qed simp

lemma pton_compressed:
  assumes "length pre + length post \<le> 7" "\<forall>x \<in> set (pre @ post). x \<le> 0xFFFF"
  shows "pton_loop (join pre @ ''::'' @ join post) [] None None False =
    Some (pre @ post, Some (length pre))"
proof (cases pre)
  case Nil
  then show ?thesis using pton_join [of "[]" post "Some 0"] assms by simp
next
  case (Cons x ys)
  have "pton_loop (join pre @ ''::'' @ join post) [] None None False =
      pton_loop (more ys @ ''::'' @ join post) [] None (Some x) False"
    using pton_hex [of x "more ys @ ''::'' @ join post"] Cons assms(2) by simp
  also have "\<dots> = pton_loop (''::'' @ join post) (butlast (x # ys)) None (Some (last (x # ys))) (ys \<noteq> [])"
    using pton_more [of "[]" ys "''::'' @ join post" None x False] Cons assms by simp
  also have "\<dots> = pton_loop (join post) (x # ys) (Some (Suc (length ys))) None False"
    using assms(1) Cons append_butlast_last_id [of "x # ys"] by simp
  also have "\<dots> = Some (pre @ post, Some (length pre))"
    using pton_join [of "x # ys" post] Cons assms by simp
  finally show ?thesis .
qed

section \<open>The zero run\<close>

lemma run_end_le: "j \<le> 8 \<Longrightarrow> run_end g j \<le> 8"
  by (induction g j rule: run_end.induct) (subst run_end.simps, auto)

lemma run_end_zero: "j \<le> k \<Longrightarrow> k < run_end g j \<Longrightarrow> g ! k = 0"
proof (induction g j rule: run_end.induct)
  case (1 g j)
  show ?case
  proof (cases "j < 8 \<and> g ! j = 0")
    case True
    then have "run_end g j = run_end g (j + 1)" by (subst run_end.simps) simp
    with 1 True show ?thesis by (cases "k = j") auto
  next
    case False
    then have "run_end g j = j" by (subst run_end.simps) auto
    with 1 show ?thesis by simp
  qed
qed

lemma best_run_zero:
  assumes "best_run g i s l = (bs, bl)" "l = 0 \<or> s + l \<le> 8 \<and> (\<forall>k. s \<le> k \<and> k < s + l \<longrightarrow> g ! k = 0)"
  shows "bl = 0 \<or> bs + bl \<le> 8 \<and> (\<forall>k. bs \<le> k \<and> k < bs + bl \<longrightarrow> g ! k = 0)"
  using assms
proof (induction g i s l rule: best_run.induct)
  case (1 g i s l)
  note step = best_run.simps [of g i s l]
  consider (stop) "\<not> i < 8" | (skip) "i < 8" "g ! i \<noteq> 0"
    | (take) "i < 8" "g ! i = 0" "run_end g i - i \<ge> 2 \<and> run_end g i - i > l"
    | (leave) "i < 8" "g ! i = 0" "\<not> (run_end g i - i \<ge> 2 \<and> run_end g i - i > l)" by blast
  then show ?case
  proof cases
    case take
    have "i + (run_end g i - i) \<le> 8" using take run_end_le [of i g] run_end_ge [of i g] by simp
    moreover have "\<forall>k. i \<le> k \<and> k < i + (run_end g i - i) \<longrightarrow> g ! k = 0"
      using run_end_zero [of i _ g] run_end_ge [of i g] by auto
    ultimately show ?thesis using 1(1) [OF take(1,2) refl refl] take 1(4) by (simp add: step Let_def)
  next
    case leave
    then have "best_run g i s l = best_run g (run_end g i) s l" by (subst step) (auto simp: Let_def)
    with 1(2) [OF leave(1,2) refl refl leave(3)] 1(4,5) show ?thesis by simp
  qed (use 1 in \<open>simp_all add: step\<close>)
qed

section \<open>What the printer writes\<close>

lemma emits_eq:
  "emits buflen cs buf = (if cs = [] \<or> length buf + length cs < buflen then Some (buf @ cs) else None)"
  by (induction cs arbitrary: buf) (auto simp: emit_def)

text \<open>The text from group \<open>i\<close> on.\<close>

function text_from :: "nat list \<Rightarrow> nat \<Rightarrow> nat \<Rightarrow> nat \<Rightarrow> bool \<Rightarrow> string" where
  "text_from g bs bl i c =
     (if i < 8 then
        (if bl > 0 \<and> i = bs then ''::'' @ text_from g bs bl (i + bl) True
         else (if i > 0 \<and> \<not> c then '':'' else []) @ hex (g ! i) @ text_from g bs bl (i + 1) False)
      else [])"
  by pat_completeness auto
termination
  by (relation "measure (\<lambda>(g, bs, bl, i, c). 8 - i)") auto

declare text_from.simps [simp del]

lemma text_from_comp:
  "i < 8 \<Longrightarrow> bl > 0 \<and> i = bs \<Longrightarrow> text_from g bs bl i c = ''::'' @ text_from g bs bl (i + bl) True"
  by (subst text_from.simps) simp

lemma text_from_grp:
  assumes "i < 8" "\<not> (bl > 0 \<and> i = bs)"
  shows "text_from g bs bl i c =
    (if i > 0 \<and> \<not> c then '':'' else []) @ hex (g ! i) @ text_from g bs bl (i + 1) False"
  by (subst text_from.simps, subst if_P [OF assms(1)], subst if_not_P [OF assms(2)]) (rule refl)

lemma ntop_loop_text:
  assumes "length buf < buflen"
  shows "ntop_loop buflen g bs bl i c buf =
    (if length buf + length (text_from g bs bl i c) < buflen then Some (buf @ text_from g bs bl i c) else None)"
  using assms
proof (induction buflen g bs bl i c buf rule: ntop_loop.induct)
  case (1 buflen g bs bl i c buf)
  note step = ntop_loop.simps [of buflen g bs bl i c buf] and tstep = text_from.simps [of g bs bl i c]
  consider (stop) "\<not> i < 8" | (comp) "i < 8" "bl > 0 \<and> i = bs" | (grp) "i < 8" "\<not> (bl > 0 \<and> i = bs)" by blast
  then show ?case
  proof cases
    case stop
    with 1(3) show ?thesis by (simp add: step tstep)
  next
    case comp
    show ?thesis
    proof (cases "length buf + 2 < buflen")
      case True
      then have e: "emits buflen '':'' buf = Some (buf @ '':'')"
        "emits buflen '':'' (buf @ '':'') = Some (buf @ ''::'')" by (auto simp: emits_eq)
      have "ntop_loop buflen g bs bl i c buf = ntop_loop buflen g bs bl (i + bl) True (buf @ ''::'')"
        "text_from g bs bl i c = ''::'' @ text_from g bs bl (i + bl) True"
        unfolding step tstep using comp e by simp_all
      with 1(1) [OF comp e] True show ?thesis by simp
    next
      case False
      have "text_from g bs bl i c = ''::'' @ text_from g bs bl (i + bl) True"
        "ntop_loop buflen g bs bl i c buf = None"
        unfolding step tstep using comp False by (auto simp: emits_eq)
      with False show ?thesis by simp
    qed
  next
    case grp
    let ?sep = "if i > 0 \<and> \<not> c then '':'' else []"
    let ?h = "rev (tmp_digits (g ! i))"
    have h: "?h = hex (g ! i)" by (simp add: hex_def)
    show ?thesis
    proof (cases "length buf + length ?sep + length ?h < buflen")
      case True
      then have e: "emits buflen ?sep buf = Some (buf @ ?sep)"
        "emits buflen ?h (buf @ ?sep) = Some (buf @ ?sep @ ?h)" by (auto simp: emits_eq)
      have "length (buf @ ?sep @ ?h) < buflen" using True by (simp only: length_append)
      from 1(2) [OF grp e this] grp show ?thesis
        by (simp only: step tstep e [unfolded h] option.case if_True if_False h append_assoc length_append add.assoc)
    next
      case False
      then have "(case emits buflen ?sep buf of None \<Rightarrow> None | Some b1 \<Rightarrow> emits buflen ?h b1) = None"
        by (auto simp: emits_eq h)
      then have "ntop_loop buflen g bs bl i c buf = None"
        using grp by (auto simp: step split: option.splits)
      moreover have "text_from g bs bl i c = ?sep @ ?h @ text_from g bs bl (i + 1) False"
        unfolding h by (rule text_from_grp [OF grp])
      ultimately show ?thesis using False by simp
    qed
  qed
qed

lemma text_from_after:
  assumes "length g = 8" "bl = 0 \<or> bs < i" "i \<le> 8"
  shows "text_from g bs bl i c = (if i > 0 \<and> \<not> c then more (drop i g) else join (drop i g))"
  using assms
proof (induction g bs bl i c rule: text_from.induct)
  case (1 g bs bl i c)
  show ?case
  proof (cases "i < 8")
    case True
    then have d: "drop i g = g ! i # drop (i + 1) g" using 1(3) by (simp add: Cons_nth_drop_Suc)
    have nc: "\<not> (bl > 0 \<and> i = bs)" using 1(4) by auto
    have "text_from g bs bl (i + 1) False = more (drop (i + 1) g)"
      using 1(2) [OF True nc 1(3)] 1(4) True by (auto intro: less_SucI)
    with True nc d show ?thesis by (subst text_from.simps) auto
  next
    case False
    then have "drop i g = []" using 1(3) by simp
    with False show ?thesis by (subst text_from.simps) auto
  qed
qed

lemma text_from_before:
  assumes "length g = 8" "0 < bl" "bs + bl \<le> 8" "i \<le> bs"
  shows "text_from g bs bl i False =
    (if i > 0 then more (take (bs - i) (drop i g)) else join (take (bs - i) (drop i g))) @ ''::'' @
    join (drop (bs + bl) g)"
  using assms(4)
proof (induction "bs - i" arbitrary: i)
  case 0
  then have "i = bs" "bs < 8" using assms(2,3) by auto
  have "text_from g bs bl i False = ''::'' @ text_from g bs bl (bs + bl) True"
    using \<open>i = bs\<close> \<open>bs < 8\<close> assms(2) by (subst text_from.simps) simp
  also have "text_from g bs bl (bs + bl) True = join (drop (bs + bl) g)"
    using text_from_after [of g bl bs "bs + bl" True] assms by simp
  finally show ?case using \<open>i = bs\<close> by simp
next
  case (Suc n)
  then have i: "i < bs" "i < 8" using assms(3) by auto
  have d: "take (bs - i) (drop i g) = g ! i # take (bs - (i + 1)) (drop (i + 1) g)"
    using i assms(1) by (simp add: Cons_nth_drop_Suc [symmetric] take_Cons' Suc_diff_Suc)
  have "text_from g bs bl i False = (if i > 0 then '':'' else []) @ hex (g ! i) @ text_from g bs bl (i + 1) False"
    using i by (subst text_from.simps) simp
  also have "text_from g bs bl (i + 1) False = more (take (bs - (i + 1)) (drop (i + 1) g)) @ ''::'' @
      join (drop (bs + bl) g)"
    using Suc(1) [of "i + 1"] Suc(2) i by simp
  finally show ?case using d by (cases "i = 0") simp_all
qed

section \<open>Groups and bytes\<close>

lemma groups_facts: "length (groups a) = 8" "\<forall>x \<in> set (groups a). x \<le> 0xFFFF"
proof -
  have "unat x * 256 + unat y \<le> 0xFFFF" for x y :: byte
    using unsigned_less [of x, where 'a = nat] unsigned_less [of y, where 'a = nat] by simp
  then show "length (groups a) = 8" "\<forall>x \<in> set (groups a). x \<le> 0xFFFF"
    by (auto simp: groups_def)
qed

lemma group_bytes_join: "group_bytes (unat x * 256 + unat y) = [x, y :: byte]"
proof -
  have "unat y < 256" using unsigned_less [of y, where 'a = nat] by simp
  then have "(unat x * 256 + unat y) div 256 = unat x" "(unat x * 256 + unat y) mod 256 = unat y" by auto
  then show ?thesis by (simp add: group_bytes_def)
qed

lemma bytes_of_groups:
  assumes "length a = 16"
  shows "concat (map group_bytes (groups a)) = a"
proof -
  have "concat (map group_bytes (groups a)) = concat (map (\<lambda>i. [a ! (i * 2), a ! (i * 2 + 1)]) [0..<8])"
    by (simp add: groups_def comp_def group_bytes_join del: upt_rec_numeral)
  also have "\<dots> = map ((!) a) [0..<16]" by (simp add: upt_rec numeral_eq_Suc)
  also have "\<dots> = a" using assms by (metis map_nth)
  finally show ?thesis .
qed

lemma zero_groups: "concat (map group_bytes (replicate n 0)) = replicate (n * 2) 0"
  by (induction n) (auto simp: group_bytes_def)

section \<open>Round trip\<close>

text \<open>The complete text of an address.\<close>

definition ipv6_text :: "ipv6_addr \<Rightarrow> string" where
  "ipv6_text a = (case best_run (groups a) 0 0 0 of (bs, bl) \<Rightarrow> text_from (groups a) bs bl 0 False)"

lemma ipv6_ntop_text:
  "ipv6_ntop a buflen = (if length (ipv6_text a) + 1 < buflen then Some (ipv6_text a) else None)"
  by (auto simp: ipv6_ntop_def ipv6_text_def ntop_loop_text split: prod.split)

lemma ipv6_pton_text:
  assumes "length a = 16"
  shows "ipv6_pton (ipv6_text a) = Some a"
proof -
  obtain bs bl where b: "best_run (groups a) 0 0 0 = (bs, bl)" by fastforce
  let ?g = "groups a"
  have g: "length ?g = 8" "\<forall>x \<in> set ?g. x \<le> 0xFFFF" by (simp_all add: groups_facts)
  show ?thesis
  proof (cases "bl = 0")
    case True
    then have "ipv6_text a = join ?g" using text_from_after [of ?g bl bs 0 False] g by (simp add: ipv6_text_def b)
    then show ?thesis
      using pton_join [of "[]" ?g None] g bytes_of_groups [OF assms] by (simp add: ipv6_pton_def)
  next
    case False
    with best_run_zero [OF b] have z: "bs + bl \<le> 8" "\<forall>k. bs \<le> k \<and> k < bs + bl \<longrightarrow> ?g ! k = 0" by auto
    let ?pre = "take bs ?g" and ?post = "drop (bs + bl) ?g"
    have "ipv6_text a = join ?pre @ ''::'' @ join ?post"
      using text_from_before [of ?g bl bs 0] False z g by (simp add: ipv6_text_def b)
    moreover have len: "length ?pre = bs" "length ?post = 8 - bs - bl" using z g by auto
    moreover have "\<forall>x \<in> set (?pre @ ?post). x \<le> 0xFFFF"
      using g(2) by (auto dest: in_set_takeD in_set_dropD)
    ultimately have p: "pton_loop (ipv6_text a) [] None None False = Some (?pre @ ?post, Some bs)"
      using pton_compressed [of ?pre ?post] False z by simp
    have mid: "?g = ?pre @ replicate bl 0 @ ?post"
    proof (rule nth_equalityI)
      fix k assume "k < length ?g"
      then show "?g ! k = (?pre @ replicate bl 0 @ ?post) ! k"
        using z g by (auto simp: nth_append min_def)
    qed (use z g in simp)
    have "8 - length (?pre @ ?post) = bl" "\<not> 8 - int (length (?pre @ ?post)) < 1"
      using len z False by auto
    then have "ipv6_pton (ipv6_text a) = Some (concat (map group_bytes ?pre) @ replicate (bl * 2) 0 @
        concat (map group_bytes ?post))"
      using p len by (simp add: ipv6_pton_def)
    also have "\<dots> = Some (concat (map group_bytes (?pre @ replicate bl 0 @ ?post)))"
      by (simp only: map_append concat_append zero_groups)
    also have "\<dots> = Some a" by (simp only: mid [symmetric] bytes_of_groups [OF assms])
    finally show ?thesis .
  qed
qed

lemma hex_length: "v < 16 ^ Suc n \<Longrightarrow> length (hex v) \<le> Suc n"
proof (induction n arbitrary: v)
  case 0
  then show ?case by (simp add: hex_rec [of v])
next
  case (Suc n)
  then have "v div 16 < 16 ^ Suc n" by (simp add: less_mult_imp_div_less)
  from Suc.IH [OF this] show ?case by (simp add: hex_rec [of v])
qed

lemma text_from_length:
  assumes "length g = 8" "\<forall>x \<in> set g. x \<le> 0xFFFF" "i \<le> 8" "bl = 0 \<or> bs + bl \<le> 8"
  shows "length (text_from g bs bl i c) \<le> 5 * (8 - i)"
  using assms
proof (induction g bs bl i c rule: text_from.induct)
  case (1 g bs bl i c)
  note tstep = text_from.simps [of g bs bl i c]
  consider (stop) "\<not> i < 8" | (comp) "i < 8" "bl > 0 \<and> i = bs" | (grp) "i < 8" "\<not> (bl > 0 \<and> i = bs)" by blast
  then show ?case
  proof cases
    case comp
    then have "i + bl \<le> 8" using 1(6) by auto
    with 1(1) [OF comp] 1(3,4,6) have "length (text_from g bs bl (i + bl) True) \<le> 5 * (8 - (i + bl))" by blast
    moreover note text_from_comp [OF comp, of g c]
    ultimately show ?thesis using comp \<open>i + bl \<le> 8\<close> by auto
  next
    case grp
    have "g ! i \<in> set g" using grp 1(3) by simp
    then have "g ! i < 16 ^ Suc 3" using 1(4) by fastforce
    then have h: "length (hex (g ! i)) \<le> 4" using hex_length [of "g ! i" 3] by simp
    have "length (text_from g bs bl (i + 1) False) \<le> 5 * (8 - (i + 1))"
      using 1(2) [OF grp 1(3,4) _ 1(6)] grp by simp
    moreover have "length (text_from g bs bl i c) \<le> 1 + length (hex (g ! i)) + length (text_from g bs bl (i + 1) False)"
      unfolding text_from_grp [OF grp, of g c] by simp
    ultimately show ?thesis using h grp by simp
  qed (simp add: tstep)
qed

text \<open>C22: printing an IPv6 address and parsing the text gives back the same 16 bytes, for every address,
  wherever its zero runs are; and a buffer of 42 bytes is always enough to print.\<close>

theorem ipv6_ntop_pton_roundtrip:
  assumes "length a = 16"
  shows "(42 \<le> buflen \<longrightarrow> (\<exists>s. ipv6_ntop a buflen = Some s)) \<and>
    (\<forall>s. ipv6_ntop a buflen = Some s \<longrightarrow> ipv6_pton s = Some a)"
proof -
  obtain bs bl where b: "best_run (groups a) 0 0 0 = (bs, bl)" by fastforce
  from best_run_zero [OF b] have "bl = 0 \<or> bs + bl \<le> 8" by auto
  then have "length (ipv6_text a) \<le> 40"
    using text_from_length [of "groups a" 0 bl bs False] groups_facts [of a] by (simp add: ipv6_text_def b)
  then show ?thesis using ipv6_pton_text [OF assms] by (auto simp: ipv6_ntop_text)
qed

theorem ipv6_ntop_pton_roundtrip_witness:
  "\<exists>s. ipv6_ntop ([0xFE, 0x80] @ replicate 13 0 @ [1]) 46 = Some s \<and>
     ipv6_pton s = Some ([0xFE, 0x80] @ replicate 13 0 @ [1])"
  using ipv6_ntop_pton_roundtrip [of "[0xFE, 0x80] @ replicate 13 0 @ [1]" 46] by auto

text \<open>The printer asks for one byte more than it needs: with a buffer that exactly holds the text and
  its terminator it answers -1, for every address.\<close>

theorem ipv6_ntop_exact_fit_refused:
  "ipv6_ntop a (length (ipv6_text a) + 1) = None \<and>
   ipv6_ntop a (length (ipv6_text a) + 2) = Some (ipv6_text a)"
  by (simp add: ipv6_ntop_text)

section \<open>The checksum\<close>

lemma fold16_facts: "fold16 x mod 65535 = x mod 65535" "fold16 x < 65536" "0 < x \<Longrightarrow> 0 < fold16 x"
proof -
  have "fold16 x mod 65535 = x mod 65535 \<and> fold16 x < 65536 \<and> (0 < x \<longrightarrow> 0 < fold16 x)"
  proof (induction x rule: fold16.induct)
    case (1 x)
    let ?y = "x mod 65536 + x div 65536"
    show ?case
    proof (cases "x div 65536 = 0")
      case True
      then have "x < 65536" "fold16 x = x" by (auto simp: fold16.simps [of x])
      then show ?thesis by simp
    next
      case False
      then have f: "fold16 x = fold16 ?y" by (simp add: fold16.simps [of x])
      have x: "x = ?y + 65535 * (x div 65536)" using mod_mult_div_eq [of x 65536] by linarith
      have "(?y + 65535 * (x div 65536)) mod 65535 = ?y mod 65535" by (rule mod_mult_self2)
      then have "?y mod 65535 = x mod 65535" using x by metis
      moreover have "0 < ?y" using False by simp
      ultimately show ?thesis using 1 False f by simp
    qed
  qed
  then show "fold16 x mod 65535 = x mod 65535" "fold16 x < 65536" "0 < x \<Longrightarrow> 0 < fold16 x" by auto
qed

lemma fold16_full: "x mod 65535 = 0 \<Longrightarrow> 0 < x \<Longrightarrow> fold16 x = 65535"
  using fold16_facts [of x] by (auto simp: mod_eq_0_iff_dvd elim!: dvdE)

fun wsum :: "byte list \<Rightarrow> nat" where
  "wsum (x # y # p) = unat x * 256 + unat y + wsum p"
| "wsum [x] = unat x * 256"
| "wsum [] = 0"

lemma word_sum_eq:
  "acc + 65535 * length p < 2 ^ 32 \<Longrightarrow> word_sum p acc = acc + wsum p"
proof (induction p acc rule: word_sum.induct)
  case (1 x y p acc)
  have "unat x * 256 + unat y \<le> 65535"
    using unsigned_less [of x, where 'a = nat] unsigned_less [of y, where 'a = nat] by simp
  with 1 show ?case by (simp add: add32_id)
next
  case (2 x acc)
  then show ?case using unsigned_less [of x, where 'a = nat] by (simp add: add32_id)
qed simp

lemma wsum_append: "even (length p) \<Longrightarrow> wsum (p @ q) = wsum p + wsum q"
  by (induction p rule: wsum.induct) auto

text \<open>C23: the checksum protects the packet: once it is stored in the (even-positioned, zeroed) checksum
  field of the message, the checksum computed over the packet by the receiver is 0.\<close>

theorem ipv6_checksum_verifies:
  fixes src dst :: ipv6_addr and len :: u32 and nh :: byte
  assumes "even (length m1)" and "length m1 + length m2 < 65534"
  defines "c \<equiv> ipv6_checksum_pseudo src dst len nh (m1 @ [0, 0] @ m2)"
  shows "ipv6_checksum_pseudo src dst len nh (m1 @ [of_nat (c div 256), of_nat (c mod 256)] @ m2) = 0"
proof -
  let ?P = "ones_complement_sum (pseudo_header src dst len nh)"
  define S where "S = wsum m1 + wsum m2"
  have ws: "word_sum (m1 @ [x, y] @ m2) 0 = S + (unat x * 256 + unat y)" for x y
    using word_sum_eq [of 0 "m1 @ [x, y] @ m2"] assms(1,2) wsum_append [of m1 "x # y # m2"]
    by (simp add: S_def)
  have P: "?P < 65536" by (simp add: ones_complement_sum_def fold16_facts)
  have add: "add32 ?P (fold16 k) = ?P + fold16 k" for k
    using P fold16_facts(2) [of k] by (simp add: add32_id)
  have ck: "ipv6_checksum_pseudo src dst len nh (m1 @ [x, y] @ m2) =
      65535 - fold16 (?P + fold16 (S + (unat x * 256 + unat y)))" for x y
    unfolding ipv6_checksum_pseudo_def Let_def ones_complement_sum_def [of "m1 @ [x, y] @ m2"] ws add
    by (rule refl)
  have c: "c = 65535 - fold16 (?P + fold16 S)"
    unfolding c_def ck by simp
  let ?f = "fold16 (?P + fold16 S)"
  have f: "?f \<le> 65535" "?f mod 65535 = (?P + S) mod 65535"
    using fold16_facts(1,2) [of "?P + fold16 S"] mod_add_cong [OF refl [of "?P mod 65535"] fold16_facts(1) [of S]]
    by simp_all
  have cb: "c \<le> 65535" using c by simp
  have bytes: "unat (of_nat (c div 256) :: byte) * 256 + unat (of_nat (c mod 256) :: byte) = c"
  proof -
    have "c div 256 < 256" using cb by simp
    then have "unat (of_nat (c div 256) :: byte) = c div 256" "unat (of_nat (c mod 256) :: byte) = c mod 256"
      by (simp_all add: unat_of_nat)
    then show ?thesis by simp
  qed
  have tot: "fold16 (?P + fold16 (S + c)) = 65535"
  proof (rule fold16_full)
    have "(?P + fold16 (S + c)) mod 65535 = (?P + (S + c)) mod 65535"
      by (rule mod_add_cong [OF refl fold16_facts(1)])
    also have "\<dots> = ((?P + S) + c) mod 65535" by (simp add: add.assoc)
    also have "\<dots> = (?f + c) mod 65535" by (rule mod_add_cong [OF f(2) [symmetric] refl])
    also have "\<dots> = 0" using c f(1) by simp
    finally show "(?P + fold16 (S + c)) mod 65535 = 0" .
    show "0 < ?P + fold16 (S + c)"
    proof (rule ccontr)
      assume "\<not> ?thesis"
      then have "?P = 0" "fold16 (S + c) = 0" by auto
      then have "S + c = 0" using fold16_facts(3) [of "S + c"] by (cases "S + c") auto
      then have "fold16 (?P + fold16 S) = 0" "c = 0" using \<open>?P = 0\<close> by (simp_all add: fold16.simps)
      with c show False by simp
    qed
  qed
  show ?thesis unfolding ck bytes tot by simp
qed

theorem ipv6_checksum_verifies_witness:
  "ipv6_checksum_pseudo (replicate 16 1) (replicate 16 2) 4 58
     ([128, 0] @ [of_nat (ipv6_checksum_pseudo (replicate 16 1) (replicate 16 2) 4 58 ([128, 0] @ [0, 0] @ []) div 256),
        of_nat (ipv6_checksum_pseudo (replicate 16 1) (replicate 16 2) 4 58 ([128, 0] @ [0, 0] @ []) mod 256)] @ []) = 0"
  by (rule ipv6_checksum_verifies) simp_all

end
