(* ===== verification/DnsName.thy ===== *)
theory DnsName
  imports Prelude
begin

text \<open>
  DNS names (\<open>kernel/net/dns_parse.c\<close>): encoding a dotted name into labels and reading a possibly
  compressed name out of a message.  A C string is the list of its bytes before the terminator; a
  message is a list of bytes, and a read outside it gives the result \<open>Fault\<close>.  The loop of
  \<open>dns_name_read\<close> has no bound of its own, so it is a partial function with \<^const>\<open>None\<close> for not
  returning; \<open>name_loop_returns\<close> shows that the jump budget makes it return on every message.
\<close>

section \<open>Results and reads\<close>

text \<open>\<open>Bad\<close> is the error return; \<open>Fault\<close> is an access outside a buffer.\<close>

datatype 'a res = Fault | Bad | Val 'a

definition bindr :: "'a res option \<Rightarrow> ('a \<Rightarrow> 'b res option) \<Rightarrow> 'b res option" where
  "bindr r f = (case r of
     None \<Rightarrow> None | Some Fault \<Rightarrow> Some Fault | Some Bad \<Rightarrow> Some Bad | Some (Val x) \<Rightarrow> f x)"

lemma bindr_simps [simp]:
  "bindr None f = None" "bindr (Some Fault) f = Some Fault" "bindr (Some Bad) f = Some Bad"
  "bindr (Some (Val x)) f = f x"
  by (simp_all add: bindr_def)

definition fetch :: "byte list \<Rightarrow> nat \<Rightarrow> byte res option" where
  "fetch msg i = Some (if i < length msg then Val (msg ! i) else Fault)"

lemma fetch_in [simp]: "i < length msg \<Longrightarrow> fetch msg i = Some (Val (msg ! i))"
  by (simp add: fetch_def)

definition rd16 :: "byte list \<Rightarrow> nat \<Rightarrow> nat res option" where
  "rd16 msg i = bindr (fetch msg i) (\<lambda>a. bindr (fetch msg (i + 1)) (\<lambda>b.
     Some (Val (256 * unat a + unat b))))"

definition rd32 :: "byte list \<Rightarrow> nat \<Rightarrow> nat res option" where
  "rd32 msg i = bindr (fetch msg i) (\<lambda>a. bindr (fetch msg (i + 1)) (\<lambda>b.
     bindr (fetch msg (i + 2)) (\<lambda>c. bindr (fetch msg (i + 3)) (\<lambda>d.
       Some (Val (2 ^ 24 * unat a + 2 ^ 16 * unat b + 2 ^ 8 * unat c + unat d))))))"

section \<open>Strings\<close>

definition DNS_MAX_JUMPS :: nat where "DNS_MAX_JUMPS = 128"

definition DNS_MAX_NAME :: nat where "DNS_MAX_NAME = 253"

definition DOT :: byte where "DOT = 46"

definition lc :: "byte \<Rightarrow> byte" where
  "lc c = (if 65 \<le> c \<and> c \<le> 90 then c + 32 else c)"

fun ci_equal :: "byte list \<Rightarrow> byte list \<Rightarrow> bool" where
  "ci_equal (a # as) (b # bs) = (if lc a \<noteq> lc b then False else ci_equal as bs)"
| "ci_equal [] [] = True"
| "ci_equal _ _ = False"

definition cstr :: "byte list \<Rightarrow> byte list" where
  "cstr xs = takeWhile (\<lambda>c. c \<noteq> 0) xs"

definition copy_lower :: "nat \<Rightarrow> byte list \<Rightarrow> byte list" where
  "copy_lower cap src = map lc (take (cap - 1) src)"

section \<open>Encoding\<close>

text \<open>One round of the outer loop appends the length and the bytes of the next label.\<close>

function encode_loop :: "nat \<Rightarrow> byte list \<Rightarrow> byte list \<Rightarrow> byte list option" where
  "encode_loop cap seg out =
    (if seg = [] then Some out
     else let label = takeWhile (\<lambda>c. c \<noteq> DOT) seg; n = length label in
       if n > 63 \<or> n = 0 then None
       else if length out + 1 + n \<ge> cap then None
       else let rest = drop n seg
            in encode_loop cap (if rest \<noteq> [] then tl rest else rest)
                 (out @ word_of_nat n # map lc label))"
  by pat_completeness auto
termination
  by (relation "measure (\<lambda>(cap, seg, out). length seg)") (auto simp: Let_def)

declare encode_loop.simps [simp del]

definition dns_encode_name :: "byte list \<Rightarrow> nat \<Rightarrow> byte list option" where
  "dns_encode_name name cap =
    (if name = [] then None
     else case encode_loop cap name [] of
       None \<Rightarrow> None
     | Some out \<Rightarrow>
        if length out + 1 \<ge> cap then None
        else if length out + 1 > DNS_MAX_NAME + 1 then None
        else Some (out @ [0]))"

section \<open>Reading\<close>

text \<open>The loop of \<open>dns_name_read\<close>: \<open>out\<close> is what has been written, so \<open>length out\<close> is the variable
  \<open>o\<close>.  The result is the contents of the buffer and the end position.\<close>

partial_function (option) name_loop ::
    "byte list \<Rightarrow> nat \<Rightarrow> nat \<Rightarrow> nat \<Rightarrow> nat \<Rightarrow> nat option \<Rightarrow> byte list \<Rightarrow> (byte list \<times> nat) res option" where
  "name_loop msg len cap cur jumps first_end out =
    (if cur \<ge> len then Some Bad
     else if \<not> cur < length msg then Some Fault
     else let b = msg ! cur in
       if b AND 0xC0 = 0xC0 then
         if cur + 1 \<ge> len then Some Bad
         else if \<not> cur + 1 < length msg then Some Fault
         else let ptr = 256 * unat (b AND 0x3F) + unat (msg ! (cur + 1));
                  fe = (case first_end of None \<Rightarrow> cur + 2 | Some e \<Rightarrow> e)
           in if ptr \<ge> len mod 2 ^ 16 then Some Bad
              else if jumps + 1 > DNS_MAX_JUMPS then Some Bad
              else name_loop msg len cap ptr (jumps + 1) (Some fe) out
       else if b = 0 then
         if length out \<ge> cap then Some Bad
         else let fe = (case first_end of None \<Rightarrow> cur + 1 | Some e \<Rightarrow> e)
           in if length out > DNS_MAX_NAME then Some Bad else Some (Val (out @ [0], fe))
       else let llen = unat b in
         if cur + 1 + llen > len then Some Bad
         else if 0 < length out \<and> length out \<ge> cap then Some Bad
         else let out = (if 0 < length out then out @ [DOT] else out) in
           if length out + llen \<ge> cap then Some Bad
           else if \<not> cur + 1 + llen \<le> length msg then Some Fault
           else name_loop msg len cap (cur + 1 + llen) jumps first_end
                  (out @ map lc (take llen (drop (cur + 1) msg))))"

definition dns_name_read :: "byte list \<Rightarrow> nat \<Rightarrow> nat \<Rightarrow> nat \<Rightarrow> (byte list \<times> nat) res option" where
  "dns_name_read msg len pos cap =
    (if cap = 0 then Some Bad else name_loop msg len cap pos 0 None [])"

section \<open>Reading returns\<close>

text \<open>What a result promises: no fault, the buffer within its capacity, the end within the
  message.\<close>

fun name_ok :: "nat \<Rightarrow> nat \<Rightarrow> (byte list \<times> nat) res \<Rightarrow> bool" where
  "name_ok len cap Fault = False"
| "name_ok len cap Bad = True"
| "name_ok len cap (Val (out, e)) \<longleftrightarrow> length out \<le> cap \<and> length out \<le> DNS_MAX_NAME + 1 \<and>
     out \<noteq> [] \<and> last out = 0 \<and> e \<le> len"

definition work :: "nat \<Rightarrow> nat \<Rightarrow> nat \<Rightarrow> nat" where
  "work len cur jumps = (DNS_MAX_JUMPS - jumps) * (len + 1) + (len - cur)"

lemma work_jump: "jumps < DNS_MAX_JUMPS \<Longrightarrow> work len ptr (jumps + 1) < work len cur jumps"
proof -
  assume j: "jumps < DNS_MAX_JUMPS"
  then obtain d where "DNS_MAX_JUMPS - jumps = Suc d" "DNS_MAX_JUMPS - (jumps + 1) = d"
    by (metis Suc_diff_Suc Suc_eq_plus1)
  then show ?thesis by (simp add: work_def)
qed

lemma work_label: "cur < len \<Longrightarrow> work len (cur + 1 + n) jumps < work len cur jumps"
  by (simp add: work_def)

text \<open>One round that reads a label, and the round that ends the name.\<close>

lemma name_loop_label:
  assumes "len \<le> length msg" "cur < len" "msg ! cur AND 0xC0 \<noteq> 0xC0" "msg ! cur \<noteq> 0"
    "cur + 1 + unat (msg ! cur) \<le> len" "out \<noteq> [] \<Longrightarrow> length out < cap"
    "length (if 0 < length out then out @ [DOT] else out) + unat (msg ! cur) < cap"
  shows "name_loop msg len cap cur jumps first_end out =
    name_loop msg len cap (cur + 1 + unat (msg ! cur)) jumps first_end
      ((if 0 < length out then out @ [DOT] else out) @
       map lc (take (unat (msg ! cur)) (drop (cur + 1) msg)))"
proof -
  have fits: "\<not> cur + 1 + unat (msg ! cur) > len" "\<not> (0 < length out \<and> length out \<ge> cap)"
    "\<not> length (if 0 < length out then out @ [DOT] else out) + unat (msg ! cur) \<ge> cap"
    "cur + 1 + unat (msg ! cur) \<le> length msg" "cur < length msg" "\<not> len \<le> cur"
    using assms by auto
  show ?thesis
    by (subst name_loop.simps, unfold Let_def, simp only: fits assms(3,4) simp_thms if_True if_False)
qed

lemma name_loop_end:
  assumes "len \<le> length msg" "cur < len" "msg ! cur = 0" "length out < cap" "length out \<le> DNS_MAX_NAME"
  shows "name_loop msg len cap cur jumps None out = Some (Val (out @ [0], cur + 1))"
  using assms by (subst name_loop.simps) (simp add: Let_def)

lemma name_loop_returns:
  assumes "len \<le> length msg" "jumps \<le> DNS_MAX_JUMPS" "length out \<le> cap"
    "case first_end of None \<Rightarrow> True | Some e \<Rightarrow> e \<le> len"
  shows "\<exists>r. name_loop msg len cap cur jumps first_end out = Some r \<and> name_ok len cap r"
  using assms(2-4)
proof (induction "work len cur jumps" arbitrary: cur jumps first_end out rule: less_induct)
  case less
  show ?case
  proof (cases "cur < len")
    case False
    then show ?thesis by (simp add: name_loop.simps)
  next
    case True
    let ?b = "msg ! cur"
    consider (ptr) "?b AND 0xC0 = 0xC0" | (zero) "?b AND 0xC0 \<noteq> 0xC0" "?b = 0"
      | (label) "?b AND 0xC0 \<noteq> 0xC0" "?b \<noteq> 0" by blast
    then show ?thesis
    proof cases
      case ptr
      let ?p = "256 * unat (?b AND 0x3F) + unat (msg ! (cur + 1))"
      let ?fe = "case first_end of None \<Rightarrow> cur + 2 | Some e \<Rightarrow> e"
      show ?thesis
      proof (cases "cur + 1 \<ge> len \<or> ?p \<ge> len mod 2 ^ 16 \<or> jumps + 1 > DNS_MAX_JUMPS")
        case True
        then show ?thesis using ptr \<open>cur < len\<close> assms(1)
          by (subst name_loop.simps) (auto simp: Let_def)
      next
        case False
        then have "name_loop msg len cap cur jumps first_end out =
            name_loop msg len cap ?p (jumps + 1) (Some ?fe) out"
          using ptr \<open>cur < len\<close> assms(1) by (subst name_loop.simps) (simp add: Let_def)
        moreover have "\<exists>r. name_loop msg len cap ?p (jumps + 1) (Some ?fe) out = Some r \<and> name_ok len cap r"
          using False less.prems work_jump [of jumps len ?p cur]
          by (intro less.hyps) (auto split: option.splits)
        ultimately show ?thesis by simp
      qed
    next
      case zero
      then show ?thesis using True assms(1) less.prems
        by (subst name_loop.simps) (auto simp: Let_def split: option.splits)
    next
      case label
      let ?n = "unat ?b"
      let ?o = "if 0 < length out then out @ [DOT] else out"
      show ?thesis
      proof (cases "cur + 1 + ?n > len \<or> (0 < length out \<and> length out \<ge> cap) \<or> length ?o + ?n \<ge> cap")
        case True
        then show ?thesis using label \<open>cur < len\<close> assms(1)
          by (subst name_loop.simps) (auto simp: Let_def)
      next
        case False
        let ?out = "?o @ map lc (take ?n (drop (cur + 1) msg))"
        have "name_loop msg len cap cur jumps first_end out =
            name_loop msg len cap (cur + 1 + ?n) jumps first_end ?out"
          using False \<open>cur < len\<close> assms(1) label by (intro name_loop_label) auto
        moreover have "length ?out \<le> cap" using False by auto
        then have "\<exists>r. name_loop msg len cap (cur + 1 + ?n) jumps first_end ?out = Some r \<and> name_ok len cap r"
          using less.prems work_label [OF \<open>cur < len\<close>] by (intro less.hyps) auto
        ultimately show ?thesis by simp
      qed
    qed
  qed
qed

lemma dns_name_read_returns:
  "len \<le> length msg \<Longrightarrow> \<exists>r. dns_name_read msg len pos cap = Some r \<and> name_ok len cap r"
  using name_loop_returns [of len msg 0 "[]" cap None pos] by (auto simp: dns_name_read_def)


section \<open>Round trip\<close>

text \<open>A trailing dot is not encoded.\<close>

definition strip_dot :: "byte list \<Rightarrow> byte list" where
  "strip_dot xs = (if xs \<noteq> [] \<and> last xs = DOT then butlast xs else xs)"

lemma label_byte:
  assumes "0 < n" "n \<le> 63"
  shows "unat (word_of_nat n :: byte) = n" "(word_of_nat n :: byte) AND 0xC0 \<noteq> 0xC0"
    "(word_of_nat n :: byte) \<noteq> 0"
proof -
  show u: "unat (word_of_nat n :: byte) = n" using assms by (simp add: unat_of_nat)
  show "(word_of_nat n :: byte) AND 0xC0 \<noteq> 0xC0"
  proof
    assume "(word_of_nat n :: byte) AND 0xC0 = 0xC0"
    then have "0xC0 \<le> (word_of_nat n :: byte)" by (metis word_and_le2)
    then have "unat (0xC0 :: byte) \<le> n" using u by (simp add: word_le_nat_alt)
    then show False using assms by simp
  qed
  show "(word_of_nat n :: byte) \<noteq> 0" using u assms(1) by (metis unat_0 not_less_zero)
qed

lemma strip_dot_label:
  assumes "label = takeWhile (\<lambda>c. c \<noteq> DOT) seg" "rest = drop (length label) seg" "label \<noteq> []"
  shows "strip_dot seg = (if tl rest = [] then label else label @ DOT # strip_dot (tl rest))"
proof -
  have seg: "seg = label @ rest" using assms by (simp add: dropWhile_eq_drop [symmetric])
  have nd: "DOT \<notin> set label" using assms(1) by (auto dest: set_takeWhileD)
  show ?thesis
  proof (cases rest)
    case Nil
    then have "last seg \<noteq> DOT" using nd assms(3) seg by (metis append_Nil2 last_in_set)
    then show ?thesis using Nil seg by (simp add: strip_dot_def)
  next
    case (Cons d r)
    have "d = DOT" using assms Cons by (metis (mono_tags) dropWhile_eq_drop hd_dropWhile list.distinct(1) list.sel(1))
    then show ?thesis using Cons seg by (auto simp: strip_dot_def butlast_append)
  qed
qed


definition joined :: "byte list \<Rightarrow> byte list \<Rightarrow> byte list" where
  "joined buf seg =
    (if seg = [] then buf else (if buf = [] then [] else buf @ [DOT]) @ map lc (strip_dot seg))"

lemma lc_lc [simp]: "lc (lc c) = lc c"
proof (cases "65 \<le> c \<and> c \<le> 90")
  case True
  then have "65 \<le> unat c" "unat c \<le> 90" by (simp_all add: word_le_nat_alt)
  then have "unat (c + 32) = unat c + 32" by (simp add: unat_word_ariths)
  then have "\<not> c + 32 \<le> 90" using \<open>65 \<le> unat c\<close> by (simp add: word_le_nat_alt)
  then show ?thesis using True by (simp add: lc_def)
qed (simp add: lc_def)

lemma lc_DOT [simp]: "lc DOT = DOT"
  by (simp add: lc_def DOT_def)

lemma joined_step:
  assumes "label = takeWhile (\<lambda>c. c \<noteq> DOT) seg" "rest = drop (length label) seg" "label \<noteq> []"
  shows "joined ((if 0 < length buf then buf @ [DOT] else buf) @ map lc label) (tl rest) = joined buf seg"
proof -
  have "seg \<noteq> []" using assms(1,3) by auto
  then show ?thesis using strip_dot_label [OF assms] assms(3) by (simp add: joined_def)
qed

lemma encode_read:
  assumes "encode_loop cap seg out = Some w"
  shows "\<exists>e. w = out @ e \<and> (\<forall>pre suf buf. msg = pre @ e @ 0 # suf \<longrightarrow>
    length buf + length e < DNS_MAX_NAME + 1 \<longrightarrow>
    name_loop msg (length msg) (DNS_MAX_NAME + 1) (length pre) 0 None buf =
      Some (Val (joined buf seg @ [0], length pre + length e + 1)))"
  using assms
proof (induction "length seg" arbitrary: seg out rule: less_induct)
  case less
  show ?case
  proof (cases "seg = []")
    case True
    then have "w = out" using less.prems by (simp add: encode_loop.simps)
    moreover have "name_loop msg (length msg) (DNS_MAX_NAME + 1) (length pre) 0 None buf =
        Some (Val (buf @ [0], length pre + 1))"
      if "msg = pre @ 0 # suf" "length buf < DNS_MAX_NAME + 1" for pre suf buf
      using that by (intro name_loop_end) auto
    ultimately show ?thesis using True by (simp add: joined_def)
  next
    case False
    define label where "label = takeWhile (\<lambda>c. c \<noteq> DOT) seg"
    define rest where "rest = drop (length label) seg"
    define b :: byte where "b = word_of_nat (length label)"
    have rec: "length label \<le> 63 \<and> label \<noteq> [] \<and>
        encode_loop cap (tl rest) (out @ b # map lc label) = Some w"
      using less.prems False encode_loop.simps [of cap seg out]
      by (auto simp: Let_def label_def rest_def b_def split: if_splits)
    have "length (tl rest) < length seg" using False by (simp add: rest_def less_diff_conv2)
    from less.hyps [OF this, of "out @ b # map lc label"] rec
    obtain e where e: "w = (out @ b # map lc label) @ e"
      "\<And>pre suf buf. msg = pre @ e @ 0 # suf \<Longrightarrow> length buf + length e < DNS_MAX_NAME + 1 \<Longrightarrow>
        name_loop msg (length msg) (DNS_MAX_NAME + 1) (length pre) 0 None buf =
          Some (Val (joined buf (tl rest) @ [0], length pre + length e + 1))"
      by blast
    have lb: "unat b = length label" "b AND 0xC0 \<noteq> 0xC0" "b \<noteq> 0"
      using label_byte [of "length label"] rec by (auto simp: b_def)
    have "name_loop msg (length msg) (DNS_MAX_NAME + 1) (length pre) 0 None buf =
        Some (Val (joined buf seg @ [0], length pre + length (b # map lc label @ e) + 1))"
      if msg: "msg = pre @ (b # map lc label @ e) @ 0 # suf"
        and room: "length buf + length (b # map lc label @ e) < DNS_MAX_NAME + 1" for pre suf buf
    proof -
      let ?pre = "if 0 < length buf then buf @ [DOT] else buf"
      have at: "msg ! length pre = b" "length pre < length msg" using msg by simp_all
      have "name_loop msg (length msg) (DNS_MAX_NAME + 1) (length pre) 0 None buf =
          name_loop msg (length msg) (DNS_MAX_NAME + 1) (length pre + 1 + length label) 0 None
            (?pre @ map lc (take (length label) (drop (length pre + 1) msg)))"
        using name_loop_label [of "length msg" msg "length pre" buf "DNS_MAX_NAME + 1" 0 None] at lb msg room
        by (simp split: if_splits)
      also have "take (length label) (drop (length pre + 1) msg) = map lc label"
        using msg by simp
      also have "length pre + 1 + length label = length (pre @ b # map lc label)" by simp
      also have "map lc (map lc label) = map lc label" by simp
      also have "name_loop msg (length msg) (DNS_MAX_NAME + 1) (length (pre @ b # map lc label)) 0 None
          (?pre @ map lc label) =
        Some (Val (joined (?pre @ map lc label) (tl rest) @ [0],
          length (pre @ b # map lc label) + length e + 1))"
        using msg room by (intro e(2) [of _ suf]) (auto split: if_splits)
      also have "joined (?pre @ map lc label) (tl rest) = joined buf seg"
        using rec by (intro joined_step label_def rest_def) simp
      finally show ?thesis by simp
    qed
    then show ?thesis using e(1) by (intro exI [of _ "b # map lc label @ e"]) simp
  qed
qed


text \<open>C25: what the encoder writes, the reader reads back: anywhere in a message, the encoding of a
  name is read as that name in lower case without its trailing dot, and the reported end is the
  byte after the encoding.
\<close>

theorem dns_name_roundtrip:
  assumes "dns_encode_name name cap = Some w"
  shows "dns_name_read (pre @ w @ suf) (length (pre @ w @ suf)) (length pre) (DNS_MAX_NAME + 1) =
    Some (Val (map lc (strip_dot name) @ [0], length pre + length w))"
proof -
  have ne: "name \<noteq> []" using assms by (auto simp: dns_encode_name_def)
  obtain u where u: "encode_loop cap name [] = Some u" "w = u @ [0]" "length u + 1 \<le> DNS_MAX_NAME + 1"
    using assms by (auto simp: dns_encode_name_def split: if_splits option.splits)
  from encode_read [OF u(1), of "pre @ w @ suf"] have
    "name_loop (pre @ w @ suf) (length (pre @ w @ suf)) (DNS_MAX_NAME + 1) (length pre) 0 None [] =
      Some (Val (joined [] name @ [0], length pre + length u + 1))"
    using u(2,3) by (auto simp: DNS_MAX_NAME_def)
  then show ?thesis using ne u(2) by (simp add: dns_name_read_def joined_def)
qed

theorem dns_name_roundtrip_witness:
  "dns_encode_name [65, 98, 46, 99, 46] 64 = Some [2, 97, 98, 1, 99, 0] \<and>
   dns_name_read [9, 2, 97, 98, 1, 99, 0, 7] 8 1 (DNS_MAX_NAME + 1) = Some (Val ([97, 98, 46, 99, 0], 7))"
proof -
  have e: "dns_encode_name [65, 98, 46, 99, 46] 64 = Some [2, 97, 98, 1, 99, 0]"
    by (simp add: dns_encode_name_def encode_loop.simps Let_def DOT_def lc_def DNS_MAX_NAME_def)
  have l: "length ([9] @ [2, 97, 98, 1, 99, 0] @ [7 :: byte]) = 8" "length [9 :: byte] = 1"
    "1 + length [2, 97, 98, 1, 99, 0 :: byte] = 7" by simp_all
  from dns_name_roundtrip [OF e, of "[9]" "[7]", unfolded l] e show ?thesis
    by (simp add: strip_dot_def DOT_def lc_def)
qed

end
