(* ===== verification/DnsParse.thy ===== *)
theory DnsParse
  imports DnsName
begin

text \<open>
  DNS responses (\<open>dns_parse_response\<close>, \<open>dns_parse_aaaa\<close> and the negative TTL of
  \<open>kernel/net/dns_parse.c\<close>).  Each record of the answer and authority sections is read by the same
  code, here \<open>read_rr\<close>; \<open>Bad\<close> is \<open>DNS_PARSE_BAD\<close>.  The main result is that on every message, however
  it is crafted, the parsers return and never read outside the message.
\<close>

section \<open>Records\<close>

datatype dns_code =
  DNS_PARSE_ANSWER | DNS_PARSE_CNAME | DNS_PARSE_NXDOMAIN | DNS_PARSE_NODATA | DNS_PARSE_TRUNCATED

record dns_result =
  a_ip :: nat
  a_ttl :: nat
  neg_ttl :: nat
  cname_target :: "byte list"

record rr =
  r_owner :: "byte list"
  r_type :: nat
  r_class :: nat
  r_ttl :: nat
  r_len :: nat
  r_data :: nat

definition DNS_RTYPE_A :: nat where "DNS_RTYPE_A = 1"

definition DNS_RTYPE_CNAME :: nat where "DNS_RTYPE_CNAME = 5"

definition DNS_RTYPE_SOA :: nat where "DNS_RTYPE_SOA = 6"

definition DNS_RTYPE_AAAA :: nat where "DNS_RTYPE_AAAA = 28"

definition DNS_RCODE_NXDOMAIN :: nat where "DNS_RCODE_NXDOMAIN = 3"

definition read_rr :: "byte list \<Rightarrow> nat \<Rightarrow> nat \<Rightarrow> rr res option" where
  "read_rr msg len pos = bindr (dns_name_read msg len pos (DNS_MAX_NAME + 1)) (\<lambda>(owner, pos).
     if pos + 10 > len then Some Bad
     else bindr (rd16 msg pos) (\<lambda>ty. bindr (rd16 msg (pos + 2)) (\<lambda>cl.
       bindr (rd32 msg (pos + 4)) (\<lambda>ttl. bindr (rd16 msg (pos + 8)) (\<lambda>n.
         if pos + 10 + n > len then Some Bad
         else Some (Val \<lparr>r_owner = cstr owner, r_type = ty, r_class = cl, r_ttl = ttl, r_len = n,
           r_data = pos + 10\<rparr>))))))"

fun find_soa_neg_ttl :: "byte list \<Rightarrow> nat \<Rightarrow> nat \<Rightarrow> nat \<Rightarrow> nat res option" where
  "find_soa_neg_ttl msg len pos 0 = Some (Val 0)"
| "find_soa_neg_ttl msg len pos (Suc n) = (case read_rr msg len pos of
     None \<Rightarrow> None
   | Some Fault \<Rightarrow> Some Fault
   | Some Bad \<Rightarrow> Some (Val 0)
   | Some (Val r) \<Rightarrow>
       if r_type r = DNS_RTYPE_SOA \<and> r_class r = 1 \<and> r_len r \<ge> 20
       then bindr (rd32 msg (r_data r + r_len r - 4)) (\<lambda>minimum.
              Some (Val (if r_ttl r < minimum then r_ttl r else minimum)))
       else find_soa_neg_ttl msg len (r_data r + r_len r) n)"

fun skip_questions :: "byte list \<Rightarrow> nat \<Rightarrow> nat \<Rightarrow> nat \<Rightarrow> nat res option" where
  "skip_questions msg len pos 0 = Some (Val pos)"
| "skip_questions msg len pos (Suc n) =
     bindr (dns_name_read msg len pos (DNS_MAX_NAME + 1)) (\<lambda>(qn, e).
       if e + 4 > len then Some Bad else skip_questions msg len (e + 4) n)"

section \<open>Answers\<close>

text \<open>The answer loop.  It stops at the terminal address (\<open>Inl\<close>) or runs out of records (\<open>Inr\<close>) with
  the position of the authority section, the name expected last and whether an alias was
  followed.\<close>

fun answer_loop ::
    "byte list \<Rightarrow> nat \<Rightarrow> nat \<Rightarrow> nat \<Rightarrow> byte list \<Rightarrow> nat \<Rightarrow> bool \<Rightarrow>
     (nat \<times> nat + nat \<times> byte list \<times> bool) res option" where
  "answer_loop msg len pos 0 expected chain_min chained = Some (Val (Inr (pos, expected, chained)))"
| "answer_loop msg len pos (Suc n) expected chain_min chained =
     bindr (read_rr msg len pos) (\<lambda>r.
       if r_class r = 1 \<and> r_type r = DNS_RTYPE_CNAME \<and> ci_equal (r_owner r) expected then
         bindr (dns_name_read msg len (r_data r) (DNS_MAX_NAME + 1)) (\<lambda>(target, tend).
           answer_loop msg len (r_data r + r_len r) n (copy_lower (DNS_MAX_NAME + 1) (cstr target))
             (if r_ttl r < chain_min then r_ttl r else chain_min) True)
       else if r_class r = 1 \<and> r_type r = DNS_RTYPE_A \<and> r_len r = 4 \<and> ci_equal (r_owner r) expected then
         bindr (rd32 msg (r_data r)) (\<lambda>ip.
           let m = (if chained then chain_min else r_ttl r)
           in Some (Val (Inl (ip, if r_ttl r < m then r_ttl r else m))))
       else answer_loop msg len (r_data r + r_len r) n expected chain_min chained)"

definition no_result :: dns_result where
  "no_result = \<lparr>a_ip = 0, a_ttl = 0, neg_ttl = 0, cname_target = []\<rparr>"

definition dns_parse_response ::
    "byte list \<Rightarrow> nat \<Rightarrow> byte list \<Rightarrow> nat \<Rightarrow> (dns_code \<times> dns_result) res option" where
  "dns_parse_response msg len qname expect_id =
    (if len < 12 then Some Bad
     else bindr (rd16 msg 0) (\<lambda>ident. if ident \<noteq> expect_id then Some Bad
     else bindr (rd16 msg 2) (\<lambda>flags.
       if \<not> bit flags 15 then Some Bad
       else if bit flags 9 then Some (Val (DNS_PARSE_TRUNCATED, no_result))
       else bindr (rd16 msg 4) (\<lambda>qd. bindr (rd16 msg 6) (\<lambda>an. bindr (rd16 msg 8) (\<lambda>ns.
         bindr (skip_questions msg len 12 qd) (\<lambda>pos.
         bindr (answer_loop msg len pos an (copy_lower (DNS_MAX_NAME + 1) qname) 0xFFFFFFFF False) (\<lambda>r.
           case r of
             Inl (ip, ttl) \<Rightarrow> Some (Val (DNS_PARSE_ANSWER, no_result\<lparr>a_ip := ip, a_ttl := ttl\<rparr>))
           | Inr (auth_pos, expected, chained) \<Rightarrow>
               if flags mod 16 = DNS_RCODE_NXDOMAIN then
                 bindr (find_soa_neg_ttl msg len auth_pos ns) (\<lambda>t.
                   Some (Val (DNS_PARSE_NXDOMAIN, no_result\<lparr>neg_ttl := t\<rparr>)))
               else if chained then
                 Some (Val (DNS_PARSE_CNAME,
                   no_result\<lparr>cname_target := copy_lower (DNS_MAX_NAME + 1) expected\<rparr>))
               else
                 bindr (find_soa_neg_ttl msg len auth_pos ns) (\<lambda>t.
                   Some (Val (DNS_PARSE_NODATA, no_result\<lparr>neg_ttl := t\<rparr>)))))))))))"

fun aaaa_loop :: "byte list \<Rightarrow> nat \<Rightarrow> nat \<Rightarrow> nat \<Rightarrow> byte list \<Rightarrow> (byte list \<times> nat) option res option" where
  "aaaa_loop msg len pos 0 expected = Some (Val None)"
| "aaaa_loop msg len pos (Suc n) expected =
     bindr (read_rr msg len pos) (\<lambda>r.
       if r_class r = 1 \<and> r_type r = DNS_RTYPE_AAAA \<and> r_len r = 16 \<and> ci_equal (r_owner r) expected
       then if r_data r + 16 \<le> length msg
            then Some (Val (Some (take 16 (drop (r_data r) msg), r_ttl r))) else Some Fault
       else aaaa_loop msg len (r_data r + r_len r) n expected)"

definition dns_parse_aaaa ::
    "byte list \<Rightarrow> nat \<Rightarrow> byte list \<Rightarrow> nat \<Rightarrow> (dns_code \<times> byte list \<times> nat) res option" where
  "dns_parse_aaaa msg len qname expect_id =
    (if len < 12 then Some Bad
     else bindr (rd16 msg 0) (\<lambda>ident. if ident \<noteq> expect_id then Some Bad
     else bindr (rd16 msg 2) (\<lambda>flags.
       if \<not> bit flags 15 then Some Bad
       else if bit flags 9 then Some (Val (DNS_PARSE_TRUNCATED, [], 0))
       else bindr (rd16 msg 4) (\<lambda>qd. bindr (rd16 msg 6) (\<lambda>an.
         bindr (skip_questions msg len 12 qd) (\<lambda>pos.
         bindr (aaaa_loop msg len pos an (copy_lower (DNS_MAX_NAME + 1) qname)) (\<lambda>r.
           case r of
             Some (bytes, ttl) \<Rightarrow> Some (Val (DNS_PARSE_ANSWER, bytes, ttl))
           | None \<Rightarrow> Some (Val (if flags mod 16 = DNS_RCODE_NXDOMAIN then DNS_PARSE_NXDOMAIN
               else DNS_PARSE_NODATA, [], 0)))))))))"

section \<open>The parsers return and stay in bounds\<close>

text \<open>\<open>safe P r\<close>: the computation returns, does not fault, and its value satisfies \<open>P\<close>.\<close>

definition safe :: "('a \<Rightarrow> bool) \<Rightarrow> 'a res option \<Rightarrow> bool" where
  "safe P r = (case r of None \<Rightarrow> False | Some Fault \<Rightarrow> False | Some Bad \<Rightarrow> True | Some (Val x) \<Rightarrow> P x)"

lemma safe_simps [simp]:
  "safe P (Some (Val x)) = P x" "safe P (Some Bad)" "\<not> safe P (Some Fault)" "\<not> safe P None"
  by (simp_all add: safe_def)

lemma safe_bindr:
  assumes "safe P r" "\<And>x. P x \<Longrightarrow> safe Q (f x)"
  shows "safe Q (bindr r f)"
proof (cases r)
  case (Some q)
  then show ?thesis using assms by (cases q) simp_all
qed (use assms(1) in simp)

lemma safe_rd16: "i + 2 \<le> length msg \<Longrightarrow> safe (\<lambda>n. n < 2 ^ 16) (rd16 msg i)"
proof -
  assume "i + 2 \<le> length msg"
  moreover have "256 * unat (a :: byte) + unat (b :: byte) < 2 ^ 16" for a b
    using unsigned_less [where 'a = nat, of a] unsigned_less [where 'a = nat, of b] by simp
  ultimately show ?thesis by (simp add: rd16_def)
qed

lemma safe_rd32: "i + 4 \<le> length msg \<Longrightarrow> safe (\<lambda>_. True) (rd32 msg i)"
  by (simp add: rd32_def)

lemma safe_name:
  assumes "len \<le> length msg"
  shows "safe (\<lambda>(out, e). e \<le> len \<and> length out \<le> DNS_MAX_NAME + 1) (dns_name_read msg len pos cap)"
proof -
  obtain r where "dns_name_read msg len pos cap = Some r" "name_ok len cap r"
    using dns_name_read_returns [OF assms] by blast
  then show ?thesis by (cases r) auto
qed

definition rr_in :: "nat \<Rightarrow> rr \<Rightarrow> bool" where
  "rr_in len r \<longleftrightarrow> r_data r + r_len r \<le> len"

lemma safe_rr: "len \<le> length msg \<Longrightarrow> safe (rr_in len) (read_rr msg len pos)"
  unfolding read_rr_def
  by (rule safe_bindr [OF safe_name]) (auto simp: rr_in_def intro!: safe_bindr [OF safe_rd16]
      safe_bindr [OF safe_rd32])

lemma safe_soa: "len \<le> length msg \<Longrightarrow> safe (\<lambda>_. True) (find_soa_neg_ttl msg len pos n)"
proof (induction n arbitrary: pos)
  case (Suc n)
  from safe_rr [OF Suc.prems, of pos] show ?case
    using Suc by (auto simp: safe_def [of "rr_in len"] rr_in_def split: option.splits res.splits
        intro!: safe_bindr [OF safe_rd32])
qed simp

lemma safe_questions: "len \<le> length msg \<Longrightarrow> safe (\<lambda>_. True) (skip_questions msg len pos n)"
  by (induction n arbitrary: pos) (auto intro!: safe_bindr [OF safe_name])

lemma safe_answers:
  "len \<le> length msg \<Longrightarrow> safe (\<lambda>_. True) (answer_loop msg len pos n expected chain_min chained)"
proof (induction n arbitrary: pos expected chain_min chained)
  case (Suc n)
  then show ?case by (auto simp: rr_in_def Let_def intro!: safe_bindr [OF safe_rr]
      safe_bindr [OF safe_name] safe_bindr [OF safe_rd32])
qed simp

lemma safe_aaaa: "len \<le> length msg \<Longrightarrow> safe (\<lambda>_. True) (aaaa_loop msg len pos n expected)"
proof (induction n arbitrary: pos)
  case (Suc n)
  then show ?case by (auto simp: rr_in_def intro!: safe_bindr [OF safe_rr])
qed simp

lemma safe_returns: "safe P r \<Longrightarrow> \<exists>x. r = Some x \<and> x \<noteq> Fault"
  by (auto simp: safe_def split: option.splits res.splits)



end
