(* ===== verification/DnsCache.thy ===== *)
theory DnsCache
  imports DnsName
begin

text \<open>
  The resolver cache (\<open>dns_cache_*\<close> of \<open>kernel/net/dns_parse.c\<close>): sixteen slots, each with a
  lower-case name, an expiry time and the value of a use counter for least-recently-used eviction.
  The invariant is that the used slots carry different normalised names; under it an insertion is
  found by the next lookup and disturbs at most one other name, the least recently used one.
\<close>

section \<open>State and operations\<close>

definition DNS_CACHE_MAX :: nat where "DNS_CACHE_MAX = 16"

definition DNS_TTL_CAP :: nat where "DNS_TTL_CAP = 86400"

record dns_cache_entry =
  c_name :: "byte list"
  c_ip :: nat
  c_used :: bool
  c_negative :: bool
  expires_at :: nat
  last_used :: nat

record dns_cache =
  slots :: "dns_cache_entry list"
  seq :: nat

definition zero_entry :: dns_cache_entry where
  "zero_entry = \<lparr>c_name = [], c_ip = 0, c_used = False, c_negative = False, expires_at = 0,
     last_used = 0\<rparr>"

definition dns_cache_reset :: dns_cache where
  "dns_cache_reset = \<lparr>slots = replicate DNS_CACHE_MAX zero_entry, seq = 0\<rparr>"

definition matches :: "byte list \<Rightarrow> dns_cache_entry \<Rightarrow> bool" where
  "matches key e \<longleftrightarrow> c_used e \<and> ci_equal (c_name e) key"

definition cache_find :: "dns_cache_entry list \<Rightarrow> byte list \<Rightarrow> nat option" where
  "cache_find es key = find (\<lambda>i. matches key (es ! i)) [0..<DNS_CACHE_MAX]"

text \<open>The result is the return value with the address, the negative flag and the remaining
  seconds.\<close>

definition dns_cache_lookup ::
    "byte list \<Rightarrow> nat \<Rightarrow> nat \<Rightarrow> dns_cache \<Rightarrow> (int \<times> nat \<times> bool \<times> nat) \<times> dns_cache" where
  "dns_cache_lookup name now tps c =
    (case cache_find (slots c) (copy_lower (DNS_MAX_NAME + 1) name) of
       None \<Rightarrow> ((0, 0, False, 0), c)
     | Some i \<Rightarrow>
        (let e = slots c ! i in
         if now \<ge> expires_at e
         then ((- 1, 0, False, 0), c\<lparr>slots := (slots c)[i := e\<lparr>c_used := False\<rparr>]\<rparr>)
         else let q = add64 (seq c) 1
           in ((1, c_ip e, c_negative e,
                if tps \<noteq> 0 then ((expires_at e - now) div tps) mod 2 ^ 32 else 0),
               c\<lparr>slots := (slots c)[i := e\<lparr>last_used := q\<rparr>], seq := q\<rparr>)))"

definition drop_expired :: "nat \<Rightarrow> dns_cache_entry list \<Rightarrow> dns_cache_entry list" where
  "drop_expired now = map (\<lambda>e. if c_used e \<and> now \<ge> expires_at e then e\<lparr>c_used := False\<rparr> else e)"

definition lru_step :: "dns_cache_entry list \<Rightarrow> nat \<Rightarrow> nat \<times> nat \<Rightarrow> nat \<times> nat" where
  "lru_step es i b = (case b of (slot, oldest) \<Rightarrow>
     if last_used (es ! i) < oldest then (i, last_used (es ! i)) else (slot, oldest))"

text \<open>The slot starts at \<open>-1\<close> in the code and is overwritten by the first use counter below the
  largest 64-bit value; the model starts at \<open>0\<close>, and the results below assume such a counter.\<close>

definition pick_slot :: "dns_cache_entry list \<Rightarrow> byte list \<Rightarrow> nat" where
  "pick_slot es key = (case cache_find es key of
     Some i \<Rightarrow> i
   | None \<Rightarrow> (case find (\<lambda>i. \<not> c_used (es ! i)) [0..<DNS_CACHE_MAX] of
       Some i \<Rightarrow> i
     | None \<Rightarrow> fst (fold (lru_step es) [0..<DNS_CACHE_MAX] (0, 2 ^ 64 - 1))))"

definition dns_cache_insert ::
    "byte list \<Rightarrow> nat \<Rightarrow> bool \<Rightarrow> nat \<Rightarrow> nat \<Rightarrow> nat \<Rightarrow> dns_cache \<Rightarrow> dns_cache" where
  "dns_cache_insert name ip neg ttl now tps c =
    (if name = [] \<or> ttl = 0 then c
     else let ttl = (if ttl > DNS_TTL_CAP then DNS_TTL_CAP else ttl);
              key = copy_lower (DNS_MAX_NAME + 1) name;
              es = drop_expired now (slots c);
              i = pick_slot es key;
              q = add64 (seq c) 1
       in c\<lparr>slots := es[i := \<lparr>c_name = take DNS_MAX_NAME key, c_ip = ip, c_used = True,
              c_negative = neg, expires_at = add64 now (mul64 ttl tps), last_used = q\<rparr>],
            seq := q\<rparr>)"

definition dns_cache_count :: "dns_cache \<Rightarrow> nat" where
  "dns_cache_count c = length (filter c_used (slots c))"

definition dns_cache_entry_at :: "dns_cache \<Rightarrow> int \<Rightarrow> dns_cache_entry option" where
  "dns_cache_entry_at c idx =
    (if idx < 0 \<or> idx \<ge> int DNS_CACHE_MAX \<or> \<not> c_used (slots c ! nat idx) then None
     else Some (slots c ! nat idx))"

section \<open>Invariant\<close>

text \<open>Different used slots carry different names, and names are stored in lower case.\<close>

definition cache_ok :: "dns_cache \<Rightarrow> bool" where
  "cache_ok c \<longleftrightarrow> length (slots c) = DNS_CACHE_MAX \<and>
     (\<forall>i < DNS_CACHE_MAX. c_used (slots c ! i) \<longrightarrow> map lc (c_name (slots c ! i)) = c_name (slots c ! i)) \<and>
     (\<forall>i < DNS_CACHE_MAX. \<forall>j < DNS_CACHE_MAX. c_used (slots c ! i) \<longrightarrow> c_used (slots c ! j) \<longrightarrow>
       c_name (slots c ! i) = c_name (slots c ! j) \<longrightarrow> i = j)"

lemma ci_equal_iff: "ci_equal a b \<longleftrightarrow> map lc a = map lc b"
  by (induction a b rule: ci_equal.induct) auto

lemma lower_lower [simp]: "map lc (copy_lower n xs) = copy_lower n xs"
  by (simp add: copy_lower_def)

lemma matches_iff:
  "cache_ok c \<Longrightarrow> i < DNS_CACHE_MAX \<Longrightarrow> map lc key = key \<Longrightarrow>
    matches key (slots c ! i) \<longleftrightarrow> c_used (slots c ! i) \<and> c_name (slots c ! i) = key"
  by (auto simp: matches_def ci_equal_iff cache_ok_def)

text \<open>The cache as a finite map from names to slots.\<close>

lemma cache_find_iff:
  assumes "cache_ok c" "map lc key = key"
  shows "cache_find (slots c) key = Some i \<longleftrightarrow>
    i < DNS_CACHE_MAX \<and> c_used (slots c ! i) \<and> c_name (slots c ! i) = key"
proof
  assume "cache_find (slots c) key = Some i"
  then show "i < DNS_CACHE_MAX \<and> c_used (slots c ! i) \<and> c_name (slots c ! i) = key"
    using matches_iff [OF assms(1) _ assms(2)] by (auto simp: cache_find_def find_Some_iff)
next
  assume i: "i < DNS_CACHE_MAX \<and> c_used (slots c ! i) \<and> c_name (slots c ! i) = key"
  then have "matches key (slots c ! i)" using matches_iff [OF assms(1) _ assms(2)] by simp
  then obtain j where j: "cache_find (slots c) key = Some j"
    using i by (fastforce simp: cache_find_def find_None_iff)
  then have "j < DNS_CACHE_MAX" "matches key (slots c ! j)"
    by (auto simp: cache_find_def find_Some_iff)
  then have "i = j" using i matches_iff [OF assms(1) _ assms(2), of j] assms(1)
    by (auto simp: cache_ok_def)
  then show "cache_find (slots c) key = Some i" using j by simp
qed

lemma cache_reset_ok: "cache_ok dns_cache_reset"
  by (simp add: cache_ok_def dns_cache_reset_def zero_entry_def)

lemma drop_expired_nth:
  "i < length es \<Longrightarrow> drop_expired now es ! i =
    (if c_used (es ! i) \<and> now \<ge> expires_at (es ! i) then (es ! i)\<lparr>c_used := False\<rparr> else es ! i)"
  "length (drop_expired now es) = length es"
  by (simp_all add: drop_expired_def)

lemma drop_expired_ok: "cache_ok c \<Longrightarrow> cache_ok (c\<lparr>slots := drop_expired now (slots c)\<rparr>)"
  by (auto simp: cache_ok_def drop_expired_nth split: if_splits)

lemma lru_fold:
  "fst (fold (lru_step es) is b) \<in> insert (fst b) (set is)"
proof (induction "is" arbitrary: b)
  case (Cons i "is")
  from Cons [of "lru_step es i b"] show ?case by (auto simp: lru_step_def split: prod.splits if_splits)
qed simp

lemma pick_slot_less: "pick_slot es key < DNS_CACHE_MAX"
  using lru_fold [of es "[0..<DNS_CACHE_MAX]" "(0, 2 ^ 64 - 1)"]
  by (auto simp: pick_slot_def cache_find_def find_Some_iff DNS_CACHE_MAX_def split: option.splits)


lemma lru_min:
  "(\<forall>i\<in>set is. last_used (es ! fst (fold (lru_step es) is (k, m))) \<le> last_used (es ! i) \<or>
     m \<le> last_used (es ! i)) \<and>
   (fold (lru_step es) is (k, m) = (k, m) \<or>
     snd (fold (lru_step es) is (k, m)) = last_used (es ! fst (fold (lru_step es) is (k, m)))) \<and>
   snd (fold (lru_step es) is (k, m)) \<le> m"
proof (induction "is" arbitrary: k m)
  case (Cons i "is")
  show ?case
  proof (cases "last_used (es ! i) < m")
    case True
    then have "fold (lru_step es) (i # is) (k, m) = fold (lru_step es) is (i, last_used (es ! i))"
      by (simp add: lru_step_def)
    with Cons [of i "last_used (es ! i)"] True show ?thesis by (auto 4 3 dest: order_trans)
  next
    case False
    then have "fold (lru_step es) (i # is) (k, m) = fold (lru_step es) is (k, m)"
      by (simp add: lru_step_def)
    with Cons [of k m] False show ?thesis by auto
  qed
qed simp


text \<open>Which slot an insertion takes: the one of the name, else an unused one, else the least
  recently used one.\<close>

lemma pick_slot_cases:
  assumes "\<forall>i < DNS_CACHE_MAX. last_used (es ! i) < 2 ^ 64 - 1"
  shows "cache_find es key = Some (pick_slot es key) \<or>
    cache_find es key = None \<and> \<not> c_used (es ! pick_slot es key) \<or>
    cache_find es key = None \<and> (\<forall>i < DNS_CACHE_MAX. c_used (es ! i) \<and>
      last_used (es ! pick_slot es key) \<le> last_used (es ! i))"
proof (cases "cache_find es key")
  case None
  show ?thesis
  proof (cases "find (\<lambda>i. \<not> c_used (es ! i)) [0..<DNS_CACHE_MAX]")
    case None
    then have "\<forall>i < DNS_CACHE_MAX. c_used (es ! i)" by (auto simp: find_None_iff)
    moreover have "last_used (es ! pick_slot es key) \<le> last_used (es ! i)" if "i < DNS_CACHE_MAX" for i
      using lru_min [of "[0..<DNS_CACHE_MAX]" es 0 "2 ^ 64 - 1"] assms that None \<open>cache_find es key = None\<close>
      by (fastforce simp: pick_slot_def)
    ultimately show ?thesis using \<open>cache_find es key = None\<close> by blast
  next
    case (Some j)
    then have "pick_slot es key = j" using \<open>cache_find es key = None\<close> by (simp add: pick_slot_def)
    moreover have "\<not> c_used (es ! j)" using Some by (auto simp: find_Some_iff)
    ultimately show ?thesis using \<open>cache_find es key = None\<close> by simp
  qed
qed (simp add: pick_slot_def)

lemma put_slot_ok:
  assumes "cache_ok c" "map lc key = key" "i < DNS_CACHE_MAX" "c_name e = key" "c_used e"
    "\<And>j. cache_find (slots c) key = Some j \<Longrightarrow> j = i"
  shows "cache_ok (c\<lparr>slots := (slots c)[i := e], seq := q\<rparr>)"
proof -
  have "j = i" if "j < DNS_CACHE_MAX" "c_used (slots c ! j)" "c_name (slots c ! j) = key" for j
    using that cache_find_iff [OF assms(1,2)] assms(6) by blast
  then show ?thesis using assms(1-5) by (auto simp: cache_ok_def nth_list_update)
qed

text \<open>C26: an insertion into the resolver cache keeps the invariant, is found by every lookup of the
  name before its expiry with the address it stored, and changes no other slot except that expired
  entries are dropped; if it takes the slot of a live entry of another name, the cache was full and
  that entry was the least recently used one.
\<close>

theorem dns_cache_insert_lookup:
  assumes "cache_ok c" "name \<noteq> []" "0 < ttl" "now + min ttl DNS_TTL_CAP * tps < 2 ^ 64"
    "\<forall>i < DNS_CACHE_MAX. last_used (slots c ! i) < 2 ^ 64 - 1"
    "c' = dns_cache_insert name ip neg ttl now tps c" "es = drop_expired now (slots c)"
    "i = pick_slot es (copy_lower (DNS_MAX_NAME + 1) name)"
  shows "cache_ok c' \<and>
    (\<forall>t < now + min ttl DNS_TTL_CAP * tps. \<exists>left c''.
      dns_cache_lookup name t tps c' = ((1, ip, neg, left), c'')) \<and>
    (\<forall>j < DNS_CACHE_MAX. j \<noteq> i \<longrightarrow> slots c' ! j = es ! j) \<and>
    (c_used (es ! i) \<longrightarrow> c_name (es ! i) = copy_lower (DNS_MAX_NAME + 1) name \<or>
      (\<forall>j < DNS_CACHE_MAX. c_used (es ! j) \<and> last_used (es ! i) \<le> last_used (es ! j)))"
proof -
  let ?key = "copy_lower (DNS_MAX_NAME + 1) name"
  let ?d = "c\<lparr>slots := es\<rparr>"
  define e where "e = \<lparr>c_name = ?key, c_ip = ip, c_used = True, c_negative = neg,
    expires_at = now + min ttl DNS_TTL_CAP * tps, last_used = add64 (seq c) 1\<rparr>"
  have len: "length es = DNS_CACHE_MAX" using assms(1,7) by (simp add: cache_ok_def drop_expired_nth)
  have d: "cache_ok ?d" using drop_expired_ok [OF assms(1)] assms(7) by simp
  have i: "i < DNS_CACHE_MAX" using assms(8) pick_slot_less by simp
  have "take DNS_MAX_NAME ?key = ?key" by (simp add: copy_lower_def)
  moreover have "mul64 (min ttl DNS_TTL_CAP) tps = min ttl DNS_TTL_CAP * tps"
    "add64 now (min ttl DNS_TTL_CAP * tps) = now + min ttl DNS_TTL_CAP * tps"
    using assms(4) by (simp_all add: mul64_id add64_id)
  moreover have "(if ttl > DNS_TTL_CAP then DNS_TTL_CAP else ttl) = min ttl DNS_TTL_CAP" by simp
  ultimately have c': "c' = ?d\<lparr>slots := es[i := e], seq := add64 (seq c) 1\<rparr>"
    using assms(2,3,6,7,8) by (simp add: dns_cache_insert_def e_def Let_def)
  have "last_used (es ! j) < 2 ^ 64 - 1" if "j < DNS_CACHE_MAX" for j
    using that assms(1,5,7) by (simp add: drop_expired_nth cache_ok_def)
  then have cases: "cache_find es ?key = Some i \<or> cache_find es ?key = None \<and> \<not> c_used (es ! i) \<or>
      cache_find es ?key = None \<and> (\<forall>j < DNS_CACHE_MAX. c_used (es ! j) \<and>
        last_used (es ! i) \<le> last_used (es ! j))"
    using pick_slot_cases [of es ?key] assms(8) by simp
  have ok: "cache_ok c'"
    unfolding c' using put_slot_ok [OF d _ i, of ?key e] cases by (auto simp: e_def)
  have "cache_find (slots c') ?key = Some i"
    using cache_find_iff [OF ok, of ?key i] i len by (simp add: c' e_def)
  then have "\<exists>left c''. dns_cache_lookup name t tps c' = ((1, ip, neg, left), c'')"
    if "t < now + min ttl DNS_TTL_CAP * tps" for t
    using that i len by (simp add: dns_cache_lookup_def Let_def c' e_def)
  moreover have "slots c' ! j = es ! j" if "j < DNS_CACHE_MAX" "j \<noteq> i" for j
    using that by (simp add: c')
  moreover have "c_name (es ! i) = ?key" if "cache_find es ?key = Some i"
    using that cache_find_iff [OF d, of ?key i] by simp
  ultimately show ?thesis using ok cases by blast
qed

theorem dns_cache_insert_lookup_witness:
  "\<exists>left c''. dns_cache_lookup [65] 10 100 (dns_cache_insert [97] 7 False 60 5 100 dns_cache_reset) =
     ((1, 7, False, left), c'')"
proof -
  have "\<forall>i < DNS_CACHE_MAX. last_used (slots dns_cache_reset ! i) < 2 ^ 64 - 1"
    by (simp add: dns_cache_reset_def zero_entry_def)
  from dns_cache_insert_lookup [OF cache_reset_ok _ _ _ this refl refl refl, of "[65]" 60 5 100 7 False]
  have "\<exists>left c''. dns_cache_lookup [65] 10 100 (dns_cache_insert [65] 7 False 60 5 100 dns_cache_reset) =
     ((1, 7, False, left), c'')"
    by (auto simp: DNS_TTL_CAP_def)
  moreover have "copy_lower (DNS_MAX_NAME + 1) [65] = copy_lower (DNS_MAX_NAME + 1) [97]"
    by (simp add: copy_lower_def lc_def DNS_MAX_NAME_def)
  ultimately show ?thesis by (simp add: dns_cache_insert_def)
qed

end
