(* ===== verification/Path.thy ===== *)
theory Path
  imports Main
begin

text \<open>
  Lexical path canonicalisation, \<open>kernel/fs/path.c\<close>.  Strings are character lists without the
  terminator; the bytes written so far, \<open>out[0..w)\<close>, are the list \<open>out\<close>.  The reference semantics is
  a stack of components; the routine is proved equal to it.
\<close>

section \<open>The routine\<close>

abbreviation slash :: char where "slash \<equiv> CHR ''/''"

text \<open>Backing up over one component: to its separator, then over the separator unless it is the
  root's.\<close>

function back_to_sep :: "string \<Rightarrow> string" where
  "back_to_sep out = (if length out > 1 \<and> last out \<noteq> slash then back_to_sep (butlast out) else out)"
  by pat_completeness auto
termination
  by (relation "measure length") auto

declare back_to_sep.simps [simp del]

definition climb :: "string \<Rightarrow> string" where
  "climb out =
     (if length out > 1
      then let out = back_to_sep out in if length out > 1 then butlast out else out
      else out)"

text \<open>One turn of the main loop, for the component \<open>name\<close>.\<close>

definition canon_step :: "nat \<Rightarrow> string \<Rightarrow> string \<Rightarrow> string option" where
  "canon_step out_len name out =
     (if name = ''.'' then Some out
      else if name = ''..'' then Some (climb out)
      else if length out > 1 \<and> length out + 1 \<ge> out_len then None
      else let out = (if length out > 1 then out @ [slash] else out)
           in if length out + length name \<ge> out_len then None else Some (out @ name))"

lemma rest_shorter:
  assumes "q = dropWhile (\<lambda>c. c = slash) p" "q \<noteq> []"
  shows "length (dropWhile (\<lambda>c. c \<noteq> slash) q) < length p"
proof -
  have "hd q \<noteq> slash" using assms hd_dropWhile [of "\<lambda>c. c = slash" p] by auto
  with assms(2) have "length (dropWhile (\<lambda>c. c \<noteq> slash) q) < length q"
    by (cases q) (auto simp: le_imp_less_Suc length_dropWhile_le)
  also have "length q \<le> length p" using assms(1) length_dropWhile_le by auto
  finally show ?thesis .
qed

function canon_loop :: "nat \<Rightarrow> string \<Rightarrow> string \<Rightarrow> string option" where
  "canon_loop out_len p out =
     (let p = dropWhile (\<lambda>c. c = slash) p in
      if p = [] then Some out
      else (case canon_step out_len (takeWhile (\<lambda>c. c \<noteq> slash) p) out of
              None \<Rightarrow> None
            | Some out' \<Rightarrow> canon_loop out_len (dropWhile (\<lambda>c. c \<noteq> slash) p) out'))"
  by pat_completeness auto
termination
  by (relation "measure (\<lambda>(out_len, p, out). length p)") (auto simp: rest_shorter)

declare canon_loop.simps [simp del]

definition vfs_canonical_path :: "string \<Rightarrow> nat \<Rightarrow> string option" where
  "vfs_canonical_path s out_len =
     (if out_len < 2 then None
      else if s = [] \<or> hd s \<noteq> slash then None
      else canon_loop out_len s [slash])"

section \<open>The reference\<close>

text \<open>The components of a path, what each does to the stack of names, and the path of a stack.\<close>

function comps :: "string \<Rightarrow> string list" where
  "comps p =
     (let p = dropWhile (\<lambda>c. c = slash) p in
      if p = [] then [] else takeWhile (\<lambda>c. c \<noteq> slash) p # comps (dropWhile (\<lambda>c. c \<noteq> slash) p))"
  by pat_completeness auto
termination
  by (relation "measure length") (auto simp: rest_shorter)

declare comps.simps [simp del]

definition resolve :: "string \<Rightarrow> string list \<Rightarrow> string list" where
  "resolve c st = (if c = ''.'' then st else if c = ''..'' then butlast st else st @ [c])"

definition render :: "string list \<Rightarrow> string" where
  "render st = (if st = [] then [slash] else concat (map (\<lambda>c. slash # c) st))"

definition name_ok :: "string \<Rightarrow> bool" where
  "name_ok c \<longleftrightarrow> c \<noteq> [] \<and> slash \<notin> set c \<and> c \<noteq> ''.'' \<and> c \<noteq> ''..''"

section \<open>Equivalence\<close>

lemma render_snoc: "render (st @ [c]) = (if st = [] then [slash] else render st @ [slash]) @ c"
  by (simp add: render_def)

lemma render_length: "render st \<noteq> []" "st \<noteq> [] \<Longrightarrow> \<forall>c \<in> set st. c \<noteq> [] \<Longrightarrow> 1 < length (render st)"
  by (cases st; simp add: render_def)+

lemma back_to_sep_append:
  "out \<noteq> [] \<Longrightarrow> slash \<notin> set c \<Longrightarrow> back_to_sep (out @ [slash] @ c) = out @ [slash]"
proof (induction c rule: rev_induct)
  case Nil
  then show ?case by (subst back_to_sep.simps) simp
next
  case (snoc x c)
  then have "back_to_sep (out @ [slash] @ c @ [x]) = back_to_sep (out @ [slash] @ c)"
    by (subst back_to_sep.simps) (auto simp: butlast_append)
  with snoc show ?case by simp
qed

lemma back_to_sep_root: "slash \<notin> set c \<Longrightarrow> back_to_sep ([slash] @ c) = [slash]"
proof (induction c rule: rev_induct)
  case Nil
  then show ?case by (subst back_to_sep.simps) simp
next
  case (snoc x c)
  then have "back_to_sep ([slash] @ c @ [x]) = back_to_sep ([slash] @ c)"
    by (subst back_to_sep.simps) (auto simp: butlast_append)
  with snoc show ?case by simp
qed

lemma climb_render:
  assumes "\<forall>c \<in> set st. c \<noteq> [] \<and> slash \<notin> set c"
  shows "climb (render st) = render (butlast st)"
proof (cases st rule: rev_cases)
  case Nil
  then show ?thesis by (simp add: climb_def render_def)
next
  case (snoc st' c)
  then have c: "c \<noteq> []" "slash \<notin> set c" "\<forall>c \<in> set st'. c \<noteq> [] \<and> slash \<notin> set c" using assms by auto
  have "1 < length (render st)" using render_length(2) [of st] snoc assms by auto
  then show ?thesis
    using snoc c back_to_sep_root [of c] back_to_sep_append [of "render st'" c] render_length(1) [of st']
    by (auto simp: climb_def render_snoc Let_def) (auto simp: render_def)
qed

lemma canon_step_render:
  assumes "\<forall>c \<in> set st. name_ok c" "name \<noteq> []" "slash \<notin> set name"
  shows "canon_step out_len name (render st) = Some out \<Longrightarrow> out = render (resolve name st)"
    and "length (render st) + Suc (length name) < out_len + (if st = [] then 1 else 0) \<Longrightarrow>
      canon_step out_len name (render st) = Some (render (resolve name st))"
proof -
  have st: "\<forall>c \<in> set st. c \<noteq> [] \<and> slash \<notin> set c" using assms(1) by (auto simp: name_ok_def)
  have len: "1 < length (render st) \<longleftrightarrow> st \<noteq> []"
    using render_length(2) [of st] st by (auto simp: render_def [of "[]"])
  show "canon_step out_len name (render st) = Some out \<Longrightarrow> out = render (resolve name st)"
    using climb_render [OF st] len
    by (auto simp: canon_step_def resolve_def render_snoc Let_def split: if_splits) (auto simp: render_def)
  show "length (render st) + Suc (length name) < out_len + (if st = [] then 1 else 0) \<Longrightarrow>
      canon_step out_len name (render st) = Some (render (resolve name st))"
    using climb_render [OF st] len
    by (auto simp: canon_step_def resolve_def render_snoc Let_def) (auto simp: render_def)
qed

lemma resolve_ok:
  assumes "\<forall>c \<in> set st. name_ok c" "name \<noteq> []" "slash \<notin> set name"
  shows "\<forall>c \<in> set (resolve name st). name_ok c"
  using assms by (auto simp: resolve_def name_ok_def dest: in_set_butlastD)

lemma first_name:
  assumes "q = dropWhile (\<lambda>c. c = slash) p" "q \<noteq> []"
  shows "takeWhile (\<lambda>c. c \<noteq> slash) q \<noteq> []" "slash \<notin> set (takeWhile (\<lambda>c. c \<noteq> slash) q)"
proof -
  have "hd q \<noteq> slash" using assms hd_dropWhile [of "\<lambda>c. c = slash" p] by auto
  with assms(2) show "takeWhile (\<lambda>c. c \<noteq> slash) q \<noteq> []" by (cases q) auto
  show "slash \<notin> set (takeWhile (\<lambda>c. c \<noteq> slash) q)" by (auto dest: set_takeWhileD)
qed

lemma canon_loop_render:
  assumes "\<forall>c \<in> set st. name_ok c"
  shows "canon_loop out_len p (render st) = Some out \<Longrightarrow> out = render (fold resolve (comps p) st)"
  using assms
proof (induction p arbitrary: st rule: comps.induct)
  case (1 p)
  define q where "q = dropWhile (\<lambda>c. c = slash) p"
  let ?n = "takeWhile (\<lambda>c. c \<noteq> slash) q" and ?r = "dropWhile (\<lambda>c. c \<noteq> slash) q"
  note loop = canon_loop.simps [of out_len p "render st", folded q_def, unfolded Let_def]
    and cs = comps.simps [of p, folded q_def, unfolded Let_def]
  show ?case
  proof (cases "q = []")
    case True
    then show ?thesis using 1(2) by (simp add: loop [folded q_def] cs Let_def q_def [symmetric])
  next
    case False
    note n = first_name [OF q_def False]
    obtain out' where o: "canon_step out_len ?n (render st) = Some out'"
      "canon_loop out_len ?r out' = Some out"
      using 1(2) False by (auto simp: loop Let_def q_def [symmetric] split: option.splits)
    have "out' = render (resolve ?n st)" using canon_step_render(1) [OF 1(3) n o(1)] .
    with 1(1) [OF q_def False, of "resolve ?n st"] o(2) resolve_ok [OF 1(3) n] False show ?thesis
      by (simp add: cs Let_def q_def [symmetric])
  qed
qed

text \<open>Bytes of the stack that count against the buffer.\<close>

definition used_len :: "string list \<Rightarrow> nat" where
  "used_len st = (if st = [] then 0 else length (render st))"

lemma used_len_resolve: "used_len (resolve c st) \<le> used_len st + Suc (length c)"
proof -
  have "used_len (butlast st) \<le> used_len st"
    by (cases st rule: rev_cases) (auto simp: used_len_def render_def)
  then show ?thesis by (auto simp: resolve_def used_len_def render_snoc)
qed

lemma canon_loop_succeeds:
  assumes "\<forall>c \<in> set st. name_ok c" "p = [] \<or> hd p = slash" "used_len st + length p < out_len"
  shows "\<exists>out. canon_loop out_len p (render st) = Some out"
  using assms
proof (induction p arbitrary: st rule: comps.induct)
  case (1 p)
  define q where "q = dropWhile (\<lambda>c. c = slash) p"
  let ?n = "takeWhile (\<lambda>c. c \<noteq> slash) q" and ?r = "dropWhile (\<lambda>c. c \<noteq> slash) q"
  show ?case
  proof (cases "q = []")
    case True
    then show ?thesis by (subst canon_loop.simps) (simp add: q_def)
  next
    case False
    note n = first_name [OF q_def False]
    have "length q < length p" using False 1(3) by (cases p) (auto simp: q_def le_imp_less_Suc length_dropWhile_le)
    moreover have "length ?n + length ?r = length q" by (metis length_append takeWhile_dropWhile_id)
    ultimately have len: "Suc (length ?n) + length ?r \<le> length p" by simp
    then have "length (render st) + Suc (length ?n) < out_len + (if st = [] then 1 else 0)"
      using 1(4) by (auto simp: used_len_def render_def)
    from canon_step_render(2) [OF 1(2) n this]
    have step: "canon_loop out_len p (render st) = canon_loop out_len ?r (render (resolve ?n st))"
      using False by (subst canon_loop.simps) (simp add: q_def [symmetric] Let_def)
    have "?r = [] \<or> hd ?r = slash" using hd_dropWhile [of "\<lambda>c. c \<noteq> slash" q] by auto
    moreover have "used_len (resolve ?n st) + length ?r < out_len"
      using used_len_resolve [of ?n st] len 1(4) by linarith
    ultimately show ?thesis
      unfolding step using 1(1) [OF q_def False resolve_ok [OF 1(2) n]] by blast
  qed
qed

lemma fold_resolve_ok: "\<forall>c \<in> set cs. c \<noteq> [] \<and> slash \<notin> set c \<Longrightarrow> \<forall>c \<in> set st. name_ok c \<Longrightarrow>
    \<forall>c \<in> set (fold resolve cs st). name_ok c"
proof (induction cs arbitrary: st)
  case (Cons c cs)
  then show ?case using resolve_ok [of st c] by simp
qed simp

lemma comps_names: "\<forall>c \<in> set (comps p). c \<noteq> [] \<and> slash \<notin> set c"
proof (induction p rule: comps.induct)
  case (1 p)
  define q where "q = dropWhile (\<lambda>c. c = slash) p"
  show ?case
  proof (cases "q = []")
    case True
    then show ?thesis by (subst comps.simps) (simp add: q_def)
  next
    case False
    then show ?thesis using 1 [OF q_def False] first_name [OF q_def False]
      by (subst comps.simps) (simp add: q_def [symmetric] Let_def)
  qed
qed

section \<open>Properties\<close>

text \<open>C27: canonicalisation is the stack semantics of POSIX: whenever it succeeds, the result is the
  path of the names left after dropping empty and \<open>.\<close> components and letting each \<open>..\<close> cancel the
  name before it (nothing at the root); no name of the result is empty, \<open>.\<close>, \<open>..\<close> or contains a
  slash; and it succeeds for every absolute path shorter than the buffer.\<close>

theorem vfs_canonical_path_correct:
  assumes "s \<noteq> []" and "hd s = slash" and "2 \<le> out_len"
  shows "(\<forall>out. vfs_canonical_path s out_len = Some out \<longrightarrow> out = render (fold resolve (comps s) [])) \<and>
    (\<forall>c \<in> set (fold resolve (comps s) []). name_ok c) \<and>
    (length s < out_len \<longrightarrow> (\<exists>out. vfs_canonical_path s out_len = Some out))"
proof -
  have r: "vfs_canonical_path s out_len = canon_loop out_len s (render [])"
    using assms by (simp add: vfs_canonical_path_def render_def)
  show ?thesis
    using canon_loop_render [of "[]" out_len s] canon_loop_succeeds [of "[]" s out_len] assms
      fold_resolve_ok [OF comps_names [of s], of "[]"]
    by (auto simp: r used_len_def)
qed

theorem vfs_canonical_path_correct_witness:
  "vfs_canonical_path ''/tmp/./sub/../../..//a'' 256 = Some ''/a''"
proof -
  have "render (fold resolve (comps ''/tmp/./sub/../../..//a'') []) = ''/a''"
    by (simp add: comps.simps Let_def resolve_def render_def)
  with vfs_canonical_path_correct [of "''/tmp/./sub/../../..//a''" 256] show ?thesis by auto
qed

end
