(* ===== verification/VfsMount.thy ===== *)
theory VfsMount
  imports Path Prelude
begin

text \<open>
  The mount table and the path-to-mount match of \<open>kernel/fs/vfsmount.c\<close>.  A mount's operations are
  the function pointers of its file system; the vnode they return and the file-system data are
  type parameters.  \<open>None\<close> is a null vnode or the return value -1.
\<close>

section \<open>The table\<close>

definition VFS_MAX_MOUNTS :: nat where "VFS_MAX_MOUNTS = 16"
definition VFS_PATH_MAX :: nat where "VFS_PATH_MAX = 256"
definition ENOSPC :: int where "ENOSPC = 28"

record ('d, 'v) vfs_ops =
  op_lookup :: "('d \<Rightarrow> string \<Rightarrow> 'v option) option"
  op_create :: "('d \<Rightarrow> string \<Rightarrow> 'v option) option"

record ('d, 'v) vfs_mount =
  mount_path :: string
  m_ops :: "('d, 'v) vfs_ops option"
  fs_data :: 'd
  in_use :: bool

definition vfsm_mount ::
  "string \<Rightarrow> ('d, 'v) vfs_ops option \<Rightarrow> 'd \<Rightarrow> ('d, 'v) vfs_mount list \<Rightarrow> int \<times> ('d, 'v) vfs_mount list" where
  "vfsm_mount path ops d mounts =
     (case find (\<lambda>i. \<not> in_use (mounts ! i)) [0..<VFS_MAX_MOUNTS] of
        Some i \<Rightarrow> (0, mounts[i := \<lparr>mount_path = take (VFS_PATH_MAX - 1) path, m_ops = ops, fs_data = d,
                             in_use = True\<rparr>])
      | None \<Rightarrow> (- ENOSPC, mounts))"

text \<open>The test of one mount against a path, and the search that keeps the longest match.\<close>

definition mount_match :: "('d, 'v) vfs_mount \<Rightarrow> string \<Rightarrow> bool" where
  "mount_match m path \<longleftrightarrow>
     (let mlen = length (mount_path m) in
      in_use m \<and> mlen \<le> length path \<and> take mlen path = mount_path m \<and>
      \<not> (mlen > 1 \<and> mlen \<noteq> length path \<and> path ! mlen \<noteq> slash))"

definition vfsm_find :: "string \<Rightarrow> ('d, 'v) vfs_mount list \<Rightarrow> (nat \<times> string) option" where
  "vfsm_find path mounts =
     (if path = [] \<or> hd path \<noteq> slash then None
      else case fold (\<lambda>i (best_mount, best_len).
               if mount_match (mounts ! i) path \<and> length (mount_path (mounts ! i)) > best_len
               then (Some i, length (mount_path (mounts ! i)))
               else (best_mount, best_len)) [0..<VFS_MAX_MOUNTS] (None, 0) of
             (None, _) \<Rightarrow> None
           | (Some i, best_len) \<Rightarrow>
               let rel = drop best_len path
               in Some (i, if rel \<noteq> [] \<and> hd rel = slash then tl rel else rel))"

definition vfsm_lookup :: "string \<Rightarrow> ('d, 'v) vfs_mount list \<Rightarrow> 'v option" where
  "vfsm_lookup path mounts =
     (case vfsm_find path mounts of
        None \<Rightarrow> None
      | Some (i, rel) \<Rightarrow>
          (case m_ops (mounts ! i) of
             None \<Rightarrow> None
           | Some ops \<Rightarrow>
               (case op_lookup ops of None \<Rightarrow> None | Some f \<Rightarrow> f (fs_data (mounts ! i)) rel)))"

definition vfsm_create :: "string \<Rightarrow> ('d, 'v) vfs_mount list \<Rightarrow> 'v option" where
  "vfsm_create path mounts =
     (case vfsm_find path mounts of
        None \<Rightarrow> None
      | Some (i, rel) \<Rightarrow>
          (case m_ops (mounts ! i) of
             None \<Rightarrow> None
           | Some ops \<Rightarrow>
               (case op_create ops of None \<Rightarrow> None | Some f \<Rightarrow> f (fs_data (mounts ! i)) rel)))"

definition vfsm_slots :: nat where
  "vfsm_slots = VFS_MAX_MOUNTS"

definition vfsm_get :: "int \<Rightarrow> ('d, 'v) vfs_mount list \<Rightarrow> ('d, 'v) vfs_mount option" where
  "vfsm_get idx mounts =
     (if idx < 0 \<or> idx \<ge> int VFS_MAX_MOUNTS \<or> \<not> in_use (mounts ! nat idx) then None
      else Some (mounts ! nat idx))"

section \<open>Longest match\<close>

definition best_step :: "('d, 'v) vfs_mount list \<Rightarrow> string \<Rightarrow> nat \<Rightarrow> nat option \<times> nat \<Rightarrow> nat option \<times> nat" where
  "best_step mounts path i = (\<lambda>(best_mount, best_len).
     if mount_match (mounts ! i) path \<and> length (mount_path (mounts ! i)) > best_len
     then (Some i, length (mount_path (mounts ! i)))
     else (best_mount, best_len))"

text \<open>The first of the longest non-empty matches among the first \<open>n\<close> mounts.\<close>

definition is_best :: "('d, 'v) vfs_mount list \<Rightarrow> string \<Rightarrow> nat \<Rightarrow> nat option \<times> nat \<Rightarrow> bool" where
  "is_best mounts path n r \<longleftrightarrow>
     (case r of
        (None, l) \<Rightarrow> l = 0 \<and> (\<forall>j < n. mount_match (mounts ! j) path \<longrightarrow> mount_path (mounts ! j) = [])
      | (Some i, l) \<Rightarrow> i < n \<and> mount_match (mounts ! i) path \<and> l = length (mount_path (mounts ! i)) \<and> 0 < l \<and>
          (\<forall>j < n. mount_match (mounts ! j) path \<longrightarrow> length (mount_path (mounts ! j)) \<le> l) \<and>
          (\<forall>j < i. mount_match (mounts ! j) path \<longrightarrow> length (mount_path (mounts ! j)) < l))"

lemma best_step_best:
  "is_best mounts path n r \<Longrightarrow> is_best mounts path (Suc n) (best_step mounts path n r)"
  by (cases r; cases "fst r") (auto simp: is_best_def best_step_def less_Suc_eq)

lemma best_fold: "is_best mounts path n (fold (best_step mounts path) [0..<n] (None, 0))"
proof (induction n)
  case 0
  show ?case by (simp add: is_best_def)
next
  case (Suc n)
  from best_step_best [OF this] show ?case by simp
qed

lemma vfsm_find_fold:
  "vfsm_find path mounts =
     (if path = [] \<or> hd path \<noteq> slash then None
      else case fold (best_step mounts path) [0..<16] (None, 0) of
             (None, _) \<Rightarrow> None
           | (Some i, best_len) \<Rightarrow>
               let rel = drop best_len path
               in Some (i, if rel \<noteq> [] \<and> hd rel = slash then tl rel else rel))"
  unfolding vfsm_find_def VFS_MAX_MOUNTS_def best_step_def [abs_def] by (rule refl)

lemma vfsm_find_Some:
  assumes "vfsm_find path mounts = Some (i, rel)"
  shows "i < 16" "mount_match (mounts ! i) path" "mount_path (mounts ! i) \<noteq> []"
    "\<forall>j < 16. mount_match (mounts ! j) path \<longrightarrow> length (mount_path (mounts ! j)) \<le> length (mount_path (mounts ! i))"
    "path = mount_path (mounts ! i) @ rel \<or> path = mount_path (mounts ! i) @ slash # rel"
proof -
  obtain l where f: "fold (best_step mounts path) [0..<16] (None, 0) = (Some i, l)"
    and rel: "rel = (if drop l path \<noteq> [] \<and> hd (drop l path) = slash then tl (drop l path) else drop l path)"
    using assms by (auto simp: vfsm_find_fold Let_def split: if_splits prod.splits option.splits)
  from best_fold [of mounts path 16] f
  have b: "i < 16" "mount_match (mounts ! i) path" "l = length (mount_path (mounts ! i))" "0 < l"
    "\<forall>j < 16. mount_match (mounts ! j) path \<longrightarrow> length (mount_path (mounts ! j)) \<le> l"
    by (auto simp: is_best_def)
  show "i < 16" "mount_match (mounts ! i) path" "mount_path (mounts ! i) \<noteq> []"
    "\<forall>j < 16. mount_match (mounts ! j) path \<longrightarrow> length (mount_path (mounts ! j)) \<le> length (mount_path (mounts ! i))"
    using b by auto
  have "path = mount_path (mounts ! i) @ drop l path"
    using b(2,3) by (metis append_take_drop_id mount_match_def)
  then show "path = mount_path (mounts ! i) @ rel \<or> path = mount_path (mounts ! i) @ slash # rel"
    using rel by (cases "drop l path") auto
qed

section \<open>Properties\<close>


definition demo_mounts :: "(nat, nat) vfs_mount list" where
  "demo_mounts = snd (vfsm_mount ''/tmp'' None 1 (snd (vfsm_mount ''/'' None 0
     (replicate 16 \<lparr>mount_path = [], m_ops = None, fs_data = 0, in_use = False\<rparr>))))"

lemma demo_mounts_find: "vfsm_find ''/tmpfile'' demo_mounts = Some (0, ''tmpfile'')"
  by code_simp


end
