(* ===== verification/Vma.thy ===== *)
theory Vma
  imports Prelude
begin

text \<open>
  The list of a process's virtual memory areas, \<open>kernel/mm/vma.c\<close>.  The singly linked list, which is
  walked through pointers to its links, is a HOL list.  \<open>answers\<close> holds the outcomes of the coming
  allocations of a descriptor (an exhausted list fails); \<open>ofd_refs\<close> counts the references on each
  open file description, by address with 0 for NULL.
\<close>

section \<open>State\<close>

definition VMA_ANON :: u32 where "VMA_ANON = 1"
definition VMA_FILE :: u32 where "VMA_FILE = 2"
definition VMA_SHARED :: u32 where "VMA_SHARED = 4"
definition VMA_READ :: u32 where "VMA_READ = 8"
definition VMA_WRITE :: u32 where "VMA_WRITE = 16"
definition VMA_EXEC :: u32 where "VMA_EXEC = 32"
definition VMA_SHMEM :: u32 where "VMA_SHMEM = 64"
definition VMA_LOCKED :: u32 where "VMA_LOCKED = 128"

record vma =
  va_start :: nat
  va_end :: nat
  v_flags :: u32
  v_file :: nat
  file_off :: nat
  v_shmid :: int

record vma_env =
  answers :: "bool list"
  ofd_refs :: "nat \<Rightarrow> int"

definition has :: "u32 \<Rightarrow> u32 \<Rightarrow> bool" where
  "has flags bits \<longleftrightarrow> flags AND bits \<noteq> 0"

section \<open>Operations\<close>

definition vma_retain_file :: "u32 \<Rightarrow> nat \<Rightarrow> vma_env \<Rightarrow> vma_env" where
  "vma_retain_file flags file e =
     (if has flags VMA_FILE \<and> file \<noteq> 0 then e\<lparr>ofd_refs := (ofd_refs e)(file := ofd_refs e file + 1)\<rparr> else e)"

definition vma_drop_file :: "u32 \<Rightarrow> nat \<Rightarrow> vma_env \<Rightarrow> vma_env" where
  "vma_drop_file flags file e =
     (if has flags VMA_FILE \<and> file \<noteq> 0 then e\<lparr>ofd_refs := (ofd_refs e)(file := ofd_refs e file - 1)\<rparr> else e)"

definition vma_alloc :: "vma_env \<Rightarrow> bool \<times> vma_env" where
  "vma_alloc e = (case answers e of [] \<Rightarrow> (False, e) | ok # rest \<Rightarrow> (ok, e\<lparr>answers := rest\<rparr>))"

definition vma_find :: "vma list \<Rightarrow> nat \<Rightarrow> vma option" where
  "vma_find vs va = find (\<lambda>v. va_start v \<le> va \<and> va < va_end v) vs"

text \<open>The walk that links a new area before the first one that does not start below it.\<close>

fun insert_sorted :: "vma \<Rightarrow> vma list \<Rightarrow> vma list" where
  "insert_sorted n [] = [n]"
| "insert_sorted n (v # vs) = (if va_start v < va_start n then v # insert_sorted n vs else n # v # vs)"

definition vma_insert ::
  "nat \<Rightarrow> nat \<Rightarrow> u32 \<Rightarrow> nat \<Rightarrow> nat \<Rightarrow> vma list \<times> vma_env \<Rightarrow> int \<times> vma list \<times> vma_env" where
  "vma_insert lo hi flags file off = (\<lambda>(vs, e).
     if has flags VMA_FILE \<and> file = 0 then (-1, vs, e)
     else case vma_alloc e of (ok, e) \<Rightarrow>
       if \<not> ok then (-1, vs, e)
       else (0, insert_sorted \<lparr>va_start = lo, va_end = hi, v_flags = flags, v_file = file,
                               file_off = off, v_shmid = 0\<rparr> vs, vma_retain_file flags file e))"

definition vma_insert_shmem ::
  "bool \<Rightarrow> nat \<Rightarrow> nat \<Rightarrow> u32 \<Rightarrow> int \<Rightarrow> vma list \<times> vma_env \<Rightarrow> int \<times> vma list \<times> vma_env" where
  "vma_insert_shmem valid lo hi flags shmid = (\<lambda>(vs, e).
     if \<not> valid then (-1, vs, e)
     else case vma_alloc e of (ok, e) \<Rightarrow>
       if \<not> ok then (-1, vs, e)
       else (0, insert_sorted \<lparr>va_start = lo, va_end = hi, v_flags = flags OR VMA_SHMEM, v_file = 0,
                               file_off = 0, v_shmid = shmid\<rparr> vs, e))"

text \<open>The pieces of an area outside \<open>[lo, hi)\<close>.\<close>

definition left_of :: "nat \<Rightarrow> vma \<Rightarrow> vma" where
  "left_of lo v = v\<lparr>va_end := lo\<rparr>"

definition right_of :: "nat \<Rightarrow> vma \<Rightarrow> vma" where
  "right_of hi v = v\<lparr>va_start := hi, file_off := add64 (file_off v) (sub64 hi (va_start v))\<rparr>"

fun vma_remove_range :: "nat \<Rightarrow> nat \<Rightarrow> vma list \<times> vma_env \<Rightarrow> vma list \<times> vma_env" where
  "vma_remove_range lo hi ([], e) = ([], e)"
| "vma_remove_range lo hi (v # vs, e) =
     (if va_start v \<ge> hi then (v # vs, e)
      else if va_end v \<le> lo
      then case vma_remove_range lo hi (vs, e) of (vs, e) \<Rightarrow> (v # vs, e)
      else
        case (if va_start v < lo then vma_alloc e else (False, e)) of (left, e) \<Rightarrow>
        case (if va_end v > hi then vma_alloc e else (False, e)) of (right, e) \<Rightarrow>
        if va_start v < lo \<and> \<not> left \<or> va_end v > hi \<and> \<not> right
        then case vma_remove_range lo hi (vs, e) of (vs, e) \<Rightarrow> (v # vs, e)
        else
          let e = (if left then vma_retain_file (v_flags v) (v_file v) e else e);
              e = (if right then vma_retain_file (v_flags v) (v_file v) e else e);
              e = vma_drop_file (v_flags v) (v_file v) e
          in case vma_remove_range lo hi (vs, e) of (vs, e) \<Rightarrow>
               ((if left then [left_of lo v] else []) @ (if right then [right_of hi v] else []) @ vs, e))"

definition vma_free_all :: "vma list \<times> vma_env \<Rightarrow> vma list \<times> vma_env" where
  "vma_free_all = (\<lambda>(vs, e). ([], fold (\<lambda>v e. vma_drop_file (v_flags v) (v_file v) e) vs e))"

section \<open>Well-formed lists\<close>

definition vma_wf :: "vma list \<Rightarrow> bool" where
  "vma_wf vs \<longleftrightarrow> sorted_wrt (\<lambda>a b. va_end a \<le> va_start b) vs \<and> (\<forall>v \<in> set vs. va_start v < va_end v)"

text \<open>What an address is backed by: the area's attributes and the offset of the address in the object.\<close>

definition backing :: "vma list \<Rightarrow> nat \<Rightarrow> (u32 \<times> nat \<times> int \<times> nat) option" where
  "backing vs va =
     map_option (\<lambda>v. (v_flags v, v_file v, v_shmid v, add64 (file_off v) (va - va_start v))) (vma_find vs va)"

text \<open>How many areas of the list hold a reference on a file.\<close>

definition holders :: "vma list \<Rightarrow> nat \<Rightarrow> int" where
  "holders vs f = int (length (filter (\<lambda>v. has (v_flags v) VMA_FILE \<and> v_file v = f \<and> f \<noteq> 0) vs))"

lemma vma_wf_Cons:
  "vma_wf (v # vs) \<longleftrightarrow> va_start v < va_end v \<and> (\<forall>u \<in> set vs. va_end v \<le> va_start u) \<and> vma_wf vs"
  by (auto simp: vma_wf_def)

lemma holders_Nil [simp]: "holders [] f = 0"
  by (simp add: holders_def)

lemma holders_Cons:
  "holders (v # vs) f = (if has (v_flags v) VMA_FILE \<and> v_file v = f \<and> f \<noteq> 0 then 1 else 0) + holders vs f"
  by (simp add: holders_def)

lemma backing_Nil [simp]: "backing [] va = None"
  by (simp add: backing_def vma_find_def)

lemma backing_Cons:
  "backing (v # vs) va =
     (if va_start v \<le> va \<and> va < va_end v
      then Some (v_flags v, v_file v, v_shmid v, add64 (file_off v) (va - va_start v)) else backing vs va)"
  by (simp add: backing_def vma_find_def)

lemma backing_above: "\<forall>v \<in> set vs. hi \<le> va_start v \<Longrightarrow> va < hi \<Longrightarrow> backing vs va = None"
  by (induction vs) (auto simp: backing_Cons)

lemma retain_refs:
  "ofd_refs (vma_retain_file fl f e) g = ofd_refs e g + (if has fl VMA_FILE \<and> f = g \<and> g \<noteq> 0 then 1 else 0)"
  "ofd_refs (vma_drop_file fl f e) g = ofd_refs e g - (if has fl VMA_FILE \<and> f = g \<and> g \<noteq> 0 then 1 else 0)"
  "answers (vma_retain_file fl f e) = answers e" "answers (vma_drop_file fl f e) = answers e"
  by (auto simp: vma_retain_file_def vma_drop_file_def)

lemma right_offset:
  assumes "s \<le> hi" "hi \<le> va" "hi < 2 ^ 64"
  shows "add64 (add64 off (sub64 hi s)) (va - hi) = add64 off (va - s)"
proof -
  have "sub64 hi s = hi - s" using assms by (simp add: sub64_id)
  moreover have "off + (hi - s) + (va - hi) = off + (va - s)" using assms by simp
  ultimately show ?thesis by (simp add: add64_def mod_simps add.assoc)
qed

section \<open>Unmapping a range\<close>

definition plenty :: "vma_env \<Rightarrow> vma list \<Rightarrow> bool" where
  "plenty e vs \<longleftrightarrow> (\<forall>a \<in> set (answers e). a) \<and> 2 * length vs \<le> length (answers e)"

lemma plenty_alloc:
  assumes "plenty e (v # vs)"
  obtains e1 e2 where "vma_alloc e = (True, e1)" "vma_alloc e1 = (True, e2)" "ofd_refs e1 = ofd_refs e"
    "ofd_refs e2 = ofd_refs e" "plenty e1 vs" "plenty e2 vs"
proof -
  obtain x y r where a: "answers e = x # y # r" "x" "y"
    using assms by (cases "answers e"; cases "tl (answers e)") (auto simp: plenty_def)
  then show thesis
    using assms that [of "e\<lparr>answers := y # r\<rparr>" "e\<lparr>answers := r\<rparr>"] by (auto simp: vma_alloc_def plenty_def)
qed

lemma plenty_tl: "plenty e (v # vs) \<Longrightarrow> plenty e vs"
  by (auto simp: plenty_def)

lemma plenty_cong: "answers e' = answers e \<Longrightarrow> plenty e' vs = plenty e vs"
  by (simp add: plenty_def)

text \<open>The step for an area that meets the range.\<close>

lemma remove_range_hit:
  assumes "plenty e (v # vs)" "va_start v < hi" "lo < va_end v"
  obtains e' where "plenty e' vs"
    "vma_remove_range lo hi (v # vs, e) = (case vma_remove_range lo hi (vs, e') of (vs, e) \<Rightarrow>
        ((if va_start v < lo then [left_of lo v] else []) @ (if hi < va_end v then [right_of hi v] else []) @ vs, e))"
    "\<And>f. ofd_refs e' f = ofd_refs e f + holders ((if va_start v < lo then [left_of lo v] else []) @
        (if hi < va_end v then [right_of hi v] else [])) f - holders [v] f"
proof -
  from plenty_alloc [OF assms(1)] obtain e1 e2 where a: "vma_alloc e = (True, e1)" "vma_alloc e1 = (True, e2)"
    "ofd_refs e1 = ofd_refs e" "ofd_refs e2 = ofd_refs e" "plenty e1 vs" "plenty e2 vs" .
  let ?l = "va_start v < lo" and ?r = "hi < va_end v"
  let ?e = "if ?l \<and> ?r then e2 else if ?l \<or> ?r then e1 else e"
  let ?rt = "vma_retain_file (v_flags v) (v_file v)"
  let ?e' = "vma_drop_file (v_flags v) (v_file v) ((if ?r then ?rt else (\<lambda>x. x)) ((if ?l then ?rt else (\<lambda>x. x)) ?e))"
  have refs: "ofd_refs ?e = ofd_refs e" "plenty ?e vs" using a plenty_tl [OF assms(1)] by auto
  show thesis
  proof (rule that [of ?e'])
    show "plenty ?e' vs"
      using refs(2) by (subst plenty_cong [of _ ?e]) (auto simp: retain_refs)
    show "ofd_refs ?e' f = ofd_refs e f + holders ((if ?l then [left_of lo v] else []) @
        (if ?r then [right_of hi v] else [])) f - holders [v] f" for f
      using refs(1) by (auto simp: retain_refs holders_def left_of_def right_of_def)
    show "vma_remove_range lo hi (v # vs, e) = (case vma_remove_range lo hi (vs, ?e') of (vs, e) \<Rightarrow>
        ((if ?l then [left_of lo v] else []) @ (if ?r then [right_of hi v] else []) @ vs, e))"
      using assms(2,3) a by (auto simp: Let_def not_le)
  qed
qed

lemma remove_range_spec:
  assumes "vma_wf vs" "lo \<le> hi" "hi < 2 ^ 64" "plenty e vs" "vma_remove_range lo hi (vs, e) = (vs', e')"
  shows "vma_wf vs' \<and> (\<forall>b. (\<forall>v \<in> set vs. b \<le> va_start v) \<longrightarrow> (\<forall>v \<in> set vs'. b \<le> va_start v)) \<and>
    (\<forall>va. backing vs' va = (if lo \<le> va \<and> va < hi then None else backing vs va)) \<and>
    (\<forall>f. ofd_refs e' f - holders vs' f = ofd_refs e f - holders vs f)"
  using assms
proof (induction vs arbitrary: e vs' e')
  case (Cons v vs)
  have wf: "va_start v < va_end v" "\<forall>u \<in> set vs. va_end v \<le> va_start u" "vma_wf vs"
    using Cons.prems(1) by (auto simp: vma_wf_Cons)
  consider (above) "hi \<le> va_start v" | (below) "va_start v < hi" "va_end v \<le> lo" | (hit) "va_start v < hi" "lo < va_end v"
    by linarith
  then show ?case
  proof cases
    case above
    then have "backing (v # vs) va = None" if "va < hi" for va
      using that wf by (intro backing_above [of _ hi]) auto
    with above Cons.prems show ?thesis by auto
  next
    case below
    then obtain vs1 where r: "vma_remove_range lo hi (vs, e) = (vs1, e')" "vs' = v # vs1"
      using Cons.prems(5) by (auto split: prod.splits)
    note IH = Cons.IH [OF wf(3) Cons.prems(2,3) plenty_tl [OF Cons.prems(4)] r(1)]
    show ?thesis using IH wf below by (auto simp: r(2) vma_wf_Cons backing_Cons holders_Cons)
  next
    case hit
    let ?l = "if va_start v < lo then [left_of lo v] else []" and ?r = "if hi < va_end v then [right_of hi v] else []"
    obtain e1 where e1: "plenty e1 vs"
      "vma_remove_range lo hi (v # vs, e) = (case vma_remove_range lo hi (vs, e1) of (vs, e) \<Rightarrow> (?l @ ?r @ vs, e))"
      "\<And>f. ofd_refs e1 f = ofd_refs e f + holders (?l @ ?r) f - holders [v] f"
      using remove_range_hit [OF Cons.prems(4) hit] by metis
    obtain vs1 where r: "vma_remove_range lo hi (vs, e1) = (vs1, e')" "vs' = ?l @ ?r @ vs1"
      using Cons.prems(5) e1(2) by (auto split: prod.splits)
    note IH = Cons.IH [OF wf(3) Cons.prems(2,3) e1(1) r(1)]
    have above: "\<forall>u \<in> set vs1. va_end v \<le> va_start u" using IH wf(2) by blast
    then have "\<forall>u \<in> set vs1. lo \<le> va_start u" using hit(2) by force
    then have "vma_wf vs'" using IH above hit Cons.prems(2) wf(1)
      by (auto simp: r(2) vma_wf_Cons left_of_def right_of_def)
    moreover have "\<forall>b. (\<forall>u \<in> set (v # vs). b \<le> va_start u) \<longrightarrow> (\<forall>u \<in> set vs'. b \<le> va_start u)"
      using IH hit by (auto simp: r(2) left_of_def right_of_def)
    moreover have "backing vs' va = (if lo \<le> va \<and> va < hi then None else backing (v # vs) va)" for va
    proof -
      have vs1: "backing vs1 va = (if lo \<le> va \<and> va < hi then None else backing vs va)" using IH by blast
      have n: "backing vs va = None" if "va < va_end v" using that wf(2) by (intro backing_above) auto
      have off: "add64 (add64 (file_off v) (sub64 hi (va_start v))) (va - hi) = add64 (file_off v) (va - va_start v)"
        if "hi \<le> va" using that hit(1) Cons.prems(3) by (intro right_offset) auto
      show ?thesis
        using vs1 n off hit Cons.prems(2) wf(1)
        by (cases "va < lo"; cases "va < hi"; cases "va < va_end v")
          (auto simp: r(2) backing_Cons left_of_def right_of_def)
    qed
    moreover have "ofd_refs e' f - holders vs' f = ofd_refs e f - holders (v # vs) f" for f
    proof -
      have app: "holders (xs @ ys) f = holders xs f + holders ys f" for xs ys by (simp add: holders_def)
      have "ofd_refs e' f - holders vs1 f = ofd_refs e1 f - holders vs f" using IH by blast
      then show ?thesis using e1(3) [of f] by (simp add: r(2) app holders_Cons [of v vs] holders_Cons [of v "[]"])
    qed
    ultimately show ?thesis by blast
  qed
qed (auto simp: vma_wf_def)

lemma insert_sorted_set: "set (insert_sorted n vs) = insert n (set vs)"
  by (induction vs) auto

lemma insert_sorted_wf:
  assumes "vma_wf vs" "va_start n < va_end n" "\<forall>v \<in> set vs. va_end v \<le> va_start n \<or> va_end n \<le> va_start v"
  shows "vma_wf (insert_sorted n vs) \<and>
    (\<forall>va. backing (insert_sorted n vs) va = (if va_start n \<le> va \<and> va < va_end n
       then Some (v_flags n, v_file n, v_shmid n, add64 (file_off n) (va - va_start n)) else backing vs va))"
  using assms
proof (induction vs)
  case Nil
  then show ?case by (auto simp: vma_wf_Cons backing_Cons vma_wf_def)
next
  case (Cons v vs)
  then have IH: "vma_wf (insert_sorted n vs) \<and>
    (\<forall>va. backing (insert_sorted n vs) va = (if va_start n \<le> va \<and> va < va_end n
       then Some (v_flags n, v_file n, v_shmid n, add64 (file_off n) (va - va_start n)) else backing vs va))"
    by (auto simp: vma_wf_Cons)
  show ?case
  proof (cases "va_start v < va_start n")
    case True
    then have "va_end v \<le> va_start n" using Cons.prems by (auto simp: vma_wf_Cons)
    with True IH Cons.prems show ?thesis
      by (auto simp: vma_wf_Cons backing_Cons insert_sorted_set)
  next
    case False
    then have "va_end n \<le> va_start v" using Cons.prems by (auto simp: vma_wf_Cons)
    moreover have "\<forall>u \<in> set vs. va_end n \<le> va_start u" using Cons.prems calculation by (force simp: vma_wf_Cons)
    ultimately show ?thesis using False Cons.prems by (auto simp: vma_wf_Cons backing_Cons)
  qed
qed

section \<open>Properties\<close>

text \<open>C33: unmapping \<open>[lo, hi)\<close> from a sorted list of disjoint areas, when descriptors can be allocated,
  removes exactly that range: an address in it is no longer backed, every other address keeps its
  protection, its object and its offset in the object; the list stays sorted and disjoint; and the
  references on each file change by exactly the change in the number of areas that map it.\<close>

theorem vma_remove_range_exact:
  assumes "vma_wf vs" and "lo \<le> hi" and "hi < 2 ^ 64"
    and "\<forall>a \<in> set (answers e). a" and "2 * length vs \<le> length (answers e)"
    and "vma_remove_range lo hi (vs, e) = (vs', e')"
  shows "vma_wf vs' \<and> (\<forall>va. backing vs' va = (if lo \<le> va \<and> va < hi then None else backing vs va)) \<and>
    (\<forall>f. ofd_refs e' f - ofd_refs e f = holders vs' f - holders vs f)"
proof -
  have "plenty e vs" using assms(4,5) by (simp add: plenty_def)
  from remove_range_spec [OF assms(1-3) this assms(6)] have "vma_wf vs'"
    "\<forall>va. backing vs' va = (if lo \<le> va \<and> va < hi then None else backing vs va)"
    "\<And>f. ofd_refs e' f - holders vs' f = ofd_refs e f - holders vs f" by auto
  then show ?thesis by (simp add: algebra_simps)
qed

definition demo_vma :: vma where
  "demo_vma = \<lparr>va_start = 0x1000, va_end = 0x5000, v_flags = VMA_FILE OR VMA_READ, v_file = 7, file_off = 0x2000, v_shmid = 0\<rparr>"

theorem vma_remove_range_exact_witness:
  "vma_remove_range 0x2000 0x3000 ([demo_vma], \<lparr>answers = [True, True], ofd_refs = (\<lambda>_. 1)\<rparr>) =
     ([demo_vma\<lparr>va_end := 0x2000\<rparr>, demo_vma\<lparr>va_start := 0x3000, file_off := 0x4000\<rparr>],
      \<lparr>answers = [], ofd_refs = (\<lambda>_. 1)(7 := 2)\<rparr>) \<and>
   backing [demo_vma\<lparr>va_end := 0x2000\<rparr>, demo_vma\<lparr>va_start := 0x3000, file_off := 0x4000\<rparr>] 0x2800 = None"
proof -
  let ?e = "\<lparr>answers = [True, True], ofd_refs = (\<lambda>_. 1)\<rparr>"
  have f: "has (VMA_FILE OR VMA_READ) VMA_FILE" by (simp add: has_def VMA_FILE_def VMA_READ_def)
  have "vma_remove_range 0x2000 0x3000 ([demo_vma], ?e) =
     ([demo_vma\<lparr>va_end := 0x2000\<rparr>, demo_vma\<lparr>va_start := 0x3000, file_off := 0x4000\<rparr>],
      \<lparr>answers = [], ofd_refs = (\<lambda>_. 1)(7 := 2)\<rparr>)"
    using f by (simp add: demo_vma_def vma_alloc_def vma_retain_file_def vma_drop_file_def left_of_def right_of_def
        add64_def sub64_def Let_def fun_eq_iff)
  moreover have "vma_wf [demo_vma]" by (simp add: vma_wf_def demo_vma_def)
  ultimately show ?thesis
    using vma_remove_range_exact [of "[demo_vma]" "0x2000" "0x3000" ?e] by simp
qed

end
