(* ===== verification/HashChain.thy ===== *)
theory HashChain
  imports Prelude
begin

text \<open>
  Hash tables with separate chaining as the kernel's caches use them: an array of buckets, each a
  singly linked chain searched from its head, with new entries pushed at the head.  The locale
  states what such a table promises its client; the shared-memory table and the page cache
  interpret it with their own hash functions and keys.
\<close>

section \<open>Unlinking during a walk\<close>

text \<open>The pointer-to-pointer walk \<open>while (*pp)\<close> that unlinks every entry satisfying \<open>P\<close> and pushes it
  on the list \<open>to_free\<close>, for one chain and for all buckets in order.\<close>

fun unlink_chain :: "('e \<Rightarrow> bool) \<Rightarrow> 'e list \<Rightarrow> 'e list \<Rightarrow> 'e list \<times> 'e list" where
  "unlink_chain P [] to_free = ([], to_free)"
| "unlink_chain P (e # es) to_free =
     (if P e then unlink_chain P es (e # to_free)
      else case unlink_chain P es to_free of (kept, to_free) \<Rightarrow> (e # kept, to_free))"

fun unlink_buckets :: "('e \<Rightarrow> bool) \<Rightarrow> 'e list list \<Rightarrow> 'e list \<Rightarrow> 'e list list \<times> 'e list" where
  "unlink_buckets P [] to_free = ([], to_free)"
| "unlink_buckets P (b # bs) to_free =
     (case unlink_chain P b to_free of (kept, to_free) \<Rightarrow>
        case unlink_buckets P bs to_free of (rest, to_free) \<Rightarrow> (kept # rest, to_free))"

lemma unlink_chain_filter:
  "unlink_chain P es tf = (filter (\<lambda>e. \<not> P e) es, rev (filter P es) @ tf)"
  by (induction es arbitrary: tf) auto

lemma unlink_buckets_filter:
  "unlink_buckets P bs tf = (map (filter (\<lambda>e. \<not> P e)) bs, rev (filter P (concat bs)) @ tf)"
  by (induction bs arbitrary: tf) (auto simp: unlink_chain_filter)

text \<open>The walk that unlinks only the first entry satisfying \<open>P\<close>.\<close>

fun unlink_first :: "('e \<Rightarrow> bool) \<Rightarrow> 'e list \<Rightarrow> 'e list" where
  "unlink_first P [] = []"
| "unlink_first P (e # es) = (if P e then es else e # unlink_first P es)"

text \<open>The walk that changes the first entry satisfying \<open>P\<close> in place.\<close>

fun update_first :: "('e \<Rightarrow> bool) \<Rightarrow> ('e \<Rightarrow> 'e) \<Rightarrow> 'e list \<Rightarrow> 'e list" where
  "update_first P f [] = []"
| "update_first P f (e # es) = (if P e then f e # es else e # update_first P f es)"

lemma unlink_first_set: "set (unlink_first P es) \<subseteq> set es"
  by (induction es) auto

lemma unlink_first_filter:
  "distinct (map k es) \<Longrightarrow> unlink_first (\<lambda>e. k e = x) es = filter (\<lambda>e. k e \<noteq> x) es"
proof (induction es)
  case (Cons e es)
  then have "filter (\<lambda>e'. k e' \<noteq> k e) es = es" by (auto simp: filter_id_conv image_iff)
  with Cons show ?case by auto
qed simp

lemma update_first_map:
  "distinct (map k es) \<Longrightarrow>
   update_first (\<lambda>e. k e = x) f es = map (\<lambda>e. if k e = x then f e else e) es"
proof (induction es)
  case (Cons e es)
  then have "map (\<lambda>e'. if k e' = k e then f e' else e') es = es" by (auto intro!: map_idI simp: image_iff)
  with Cons show ?case by auto
qed simp

section \<open>The table\<close>

locale hash_chains =
  fixes hash :: "'k \<Rightarrow> nat" and key :: "'e \<Rightarrow> 'k" and nbuckets :: nat
  assumes hash_less: "hash k < nbuckets"
begin

definition chains_ok :: "'e list list \<Rightarrow> bool" where
  "chains_ok bs \<longleftrightarrow> length bs = nbuckets \<and>
     (\<forall>b < nbuckets. distinct (map key (bs ! b)) \<and> (\<forall>e \<in> set (bs ! b). hash (key e) = b))"

definition chain_lookup :: "'e list list \<Rightarrow> 'k \<Rightarrow> 'e option" where
  "chain_lookup bs k = find (\<lambda>e. key e = k) (bs ! hash k)"

lemma lookup_key: "chain_lookup bs k = Some e \<Longrightarrow> key e = k"
  by (auto simp: chain_lookup_def find_Some_iff)

lemma lookup_iff:
  assumes "chains_ok bs"
  shows "chain_lookup bs k = Some e \<longleftrightarrow> e \<in> set (concat bs) \<and> key e = k"
proof
  assume l: "chain_lookup bs k = Some e"
  then have "e \<in> set (bs ! hash k)" "key e = k"
    by (auto simp: chain_lookup_def find_Some_iff in_set_conv_nth)
  moreover have "bs ! hash k \<in> set bs" using assms hash_less [of k] by (simp add: chains_ok_def)
  ultimately show "e \<in> set (concat bs) \<and> key e = k" by auto
next
  assume e: "e \<in> set (concat bs) \<and> key e = k"
  then obtain b where "b < nbuckets" "e \<in> set (bs ! b)"
    using assms by (auto simp: chains_ok_def) (metis in_set_conv_nth)
  with assms e have in_b: "e \<in> set (bs ! hash k)" "distinct (map key (bs ! hash k))"
    by (auto simp: chains_ok_def)
  have "find (\<lambda>e. key e = k) es = Some e" if "e \<in> set es" "distinct (map key es)" for es
    using that e by (induction es) auto
  with in_b show "chain_lookup bs k = Some e" by (simp add: chain_lookup_def)
qed

lemma empty_ok [simp]: "chains_ok (replicate nbuckets [])"
  by (simp add: chains_ok_def)

lemma push_ok:
  assumes "chains_ok bs" "chain_lookup bs (key e) = None"
  shows "chains_ok (bs[hash (key e) := e # bs ! hash (key e)])"
proof -
  have "\<forall>x \<in> set (bs ! hash (key e)). key x \<noteq> key e"
    using assms(2) by (auto simp: chain_lookup_def find_None_iff)
  then show ?thesis using assms(1) hash_less [of "key e"]
    by (simp add: chains_ok_def nth_list_update image_iff) metis
qed

lemma lookup_push:
  assumes "chains_ok bs"
  shows "chain_lookup (bs[hash (key e) := e # bs ! hash (key e)]) k =
    (if k = key e then Some e else chain_lookup bs k)"
  using assms hash_less [of "key e"] by (auto simp: chain_lookup_def chains_ok_def nth_list_update)

lemma filter_ok: "chains_ok bs \<Longrightarrow> chains_ok (map (filter P) bs)"
  by (auto simp: chains_ok_def distinct_map inj_on_def)

lemma lookup_filter:
  assumes "chains_ok bs"
  shows "chain_lookup (map (filter P) bs) k =
    (case chain_lookup bs k of Some e \<Rightarrow> if P e then Some e else None | None \<Rightarrow> None)"
proof (cases "chain_lookup (map (filter P) bs) k")
  case None
  have "\<not> (e \<in> set (concat bs) \<and> key e = k \<and> P e)" for e
    using lookup_iff [OF filter_ok [OF assms, of P], of k e] None by auto
  then show ?thesis using None lookup_iff [OF assms, of k] by (auto split: option.split)
next
  case (Some e)
  then have "e \<in> set (concat bs)" "key e = k" "P e"
    using lookup_iff [OF filter_ok [OF assms, of P], of k e] by auto
  then show ?thesis using Some lookup_iff [OF assms, of k e] by simp
qed

lemma map_ok:
  assumes "chains_ok bs" "\<And>e. key (f e) = key e"
  shows "chains_ok (map (map f) bs)"
  using assms by (auto simp: chains_ok_def comp_def)

lemma lookup_map:
  assumes "chains_ok bs" "\<And>e. key (f e) = key e"
  shows "chain_lookup (map (map f) bs) k = map_option f (chain_lookup bs k)"
proof -
  have "find (\<lambda>e. key e = k) (map f es) = map_option f (find (\<lambda>e. key e = k) es)" for es
    by (induction es) (auto simp: assms(2))
  then show ?thesis using assms(1) hash_less [of k] by (simp add: chain_lookup_def chains_ok_def)
qed

end

end
