(* ===== verification/Shmem.thy ===== *)
theory Shmem
  imports HashChain Pmm_Props
begin

text \<open>
  Anonymous shared memory objects, \<open>kernel/mm/shmem.c\<close>: a table of objects and a hash table from
  (object, page offset) to physical frames.  The state is paired with that of the physical memory
  manager.  \<open>shmem_get_or_alloc\<close> releases the table lock while it allocates; the argument
  \<open>others\<close> is whatever the other processors do to the state in that window.
\<close>

section \<open>State\<close>

definition SHMEM_MAX_OBJECTS :: nat where "SHMEM_MAX_OBJECTS = 64"
definition SHMEM_BUCKETS :: nat where "SHMEM_BUCKETS = 256"

record shmem_frame =
  sf_shmid :: int
  sf_offset :: nat
  sf_phys :: nat

record shmem_object =
  so_valid :: bool
  so_shmid :: int
  so_size :: nat

record shmem_state =
  shmem_objects :: "shmem_object list"
  shmem_buckets :: "shmem_frame list list"
  shmem_next_id :: int

type_synonym shmem_sys = "shmem_state \<times> pmm_state"

definition shmem_hash :: "int \<Rightarrow> nat \<Rightarrow> nat" where
  "shmem_hash shmid offset =
     unat (((word_of_int shmid * 2654435761) XOR word_of_nat (offset div 2 ^ 12)) mod 256 :: u32)"

section \<open>Operations\<close>

definition shmem_create :: "nat \<Rightarrow> shmem_state \<Rightarrow> int \<times> shmem_state" where
  "shmem_create sz st =
     (if sz = 0 then (-1, st)
      else let sz = ALIGN_UP sz 4096 in
        case find (\<lambda>i. \<not> so_valid (shmem_objects st ! i)) [0..<SHMEM_MAX_OBJECTS] of
          None \<Rightarrow> (-1, st)
        | Some slot \<Rightarrow>
            let id = shmem_next_id st in
            (id, st\<lparr>shmem_next_id := id + 1,
                    shmem_objects := (shmem_objects st)[slot :=
                      \<lparr>so_valid = True, so_shmid = id, so_size = sz\<rparr>]\<rparr>))"

definition shmem_object_of :: "int \<Rightarrow> shmem_state \<Rightarrow> shmem_object option" where
  "shmem_object_of shmid st =
     find (\<lambda>ob. so_valid ob \<and> so_shmid ob = shmid) (shmem_objects st)"

definition shmem_valid :: "int \<Rightarrow> shmem_state \<Rightarrow> int" where
  "shmem_valid shmid st = (case shmem_object_of shmid st of Some _ \<Rightarrow> 1 | None \<Rightarrow> 0)"

definition shmem_size :: "int \<Rightarrow> shmem_state \<Rightarrow> nat" where
  "shmem_size shmid st = (case shmem_object_of shmid st of Some ob \<Rightarrow> so_size ob | None \<Rightarrow> 0)"

definition shmem_destroy :: "int \<Rightarrow> shmem_sys \<Rightarrow> shmem_sys" where
  "shmem_destroy shmid = (\<lambda>(st, pm).
     let st = st\<lparr>shmem_objects :=
           update_first (\<lambda>ob. so_valid ob \<and> so_shmid ob = shmid) (so_valid_update (\<lambda>_. False))
             (shmem_objects st)\<rparr>
     in case unlink_buckets (\<lambda>f. sf_shmid f = shmid) (shmem_buckets st) [] of
          (buckets, to_free) \<Rightarrow>
            (st\<lparr>shmem_buckets := buckets\<rparr>, fold (\<lambda>f pm. pmm_free_frame (sf_phys f) pm) to_free pm))"

text \<open>The chain search under the lock.\<close>

definition shmem_find :: "int \<Rightarrow> nat \<Rightarrow> shmem_state \<Rightarrow> shmem_frame option" where
  "shmem_find shmid offset st =
     find (\<lambda>f. sf_shmid f = shmid \<and> sf_offset f = offset) (shmem_buckets st ! shmem_hash shmid offset)"

text \<open>A frame that is already in the table: the caller gets one more reference.\<close>

definition shmem_share :: "nat \<Rightarrow> shmem_sys \<Rightarrow> nat option \<times> shmem_sys" where
  "shmem_share phys = (\<lambda>(st, pm).
     case pmm_inc_frame_ref phys pm of (rc, pm) \<Rightarrow>
       (if rc \<noteq> 0 then (None, (st, pm)) else (Some phys, (st, pm))))"

text \<open>The second critical section: look again, and insert the new frame if it is still missing.\<close>

definition shmem_insert :: "int \<Rightarrow> nat \<Rightarrow> nat \<Rightarrow> shmem_sys \<Rightarrow> nat option \<times> shmem_sys" where
  "shmem_insert shmid offset phys = (\<lambda>(st, pm).
     case shmem_find shmid offset st of
       Some f \<Rightarrow> shmem_share (sf_phys f) (st, pmm_free_frame phys pm)
     | None \<Rightarrow>
         let h = shmem_hash shmid offset in
         (Some phys,
          (st\<lparr>shmem_buckets := (shmem_buckets st)[h :=
                \<lparr>sf_shmid = shmid, sf_offset = offset, sf_phys = phys\<rparr> # shmem_buckets st ! h]\<rparr>, pm)))"

definition shmem_get_or_alloc ::
  "bool \<Rightarrow> (shmem_sys \<Rightarrow> shmem_sys) \<Rightarrow> int \<Rightarrow> nat \<Rightarrow> shmem_sys \<Rightarrow> nat option \<times> shmem_sys" where
  "shmem_get_or_alloc kmalloc_ok others shmid offset = (\<lambda>(st, pm).
     let offset = ALIGN_DOWN offset 4096 in
     case shmem_object_of shmid st of
       None \<Rightarrow> (None, (st, pm))
     | Some ob \<Rightarrow>
         if offset \<ge> so_size ob then (None, (st, pm))
         else case shmem_find shmid offset st of
           Some f \<Rightarrow> shmem_share (sf_phys f) (st, pm)
         | None \<Rightarrow>
             (case pmm_alloc_frame pm of (phys, pm) \<Rightarrow>
               if phys = 0 then (None, (st, pm))
               else let pm = pm\<lparr>phys_mem := mem_fill phys 4096 0 (phys_mem pm)\<rparr> in
                 if \<not> kmalloc_ok then (None, (st, pmm_free_frame phys pm))
                 else shmem_insert shmid offset phys (others (st, pm))))"

section \<open>The table is a chained hash table\<close>

definition shmem_key :: "shmem_frame \<Rightarrow> int \<times> nat" where
  "shmem_key f = (sf_shmid f, sf_offset f)"

lemma shmem_hash_less: "shmem_hash shmid offset < SHMEM_BUCKETS"
  using word_mod_less_divisor [of "256 :: u32"]
  by (simp add: shmem_hash_def SHMEM_BUCKETS_def word_less_nat_alt)

interpretation shm: hash_chains "\<lambda>(id, off). shmem_hash id off" shmem_key SHMEM_BUCKETS
  by unfold_locales (auto simp: shmem_hash_less)

lemma shmem_find_lookup: "shmem_find sid off st = shm.chain_lookup (shmem_buckets st) (sid, off)"
  by (simp add: shmem_find_def shm.chain_lookup_def shmem_key_def)

lemma shmem_find_insert:
  assumes "shm.chains_ok (shmem_buckets st)" "shmem_find sid off st = None"
    and "shmem_insert sid off p (st, pm) = (r, st', pm')"
  shows "r = Some p" "pm' = pm" "shm.chains_ok (shmem_buckets st')"
    "shmem_find sid' off' st' =
       (if (sid', off') = (sid, off) then Some \<lparr>sf_shmid = sid, sf_offset = off, sf_phys = p\<rparr>
        else shmem_find sid' off' st)"
proof -
  let ?f = "\<lparr>sf_shmid = sid, sf_offset = off, sf_phys = p\<rparr>"
  have key: "shmem_key ?f = (sid, off)" by (simp add: shmem_key_def)
  have st': "r = Some p" "pm' = pm"
    "shmem_buckets st' = (shmem_buckets st)[shmem_hash sid off := ?f # shmem_buckets st ! shmem_hash sid off]"
    using assms(2,3) by (auto simp: shmem_insert_def Let_def)
  then show "r = Some p" "pm' = pm" by simp_all
  show "shm.chains_ok (shmem_buckets st')"
    using shm.push_ok [OF assms(1), of ?f] assms(2) by (simp add: st' key shmem_find_lookup)
  show "shmem_find sid' off' st' = (if (sid', off') = (sid, off) then Some ?f else shmem_find sid' off' st)"
    using shm.lookup_push [OF assms(1), of ?f "(sid', off')"] by (simp add: st' key shmem_find_lookup)
qed

lemma shmem_share_ok:
  assumes "pmm_inv pm" "0 < frame_refs pm p" "frame_refs pm p < 2 ^ 32 - 1"
  shows "fst (shmem_share p (st, pm)) = Some p" "fst (snd (shmem_share p (st, pm))) = st"
    "pmm_inv (snd (snd (shmem_share p (st, pm))))"
    "frame_refs (snd (snd (shmem_share p (st, pm)))) = (frame_refs pm)(p := frame_refs pm p + 1)"
proof -
  obtain pm' where "pmm_inc_frame_ref p pm = (0, pm')" "pmm_inv pm'"
    "frame_refs pm' = (frame_refs pm)(p := frame_refs pm p + 1)"
    by (rule pmm_inc_frame_ref_ok [OF assms])
  then show "fst (shmem_share p (st, pm)) = Some p" "fst (snd (shmem_share p (st, pm))) = st"
    "pmm_inv (snd (snd (shmem_share p (st, pm))))"
    "frame_refs (snd (snd (shmem_share p (st, pm)))) = (frame_refs pm)(p := frame_refs pm p + 1)"
    by (auto simp: shmem_share_def)
qed

text \<open>What a page needs to be mapped: a live object that covers it.\<close>

definition shmem_covers :: "int \<Rightarrow> nat \<Rightarrow> shmem_state \<Rightarrow> bool" where
  "shmem_covers shmid offset st \<longleftrightarrow>
     (case shmem_object_of shmid st of None \<Rightarrow> False | Some ob \<Rightarrow> ALIGN_DOWN offset 4096 < so_size ob)"

lemma shmem_get_or_alloc_miss:
  assumes inv: "pmm_inv pm" and cov: "shmem_covers sid off st"
    and miss: "shmem_find sid (ALIGN_DOWN off 4096) st = None"
    and al: "fst (pmm_alloc_frame pm) = p" "p \<noteq> 0"
  obtains pm1 where "shmem_get_or_alloc True others sid off (st, pm) =
      shmem_insert sid (ALIGN_DOWN off 4096) p (others (st, pm1))"
    "pmm_inv pm1" "frame_refs pm1 = (frame_refs pm)(p := 1)" "frame_refs pm p = 0"
    "\<forall>a. p \<le> a \<and> a < p + 4096 \<longrightarrow> phys_mem pm1 a = 0"
    "free_frames pm1 = free_frames (snd (pmm_alloc_frame pm))"
proof -
  obtain pm0 where a: "pmm_alloc_frame pm = (p, pm0)" using al(1) by (cases "pmm_alloc_frame pm") auto
  let ?pm1 = "pm0\<lparr>phys_mem := mem_fill p 4096 0 (phys_mem pm0)\<rparr>"
  have "shmem_get_or_alloc True others sid off (st, pm) =
      shmem_insert sid (ALIGN_DOWN off 4096) p (others (st, ?pm1))"
    using cov miss a al(2)
    by (simp add: shmem_get_or_alloc_def shmem_covers_def Let_def not_le split: option.splits)
  then show thesis
    using that [of ?pm1] pmm.alloc_inv [OF inv a] pmm.alloc_refs [OF inv a al(2)]
      pmm.alloc_fresh [OF inv a al(2)] a by (simp add: mem_fill_def)
qed

section \<open>Properties\<close>

text \<open>C29: two processors that fault on the same absent page of an object at the same time end up with
  the same frame: while the first has the lock released to allocate, the second runs to
  completion; the first then discards its own frame and shares the second's.  The shared frame
  has two references, every other reference count is as before, and the table maps the page to it.\<close>

theorem shmem_race_shares_frame:
  assumes "pmm_inv pm" and "shm.chains_ok (shmem_buckets st)"
    and "shmem_covers sid off st" and "shmem_find sid (ALIGN_DOWN off 4096) st = None"
    and "shmem_get_or_alloc True (\<lambda>s. snd (shmem_get_or_alloc True (\<lambda>s. s) sid off s)) sid off (st, pm) = (r, st', pm')"
    and "2 \<le> free_frames pm"
  shows "\<exists>q. r = Some q \<and> frame_refs pm q = 0 \<and> frame_refs pm' = (frame_refs pm)(q := 2) \<and>
    map_option sf_phys (shmem_find sid (ALIGN_DOWN off 4096) st') = Some q"
proof -
  let ?o = "ALIGN_DOWN off 4096"
  define p where "p = fst (pmm_alloc_frame pm)"
  have p: "p \<noteq> 0" "free_frames (snd (pmm_alloc_frame pm)) = free_frames pm - 1"
    using pmm_alloc_frame_avail [OF assms(1)] assms(6) by (auto simp: p_def)
  obtain pm1 where first: "(r, st', pm') = shmem_insert sid ?o p (snd (shmem_get_or_alloc True (\<lambda>s. s) sid off (st, pm1)))"
    and pm1: "pmm_inv pm1" "frame_refs pm1 = (frame_refs pm)(p := 1)" "frame_refs pm p = 0"
      "free_frames pm1 = free_frames pm - 1"
    using shmem_get_or_alloc_miss [OF assms(1,3,4) p_def [symmetric] p(1), of "\<lambda>s. snd (shmem_get_or_alloc True (\<lambda>s. s) sid off s)"]
      assms(5) p(2) by metis
  define q where "q = fst (pmm_alloc_frame pm1)"
  have q: "q \<noteq> 0" using pmm_alloc_frame_avail(1) [OF pm1(1)] pm1(4) assms(6) by (simp add: q_def)
  obtain pm2 where second: "shmem_get_or_alloc True (\<lambda>s. s) sid off (st, pm1) = shmem_insert sid ?o q (st, pm2)"
    and pm2: "pmm_inv pm2" "frame_refs pm2 = (frame_refs pm1)(q := 1)" "frame_refs pm1 q = 0"
    using shmem_get_or_alloc_miss [OF pm1(1) assms(3,4) q_def [symmetric] q, of "\<lambda>s. s"] by metis
  have pq: "p \<noteq> q" "frame_refs pm q = 0" using pm1(2) pm2(3) by (auto split: if_splits)
  obtain r2 st2 pm3 where ins: "shmem_insert sid ?o q (st, pm2) = (r2, st2, pm3)" by (cases "shmem_insert sid ?o q (st, pm2)") auto
  note f = shmem_find_insert [OF assms(2,4) ins]
  let ?pm4 = "pmm_free_frame p pm2"
  have pm4: "pmm_inv ?pm4" "frame_refs ?pm4 = (frame_refs pm)(q := 1)"
    using pmm.free_inv [OF pm2(1)] pmm.free_refs [OF pm2(1), of p] pq pm1(2,3) by (auto simp: pm2(2) fun_eq_iff)
  have "(r, st', pm') = shmem_insert sid ?o p (st2, pm2)" using first f(2) by (simp add: second ins)
  then have "(r, st', pm') = shmem_share q (st2, ?pm4)"
    using f(4) [of sid ?o] by (simp add: shmem_insert_def)
  with shmem_share_ok [OF pm4(1), of q st2] pm4(2) have "r = Some q" "st' = st2" "frame_refs pm' = (frame_refs pm)(q := 2)"
    by (auto simp: prod_eq_iff)
  with pq(2) f(4) [of sid ?o] show ?thesis by simp
qed

definition demo_shmem :: shmem_state where
  "demo_shmem = snd (shmem_create 8192
     \<lparr>shmem_objects = replicate 64 \<lparr>so_valid = False, so_shmid = 0, so_size = 0\<rparr>,
      shmem_buckets = replicate SHMEM_BUCKETS [], shmem_next_id = 1\<rparr>)"

lemma demo_shmem_eq:
  "demo_shmem = \<lparr>shmem_objects = \<lparr>so_valid = True, so_shmid = 1, so_size = 8192\<rparr> #
       replicate 63 \<lparr>so_valid = False, so_shmid = 0, so_size = 0\<rparr>,
     shmem_buckets = replicate SHMEM_BUCKETS [], shmem_next_id = 2\<rparr>"
proof -
  have z: "[0..<64::nat] = 0 # [Suc 0..<64]" by (rule upt_conv_Cons) simp
  have r: "replicate 64 x = x # replicate 63 x" for x :: shmem_object
    using replicate_Suc [of 63 x] by simp
  show ?thesis
    by (simp add: demo_shmem_def shmem_create_def SHMEM_MAX_OBJECTS_def z r Let_def ALIGN_UP_def add64_def)
qed

lemma demo_shmem_facts:
  "shm.chains_ok (shmem_buckets demo_shmem)" "shmem_covers 1 5000 demo_shmem"
  "shmem_find 1 off demo_shmem = None"
  using shmem_hash_less [of 1 off]
  by (simp_all add: demo_shmem_eq shmem_covers_def shmem_object_of_def ALIGN_DOWN_def shmem_find_def)

lemma demo_pmm_free: "free_frames demo_pmm = 2047"
  by (simp add: demo_pmm_def)

theorem shmem_race_shares_frame_witness:
  "\<exists>q. fst (shmem_get_or_alloc True (\<lambda>s. snd (shmem_get_or_alloc True (\<lambda>s. s) 1 5000 s)) 1 5000
         (demo_shmem, demo_pmm)) = Some q \<and> frame_refs demo_pmm q = 0"
proof -
  let ?c = "shmem_get_or_alloc True (\<lambda>s. snd (shmem_get_or_alloc True (\<lambda>s. s) 1 5000 s)) 1 5000 (demo_shmem, demo_pmm)"
  obtain r st' pm' where c: "?c = (r, st', pm')" by (rule prod_cases3)
  have "2 \<le> free_frames demo_pmm" by (simp add: demo_pmm_free)
  from shmem_race_shares_frame [OF demo_pmm_inv demo_shmem_facts(1,2,3) c this] c show ?thesis by auto
qed

text \<open>C30: the table keeps no reference of its own to a frame it hands to its first mapper: once that
  mapper gives its reference back, the frame is free while the table still maps the page to it,
  and the next mapper of the page either fails or is handed a frame somebody else has allocated
  since.\<close>

theorem shmem_first_mapper_owns_frame:
  assumes "pmm_inv pm" and "shm.chains_ok (shmem_buckets st)"
    and "shmem_covers sid off st" and "shmem_find sid (ALIGN_DOWN off 4096) st = None"
    and "shmem_get_or_alloc True (\<lambda>s. s) sid off (st, pm) = (Some p, st', pm')"
  shows "frame_refs (pmm_free_frame p pm') p = 0 \<and>
    map_option sf_phys (shmem_find sid (ALIGN_DOWN off 4096) st') = Some p"
proof -
  let ?o = "ALIGN_DOWN off 4096"
  have "fst (pmm_alloc_frame pm) \<noteq> 0"
    using assms(3-5) by (auto simp: shmem_get_or_alloc_def shmem_covers_def Let_def
        split: option.splits prod.splits if_splits)
  then obtain q pm1 where q: "shmem_insert sid ?o q (st, pm1) = (Some p, st', pm')"
    and pm1: "pmm_inv pm1" "frame_refs pm1 = (frame_refs pm)(q := 1)"
    using shmem_get_or_alloc_miss [OF assms(1,3,4) refl, of "\<lambda>s. s"] assms(5) by metis
  note f = shmem_find_insert [OF assms(2,4) q]
  have "p = q" "pm' = pm1" using f(1,2) by auto
  then show ?thesis using f(4) [of sid ?o] pmm.free_refs [OF pm1(1), of q] pm1(2) by simp
qed

theorem shmem_first_mapper_owns_frame_witness:
  "\<exists>p st' pm'. shmem_get_or_alloc True (\<lambda>s. s) 1 5000 (demo_shmem, demo_pmm) = (Some p, st', pm') \<and>
     frame_refs (pmm_free_frame p pm') p = 0"
proof -
  have n: "fst (pmm_alloc_frame demo_pmm) \<noteq> 0"
    using pmm_alloc_frame_avail(1) [OF demo_pmm_inv] by (simp add: demo_pmm_free)
  obtain pm1 where "shmem_get_or_alloc True (\<lambda>s. s) 1 5000 (demo_shmem, demo_pmm) =
      shmem_insert 1 (ALIGN_DOWN 5000 4096) (fst (pmm_alloc_frame demo_pmm)) (demo_shmem, pm1)"
    using shmem_get_or_alloc_miss [OF demo_pmm_inv demo_shmem_facts(2,3) refl n, of "\<lambda>s. s"] by metis
  then obtain st' pm' where "shmem_get_or_alloc True (\<lambda>s. s) 1 5000 (demo_shmem, demo_pmm) =
      (Some (fst (pmm_alloc_frame demo_pmm)), st', pm')"
    using demo_shmem_facts(3) by (auto simp: shmem_insert_def Let_def)
  with shmem_first_mapper_owns_frame [OF demo_pmm_inv demo_shmem_facts(1,2,3) this] show ?thesis by blast
qed

end
