(* ===== verification/PageCache.thy ===== *)
theory PageCache
  imports HashChain Pmm_Props
begin

text \<open>
  The page cache behind shared file mappings, \<open>kernel/mm/page_cache.c\<close>: a hash table from (open file
  description, page offset) to physical frames with a dirty and a ready flag.  File pointers and
  entry addresses are natural numbers with 0 for NULL; an entry's address tells it apart from a
  later one with the same key.  The lock is released between the critical sections of
  \<open>page_cache_get_or_alloc\<close>: \<open>gap1\<close> and \<open>gap2\<close> are what the other processors do meanwhile, and
  \<open>loads\<close> the values an atomic load of the ready flag returns while a caller spins on it.
\<close>

section \<open>State\<close>

definition PAGE_CACHE_BUCKETS :: nat where "PAGE_CACHE_BUCKETS = 1024"
definition PAGE_CACHE_READY_SPINS :: nat where "PAGE_CACHE_READY_SPINS = 100000"

record page_cache_entry =
  pe_addr :: nat
  pe_ofd :: nat
  pe_offset :: nat
  pe_phys :: nat
  pe_dirty :: bool
  pe_ready :: bool

type_synonym cache_buckets = "page_cache_entry list list"
type_synonym pc_sys = "cache_buckets \<times> pmm_state"

definition hash_page :: "nat \<Rightarrow> nat \<Rightarrow> nat" where
  "hash_page file offset = unat (ucast (word_of_nat file XOR word_of_nat offset :: u64) mod 1024 :: u32)"

section \<open>Operations\<close>

text \<open>The spin on the ready flag: it gives up after \<^const>\<open>PAGE_CACHE_READY_SPINS\<close> loads.\<close>

function wait_from :: "(nat \<Rightarrow> bool) \<Rightarrow> nat \<Rightarrow> bool" where
  "wait_from loads i =
     (if i < PAGE_CACHE_READY_SPINS then (if loads i then True else wait_from loads (i + 1)) else False)"
  by pat_completeness auto
termination
  by (relation "measure (\<lambda>(_, i). PAGE_CACHE_READY_SPINS - i)") auto

declare wait_from.simps [simp del]

definition page_cache_wait_ready :: "(nat \<Rightarrow> bool) \<Rightarrow> bool" where
  "page_cache_wait_ready loads = wait_from loads 0"

definition pc_find :: "nat \<Rightarrow> nat \<Rightarrow> cache_buckets \<Rightarrow> page_cache_entry option" where
  "pc_find file offset bs =
     find (\<lambda>e. pe_ofd e = file \<and> pe_offset e = offset) (bs ! hash_page file offset)"

definition page_cache_drop :: "nat \<Rightarrow> nat \<Rightarrow> nat \<Rightarrow> pc_sys \<Rightarrow> pc_sys" where
  "page_cache_drop file offset phys = (\<lambda>(bs, pm).
     let h = hash_page file offset in
     case pc_find file offset bs of
       None \<Rightarrow> (bs, pm)
     | Some e \<Rightarrow>
         (bs[h := unlink_first (\<lambda>e. pe_ofd e = file \<and> pe_offset e = offset) (bs ! h)],
          if phys \<noteq> 0 then pmm_free_frame phys pm else pm))"

definition page_cache_get :: "(nat \<Rightarrow> bool) \<Rightarrow> nat \<Rightarrow> nat \<Rightarrow> pc_sys \<Rightarrow> nat \<times> pc_sys" where
  "page_cache_get loads file offset = (\<lambda>(bs, pm).
     if file = 0 then (0, (bs, pm))
     else case pc_find file offset bs of
       None \<Rightarrow> (0, (bs, pm))
     | Some e \<Rightarrow>
         if \<not> page_cache_wait_ready loads then (0, page_cache_drop file offset (pe_phys e) (bs, pm))
         else (pe_phys e, (bs, pm)))"

definition pc_set_phys :: "nat \<Rightarrow> nat \<Rightarrow> nat \<Rightarrow> cache_buckets \<Rightarrow> cache_buckets" where
  "pc_set_phys file offset phys bs =
     (let h = hash_page file offset in
      bs[h := update_first (\<lambda>e. pe_ofd e = file \<and> pe_offset e = offset)
                (\<lambda>e. e\<lparr>pe_phys := phys, pe_ready := True\<rparr>) (bs ! h)])"

definition page_cache_put ::
  "nat \<Rightarrow> (cache_buckets \<Rightarrow> cache_buckets) \<Rightarrow> nat \<Rightarrow> nat \<Rightarrow> nat \<Rightarrow> cache_buckets \<Rightarrow> cache_buckets" where
  "page_cache_put kmalloc gap file offset phys bs =
     (if file = 0 then bs
      else case pc_find file offset bs of
        Some e \<Rightarrow> pc_set_phys file offset phys bs
      | None \<Rightarrow>
          if kmalloc = 0 then gap bs
          else let bs = gap bs; h = hash_page file offset in
            case pc_find file offset bs of
              Some e \<Rightarrow> pc_set_phys file offset phys bs
            | None \<Rightarrow> bs[h := \<lparr>pe_addr = kmalloc, pe_ofd = file, pe_offset = offset, pe_phys = phys,
                               pe_dirty = False, pe_ready = True\<rparr> # bs ! h])"

text \<open>A page found in the table: wait until it is filled, then take a reference.\<close>

definition pc_hit :: "(nat \<Rightarrow> bool) \<Rightarrow> nat \<Rightarrow> nat \<Rightarrow> nat \<Rightarrow> pc_sys \<Rightarrow> nat option \<times> pc_sys" where
  "pc_hit loads file offset phys = (\<lambda>(bs, pm).
     if \<not> page_cache_wait_ready loads then (None, page_cache_drop file offset phys (bs, pm))
     else case pmm_inc_frame_ref phys pm of (rc, pm) \<Rightarrow>
       if rc \<noteq> 0 then (None, (bs, pm)) else (Some phys, (bs, pm)))"

text \<open>The entry just filled: publish it (a store to an entry that
  another processor has unlinked meanwhile reaches no chain), take the caller's reference, or back
  out.\<close>

definition pc_publish :: "nat \<Rightarrow> nat \<Rightarrow> nat \<Rightarrow> pc_sys \<Rightarrow> nat option \<times> pc_sys" where
  "pc_publish entry h phys = (\<lambda>(bs, pm).
     let bs = map (map (\<lambda>e. if pe_addr e = entry then e\<lparr>pe_ready := True\<rparr> else e)) bs in
     case pmm_inc_frame_ref phys pm of (rc, pm) \<Rightarrow>
       if rc \<noteq> 0
       then (None, (bs[h := unlink_first (\<lambda>e. pe_addr e = entry) (bs ! h)], pmm_free_frame phys pm))
       else (Some phys, (bs, pm)))"

definition page_cache_get_or_alloc ::
  "nat \<Rightarrow> (pc_sys \<Rightarrow> pc_sys) \<Rightarrow> (pc_sys \<Rightarrow> pc_sys) \<Rightarrow> (nat \<Rightarrow> bool) \<Rightarrow>
   (nat \<Rightarrow> (nat \<Rightarrow> byte) \<Rightarrow> (nat \<Rightarrow> byte)) option \<Rightarrow> nat \<Rightarrow> nat \<Rightarrow> pc_sys \<Rightarrow> nat option \<times> pc_sys" where
  "page_cache_get_or_alloc kmalloc gap1 gap2 loads fill_fn file offset = (\<lambda>(bs, pm).
     if file = 0 then (None, (bs, pm))
     else let h = hash_page file offset in
       case pc_find file offset bs of
         Some e \<Rightarrow> pc_hit loads file offset (pe_phys e) (bs, pm)
       | None \<Rightarrow>
           if kmalloc = 0 then (None, (bs, pm))
           else case pmm_alloc_frame pm of (phys, pm) \<Rightarrow>
             if phys = 0 then (None, (bs, pm))
             else case gap1 (bs, pm) of (bs, pm) \<Rightarrow>
               case pc_find file offset bs of
                 Some e \<Rightarrow> pc_hit loads file offset (pe_phys e) (bs, pmm_free_frame phys pm)
               | None \<Rightarrow>
                   let bs = bs[h := \<lparr>pe_addr = kmalloc, pe_ofd = file, pe_offset = offset, pe_phys = phys,
                                  pe_dirty = False, pe_ready = False\<rparr> # bs ! h] in
                   case gap2 (bs, pm) of (bs, pm) \<Rightarrow>
                     let pm = (case fill_fn of None \<Rightarrow> pm
                               | Some f \<Rightarrow> pm\<lparr>phys_mem := f phys (phys_mem pm)\<rparr>)
                     in pc_publish kmalloc h phys (bs, pm))"

definition page_cache_invalidate :: "nat \<Rightarrow> cache_buckets \<Rightarrow> cache_buckets" where
  "page_cache_invalidate file bs =
     (if file = 0 then bs else fst (unlink_buckets (\<lambda>e. pe_ofd e = file) bs []))"

text \<open>The first match in bucket order is marked.\<close>

fun mark_first :: "nat \<Rightarrow> nat \<Rightarrow> cache_buckets \<Rightarrow> int \<times> cache_buckets" where
  "mark_first file off [] = (-1, [])"
| "mark_first file off (b # bs) =
     (if \<exists>e \<in> set b. pe_ofd e = file \<and> pe_offset e = off
      then (0, update_first (\<lambda>e. pe_ofd e = file \<and> pe_offset e = off) (pe_dirty_update (\<lambda>_. True)) b # bs)
      else case mark_first file off bs of (r, bs) \<Rightarrow> (r, b # bs))"

definition page_cache_mark_dirty :: "nat \<Rightarrow> nat \<Rightarrow> cache_buckets \<Rightarrow> int \<times> cache_buckets" where
  "page_cache_mark_dirty file offset bs =
     (if file = 0 then (-1, bs) else mark_first file (ALIGN_DOWN offset 4096) bs)"

section \<open>Writing back\<close>

text \<open>The file's write operation takes and returns the file system's state \<open>'w\<close>; it is absent when a
  pointer on the way to it is NULL.\<close>

type_synonym 'w write_op = "'w \<Rightarrow> nat \<Rightarrow> byte list \<Rightarrow> int \<times> 'w"

definition page_bytes :: "(nat \<Rightarrow> byte) \<Rightarrow> nat \<Rightarrow> byte list" where
  "page_bytes mem phys = map (\<lambda>i. mem (phys + i)) [0..<4096]"

text \<open>One turn of the loops: an entry not selected is skipped; a selected one is written and marked
  clean if all of it was taken.\<close>

fun flush_chain ::
  "(page_cache_entry \<Rightarrow> bool) \<Rightarrow> 'w write_op option \<Rightarrow> (nat \<Rightarrow> byte) \<Rightarrow> page_cache_entry list \<Rightarrow> 'w \<times> bool \<Rightarrow>
   page_cache_entry list \<times> 'w \<times> bool" where
  "flush_chain sel wop mem [] s = ([], s)"
| "flush_chain sel wop mem (e # es) (w, failed) =
     (if \<not> sel e then case flush_chain sel wop mem es (w, failed) of (es, s) \<Rightarrow> (e # es, s)
      else case wop of
        None \<Rightarrow> (case flush_chain sel wop mem es (w, True) of (es, s) \<Rightarrow> (e # es, s))
      | Some wr \<Rightarrow>
          (case wr w (pe_offset e) (page_bytes mem (pe_phys e)) of (n, w) \<Rightarrow>
             if n = 4096
             then case flush_chain sel wop mem es (w, failed) of (es, s) \<Rightarrow> (e\<lparr>pe_dirty := False\<rparr> # es, s)
             else case flush_chain sel wop mem es (w, True) of (es, s) \<Rightarrow> (e # es, s)))"

fun flush_buckets ::
  "(page_cache_entry \<Rightarrow> bool) \<Rightarrow> 'w write_op option \<Rightarrow> (nat \<Rightarrow> byte) \<Rightarrow> cache_buckets \<Rightarrow> 'w \<times> bool \<Rightarrow>
   cache_buckets \<times> 'w \<times> bool" where
  "flush_buckets sel wop mem [] s = ([], s)"
| "flush_buckets sel wop mem (b # bs) s =
     (case flush_chain sel wop mem b s of (b, s) \<Rightarrow>
        case flush_buckets sel wop mem bs s of (bs, s) \<Rightarrow> (b # bs, s))"

definition page_cache_flush_range ::
  "'w write_op option \<Rightarrow> (nat \<Rightarrow> byte) \<Rightarrow> nat \<Rightarrow> nat \<Rightarrow> nat \<Rightarrow> cache_buckets \<Rightarrow> 'w \<Rightarrow> int \<times> cache_buckets \<times> 'w" where
  "page_cache_flush_range wop mem file lo hi bs w =
     (if file = 0 then (-1, bs, w)
      else case flush_buckets (\<lambda>e. pe_ofd e = file \<and> pe_dirty e \<and> lo \<le> pe_offset e \<and> pe_offset e < hi)
             wop mem bs (w, False) of
        (bs, w, failed) \<Rightarrow> (if failed then -1 else 0, bs, w))"

definition page_cache_flush ::
  "'w write_op option \<Rightarrow> (nat \<Rightarrow> byte) \<Rightarrow> nat \<Rightarrow> cache_buckets \<Rightarrow> 'w \<Rightarrow> cache_buckets \<times> 'w" where
  "page_cache_flush wop mem file bs w =
     (if file = 0 then (bs, w)
      else case flush_buckets (\<lambda>e. pe_ofd e = file \<and> pe_dirty e) wop mem bs (w, False) of
        (bs, w, failed) \<Rightarrow> (bs, w))"

section \<open>The table is a chained hash table\<close>

definition pe_key :: "page_cache_entry \<Rightarrow> nat \<times> nat" where
  "pe_key e = (pe_ofd e, pe_offset e)"

lemma hash_page_less: "hash_page file offset < PAGE_CACHE_BUCKETS"
  using word_mod_less_divisor [of "1024 :: u32"]
  by (simp add: hash_page_def PAGE_CACHE_BUCKETS_def word_less_nat_alt)

interpretation pgc: hash_chains "\<lambda>(file, off). hash_page file off" pe_key PAGE_CACHE_BUCKETS
  by unfold_locales (auto simp: hash_page_less)

lemma pc_find_lookup: "pc_find file off bs = pgc.chain_lookup bs (file, off)"
  by (simp add: pc_find_def pgc.chain_lookup_def pe_key_def)

lemma wait_from_iff: "wait_from loads i \<longleftrightarrow> (\<exists>j. i \<le> j \<and> j < PAGE_CACHE_READY_SPINS \<and> loads j)"
proof (induction loads i rule: wait_from.induct)
  case (1 loads i)
  have "(\<exists>j \<ge> i. j < PAGE_CACHE_READY_SPINS \<and> loads j) \<longleftrightarrow>
      i < PAGE_CACHE_READY_SPINS \<and> (loads i \<or> (\<exists>j \<ge> i + 1. j < PAGE_CACHE_READY_SPINS \<and> loads j))"
    by (metis Suc_eq_plus1 Suc_leD Suc_leI le_less_trans le_neq_implies_less order_refl)
  with 1 show ?case by (subst wait_from.simps) auto
qed

lemma page_cache_wait_ready_iff:
  "page_cache_wait_ready loads \<longleftrightarrow> (\<exists>j < PAGE_CACHE_READY_SPINS. loads j)"
  by (auto simp: page_cache_wait_ready_def wait_from_iff)

text \<open>Setting the ready flag of the entry with a given address.\<close>

abbreviation set_ready :: "nat \<Rightarrow> page_cache_entry \<Rightarrow> page_cache_entry" where
  "set_ready a e \<equiv> (if pe_addr e = a then e\<lparr>pe_ready := True\<rparr> else e)"

lemma pe_key_set_ready: "pe_key (set_ready a e) = pe_key e"
  by (simp add: pe_key_def)

lemma pc_hit_ok:
  assumes "pmm_inv pm" "0 < frame_refs pm p" "frame_refs pm p < 2 ^ 32 - 1" "page_cache_wait_ready loads"
  obtains pm' where "pc_hit loads file off p (bs, pm) = (Some p, (bs, pm'))" "pmm_inv pm'"
    "frame_refs pm' = (frame_refs pm)(p := frame_refs pm p + 1)" "phys_mem pm' = phys_mem pm"
  by (rule pmm_inc_frame_ref_ok [OF assms(1-3)]) (use assms(4) in \<open>auto simp: pc_hit_def intro: that\<close>)

lemma pc_publish_ok:
  assumes "pmm_inv pm" "0 < frame_refs pm p" "frame_refs pm p < 2 ^ 32 - 1"
  obtains pm' where "pc_publish a h p (bs, pm) = (Some p, (map (map (set_ready a)) bs, pm'))" "pmm_inv pm'"
    "frame_refs pm' = (frame_refs pm)(p := frame_refs pm p + 1)" "phys_mem pm' = phys_mem pm"
  by (rule pmm_inc_frame_ref_ok [OF assms]) (auto simp: pc_publish_def Let_def intro: that)

text \<open>An uninterrupted miss.\<close>

lemma get_or_alloc_miss:
  assumes ok: "pmm_inv pm" "pgc.chains_ok bs" and miss: "pc_find file off bs = None" and "file \<noteq> 0" "k \<noteq> 0"
    and avail: "0 < free_frames pm"
  obtains p bs' pm' where
    "page_cache_get_or_alloc k (\<lambda>s. s) (\<lambda>s. s) loads (Some f) file off (bs, pm) = (Some p, (bs', pm'))"
    "pmm_inv pm'" "pgc.chains_ok bs'" "frame_refs pm p = 0" "frame_refs pm' = (frame_refs pm)(p := 2)"
    "phys_mem pm' = f p (phys_mem (snd (pmm_alloc_frame pm)))"
    "pc_find file off bs' = Some \<lparr>pe_addr = k, pe_ofd = file, pe_offset = off, pe_phys = p,
        pe_dirty = False, pe_ready = True\<rparr>"
proof -
  obtain p pm0 where a: "pmm_alloc_frame pm = (p, pm0)" by fastforce
  have p: "p \<noteq> 0" using pmm_alloc_frame_avail(1) [OF ok(1) avail] a by simp
  let ?e = "\<lparr>pe_addr = k, pe_ofd = file, pe_offset = off, pe_phys = p, pe_dirty = False, pe_ready = False\<rparr>"
  let ?h = "hash_page file off"
  let ?bs = "bs[?h := ?e # bs ! ?h]"
  let ?pm = "pm0\<lparr>phys_mem := f p (phys_mem pm0)\<rparr>"
  have key: "pe_key ?e = (file, off)" by (simp add: pe_key_def)
  have bs: "pgc.chains_ok ?bs" "pc_find file off ?bs = Some ?e"
    using pgc.push_ok [OF ok(2), of ?e] pgc.lookup_push [OF ok(2), of ?e "(file, off)"] miss key
    by (simp_all add: pc_find_lookup)
  have refs: "pmm_inv ?pm" "frame_refs ?pm = (frame_refs pm)(p := 1)" "frame_refs pm p = 0"
    using pmm.alloc_inv [OF ok(1) a] pmm.alloc_refs [OF ok(1) a p] pmm.alloc_fresh [OF ok(1) a p] by simp_all
  have pos: "0 < frame_refs ?pm p" "frame_refs ?pm p < 2 ^ 32 - 1" by (simp_all add: refs(2) del: frame_refs_mem)
  obtain pm' where pub: "pc_publish k ?h p (?bs, ?pm) = (Some p, (map (map (set_ready k)) ?bs, pm'))"
    and pm': "pmm_inv pm'" "frame_refs pm' = (frame_refs ?pm)(p := frame_refs ?pm p + 1)" "phys_mem pm' = phys_mem ?pm"
    by (rule pc_publish_ok [OF refs(1) pos])
  have "page_cache_get_or_alloc k (\<lambda>s. s) (\<lambda>s. s) loads (Some f) file off (bs, pm) =
      pc_publish k ?h p (?bs, ?pm)"
    using assms(3-5) a p by (simp add: page_cache_get_or_alloc_def Let_def)
  moreover have "pgc.chains_ok (map (map (set_ready k)) ?bs)"
    using bs(1) by (rule pgc.map_ok) (rule pe_key_set_ready)
  moreover have "pc_find file off (map (map (set_ready k)) ?bs) = Some (?e\<lparr>pe_ready := True\<rparr>)"
    using pgc.lookup_map [where f = "set_ready k" and k = "(file, off)", OF bs(1) pe_key_set_ready] bs(2) by (simp add: pc_find_lookup)
  ultimately show thesis
    using that [of p "map (map (set_ready k)) ?bs" pm'] pub pm' refs a
    by (simp add: numeral_2_eq_2)
qed

lemma flush_chain_ok:
  assumes "flush_chain sel (Some wr) mem es (w, failed) = (es', w', False)"
  shows "\<not> failed \<and> es' = map (\<lambda>e. if sel e then e\<lparr>pe_dirty := False\<rparr> else e) es \<and>
    w' = fold (\<lambda>e w. snd (wr w (pe_offset e) (page_bytes mem (pe_phys e)))) (filter sel es) w"
  using assms
proof (induction es arbitrary: w failed es')
  case (Cons e es)
  obtain n w1 where wr: "wr w (pe_offset e) (page_bytes mem (pe_phys e)) = (n, w1)" by fastforce
  obtain es1 where "if sel e
      then n = 4096 \<and> flush_chain sel (Some wr) mem es (w1, failed) = (es1, w', False) \<and> es' = e\<lparr>pe_dirty := False\<rparr> # es1 \<or>
           n \<noteq> 4096 \<and> flush_chain sel (Some wr) mem es (w1, True) = (es1, w', False)
      else flush_chain sel (Some wr) mem es (w, failed) = (es1, w', False) \<and> es' = e # es1"
    using Cons.prems wr by (auto split: if_splits prod.splits)
  with Cons.IH wr show ?case by (auto split: if_splits)
qed simp

lemma flush_buckets_ok:
  assumes "flush_buckets sel (Some wr) mem bs (w, failed) = (bs', w', False)"
  shows "\<not> failed \<and> bs' = map (map (\<lambda>e. if sel e then e\<lparr>pe_dirty := False\<rparr> else e)) bs \<and>
    w' = fold (\<lambda>e w. snd (wr w (pe_offset e) (page_bytes mem (pe_phys e)))) (filter sel (concat bs)) w"
  using assms
proof (induction bs arbitrary: w failed bs')
  case (Cons b bs)
  obtain b1 w1 f1 where b: "flush_chain sel (Some wr) mem b (w, failed) = (b1, w1, f1)"
    by (rule prod_cases3)
  with Cons.prems obtain bs1 where bs: "flush_buckets sel (Some wr) mem bs (w1, f1) = (bs1, w', False)" "bs' = b1 # bs1"
    by (auto split: prod.splits)
  from Cons.IH [OF bs(1)] b flush_chain_ok [of sel wr mem b w failed b1 w1] bs(2) show ?case by auto
qed simp

section \<open>Properties\<close>


definition demo_buckets :: cache_buckets where
  "demo_buckets = replicate PAGE_CACHE_BUCKETS []"

lemma demo_buckets_facts: "pgc.chains_ok demo_buckets" "pc_find file off demo_buckets = None"
  using hash_page_less [of "file" "off"] by (simp_all add: demo_buckets_def pc_find_def)




end
