(* ===== verification/PageFlags.thy ===== *)
theory PageFlags
  imports Prelude
begin

text \<open>
  The bits of a page-table entry and the fields of a virtual address,
  \<open>kernel/arch/x86_64/paging.h\<close>.
\<close>

definition PAGE_FLAG_PRESENT :: u64 where "PAGE_FLAG_PRESENT = push_bit 0 1"
definition PAGE_FLAG_WRITABLE :: u64 where "PAGE_FLAG_WRITABLE = push_bit 1 1"
definition PAGE_FLAG_USER :: u64 where "PAGE_FLAG_USER = push_bit 2 1"
definition PAGE_FLAG_PS :: u64 where "PAGE_FLAG_PS = push_bit 7 1"
definition PAGE_FLAG_COW :: u64 where "PAGE_FLAG_COW = push_bit 9 1"
definition PAGE_FLAG_NO_EXEC :: u64 where "PAGE_FLAG_NO_EXEC = push_bit 63 1"

definition PAGE_SIZE_BYTES :: nat where "PAGE_SIZE_BYTES = 4096"
definition PAGE_ADDR_MASK :: u64 where "PAGE_ADDR_MASK = 0x000FFFFFFFFFF000"
definition PML4_USER_TOP :: nat where "PML4_USER_TOP = 256"

definition PML4_INDEX :: "u64 \<Rightarrow> nat" where "PML4_INDEX addr = unat (drop_bit 39 addr AND 0x1FF)"
definition PDPT_INDEX :: "u64 \<Rightarrow> nat" where "PDPT_INDEX addr = unat (drop_bit 30 addr AND 0x1FF)"
definition PD_INDEX :: "u64 \<Rightarrow> nat" where "PD_INDEX addr = unat (drop_bit 21 addr AND 0x1FF)"
definition PT_INDEX :: "u64 \<Rightarrow> nat" where "PT_INDEX addr = unat (drop_bit 12 addr AND 0x1FF)"

end
