(* ===== verification/PageFault.thy ===== *)
theory PageFault
  imports Vma Shmem PageCache PageFlags
begin

text \<open>
  Demand paging, \<open>handle_user_page_fault\<close> of \<open>kernel/mm/vma.c\<close>, which brings the area list, the shared
  memory table, the page cache and the physical memory manager together.  The page tables are a
  map from page addresses to a frame and its flag bits; the walk of the table levels inside
  \<open>paging_map\<close> is not represented.  Reading file data into a frame is the parameter \<open>read_at\<close>.
\<close>

section \<open>State\<close>

record fault_state =
  pf_vmas :: "vma list"
  pf_env :: vma_env
  pf_shm :: shmem_state
  pf_cache :: cache_buckets
  pf_pmm :: pmm_state
  pf_pt :: "nat \<Rightarrow> (nat \<times> u64) option"

text \<open>The answers of the allocators and of the other processors during one fault.\<close>

record fault_ctx =
  c_entry_ok :: bool
  c_shm_gap :: "shmem_sys \<Rightarrow> shmem_sys"
  c_kmalloc :: nat
  c_gap1 :: "pc_sys \<Rightarrow> pc_sys"
  c_gap2 :: "pc_sys \<Rightarrow> pc_sys"
  c_loads :: "nat \<Rightarrow> bool"
  read_at :: "nat \<Rightarrow> nat \<Rightarrow> nat \<Rightarrow> (nat \<Rightarrow> byte) \<Rightarrow> (nat \<Rightarrow> byte)"

section \<open>The handler\<close>

definition fill_page :: "fault_ctx \<Rightarrow> nat \<Rightarrow> nat \<Rightarrow> u32 \<Rightarrow> nat \<Rightarrow> (nat \<Rightarrow> byte) \<Rightarrow> (nat \<Rightarrow> byte)" where
  "fill_page c file offset flags phys mem =
     (if has flags VMA_FILE then read_at c file offset phys mem else mem_fill phys 4096 0 mem)"

text \<open>Choosing the frame, by the kind of area.\<close>

definition fault_frame :: "fault_ctx \<Rightarrow> vma \<Rightarrow> nat \<Rightarrow> u64 \<Rightarrow> fault_state \<Rightarrow> nat option \<times> fault_state" where
  "fault_frame c v offset err s =
     (if has (v_flags v) VMA_SHMEM
      then case shmem_get_or_alloc (c_entry_ok c) (c_shm_gap c) (v_shmid v) offset (pf_shm s, pf_pmm s) of
             (r, (shm, pm)) \<Rightarrow> (r, s\<lparr>pf_shm := shm, pf_pmm := pm\<rparr>)
      else if has (v_flags v) VMA_SHARED
      then case page_cache_get_or_alloc (c_kmalloc c) (c_gap1 c) (c_gap2 c) (c_loads c)
                  (Some (fill_page c (v_file v) offset (v_flags v))) (v_file v) offset (pf_cache s, pf_pmm s) of
             (None, (bs, pm)) \<Rightarrow> (None, s\<lparr>pf_cache := bs, pf_pmm := pm\<rparr>)
           | (Some phys, (bs, pm)) \<Rightarrow>
               (Some phys, s\<lparr>pf_cache := (if err AND 2 \<noteq> 0 then snd (page_cache_mark_dirty (v_file v) offset bs) else bs),
                             pf_pmm := pm\<rparr>)
      else case pmm_alloc_frame (pf_pmm s) of (phys, pm) \<Rightarrow>
             if phys = 0 then (None, s\<lparr>pf_pmm := pm\<rparr>)
             else (Some phys, s\<lparr>pf_pmm := pm\<lparr>phys_mem := fill_page c (v_file v) offset (v_flags v) phys (phys_mem pm)\<rparr>\<rparr>))"

definition fault_pte :: "vma \<Rightarrow> u64 \<Rightarrow> u64" where
  "fault_pte v err =
     (let pte = PAGE_FLAG_PRESENT OR PAGE_FLAG_USER;
          pte = (if has (v_flags v) VMA_WRITE then pte OR PAGE_FLAG_WRITABLE else pte);
          pte = (if \<not> has (v_flags v) VMA_EXEC then pte OR PAGE_FLAG_NO_EXEC else pte)
      in if has (v_flags v) VMA_SHARED \<and> has (v_flags v) VMA_FILE \<and> \<not> has (v_flags v) VMA_SHMEM \<and> err AND 2 = 0
         then pte AND NOT PAGE_FLAG_WRITABLE else pte)"

definition handle_user_page_fault :: "fault_ctx \<Rightarrow> nat \<Rightarrow> u64 \<Rightarrow> fault_state \<Rightarrow> int \<times> fault_state" where
  "handle_user_page_fault c cr2 err s =
     (let page_va = ALIGN_DOWN cr2 4096 in
      case vma_find (pf_vmas s) page_va of
        None \<Rightarrow> (-1, s)
      | Some v \<Rightarrow>
          let s = s\<lparr>pf_env := vma_retain_file (v_flags v) (v_file v) (pf_env s)\<rparr>;
              put = (\<lambda>s. s\<lparr>pf_env := vma_drop_file (v_flags v) (v_file v) (pf_env s)\<rparr>)
          in if err AND 2 \<noteq> 0 \<and> \<not> has (v_flags v) VMA_WRITE then (-1, put s)
             else if err AND 0x10 \<noteq> 0 \<and> \<not> has (v_flags v) VMA_EXEC then (-1, put s)
             else case fault_frame c v (add64 (file_off v) (sub64 page_va (va_start v))) err s of
               (None, s) \<Rightarrow> (-1, put s)
             | (Some phys, s) \<Rightarrow>
                 (0, put (s\<lparr>pf_pt := (pf_pt s)(page_va \<mapsto> (phys, fault_pte v err))\<rparr>)))"

section \<open>Lemmas\<close>

lemma retain_drop: "vma_drop_file fl f (vma_retain_file fl f e) = e"
  by (simp add: vma_retain_file_def vma_drop_file_def)

lemma fault_frame_fields:
  assumes "fault_frame c v off err s = (r, s')"
  shows "pf_vmas s' = pf_vmas s" "pf_env s' = pf_env s" "pf_pt s' = pf_pt s"
  using assms by (auto simp: fault_frame_def split: if_splits prod.splits option.splits)

lemma pte_bits:
  "bit (fault_pte v err) 0" "bit (fault_pte v err) 2"
  "bit (fault_pte v err) 1 \<longleftrightarrow> has (v_flags v) VMA_WRITE \<and>
     \<not> (has (v_flags v) VMA_SHARED \<and> has (v_flags v) VMA_FILE \<and> \<not> has (v_flags v) VMA_SHMEM \<and> err AND 2 = 0)"
  "bit (fault_pte v err) 63 \<longleftrightarrow> \<not> has (v_flags v) VMA_EXEC"
  by (auto simp: fault_pte_def Let_def PAGE_FLAG_PRESENT_def PAGE_FLAG_USER_def PAGE_FLAG_WRITABLE_def
      PAGE_FLAG_NO_EXEC_def bit_simps)

section \<open>Properties\<close>


definition demo_ctx :: fault_ctx where
  "demo_ctx = \<lparr>c_entry_ok = True, c_shm_gap = (\<lambda>s. s), c_kmalloc = 64, c_gap1 = (\<lambda>s. s), c_gap2 = (\<lambda>s. s),
     c_loads = (\<lambda>_. True), read_at = (\<lambda>f off p m. m(p := 9))\<rparr>"

definition demo_fault :: "u32 \<Rightarrow> fault_state" where
  "demo_fault flags = \<lparr>pf_vmas = [\<lparr>va_start = 0x4000, va_end = 0x6000, v_flags = flags, v_file = 5, file_off = 0, v_shmid = 0\<rparr>],
     pf_env = \<lparr>answers = [], ofd_refs = (\<lambda>_. 1)\<rparr>, pf_shm = demo_shmem, pf_cache = demo_buckets, pf_pmm = demo_pmm,
     pf_pt = (\<lambda>_. None)\<rparr>"

lemma demo_alloc: "\<exists>p pm. pmm_alloc_frame demo_pmm = (p, pm) \<and> p \<noteq> 0"
  using pmm_alloc_frame_avail(1) [OF demo_pmm_inv] by (cases "pmm_alloc_frame demo_pmm") (simp add: demo_pmm_free)


text \<open>A fault on a page of a shared file mapping that is in the cache.\<close>

lemma shared_fault_step:
  assumes v: "vma_find (pf_vmas s) (ALIGN_DOWN cr2 4096) = Some v"
    and fl: "has (v_flags v) VMA_SHARED" "\<not> has (v_flags v) VMA_SHMEM" "has (v_flags v) VMA_WRITE"
    and ex: "err AND 0x10 = 0"
    and g: "page_cache_get_or_alloc (c_kmalloc c) (c_gap1 c) (c_gap2 c) (c_loads c)
        (Some (fill_page c (v_file v) (add64 (file_off v) (sub64 (ALIGN_DOWN cr2 4096) (va_start v))) (v_flags v)))
        (v_file v) (add64 (file_off v) (sub64 (ALIGN_DOWN cr2 4096) (va_start v))) (pf_cache s, pf_pmm s) = (Some p, (bs, pm))"
  shows "fst (handle_user_page_fault c cr2 err s) = 0"
    "pf_pt (snd (handle_user_page_fault c cr2 err s)) = (pf_pt s)(ALIGN_DOWN cr2 4096 \<mapsto> (p, fault_pte v err))"
    "pf_pmm (snd (handle_user_page_fault c cr2 err s)) = pm" "pf_vmas (snd (handle_user_page_fault c cr2 err s)) = pf_vmas s"
    "err AND 2 = 0 \<Longrightarrow> pf_cache (snd (handle_user_page_fault c cr2 err s)) = bs"
  using assms by (simp_all add: handle_user_page_fault_def fault_frame_def Let_def)

text \<open>C35: reading and then writing a page of a writable shared file mapping takes two references on its
  frame for the one page table entry that maps it: the read fault installs the page read-only, the
  write fault looks it up in the cache again and takes another reference.  The frame ends with
  three references, one of them the cache's and one the mapping's; no entry will give the third
  back.\<close>

theorem shared_file_page_read_then_write_leaks:
  assumes "vma_find (pf_vmas s) (ALIGN_DOWN cr2 4096) = Some v"
    and "has (v_flags v) VMA_SHARED" and "has (v_flags v) VMA_FILE" and "\<not> has (v_flags v) VMA_SHMEM"
    and "has (v_flags v) VMA_WRITE"
    and "pmm_inv (pf_pmm s)" and "pgc.chains_ok (pf_cache s)" and "0 < free_frames (pf_pmm s)"
    and "pc_find (v_file v) (add64 (file_off v) (sub64 (ALIGN_DOWN cr2 4096) (va_start v))) (pf_cache s) = None"
    and "v_file v \<noteq> 0" and "c_kmalloc c \<noteq> 0" and "c_loads c 0" and "c_gap1 c = (\<lambda>s. s)" and "c_gap2 c = (\<lambda>s. s)"
    and "handle_user_page_fault c cr2 0 s = (r1, s1)" and "handle_user_page_fault c cr2 2 s1 = (r2, s2)"
  shows "\<exists>p. r1 = 0 \<and> r2 = 0 \<and> pf_pt s1 = (pf_pt s)(ALIGN_DOWN cr2 4096 \<mapsto> (p, fault_pte v 0)) \<and>
    pf_pt s2 = (pf_pt s)(ALIGN_DOWN cr2 4096 \<mapsto> (p, fault_pte v 2)) \<and>
    frame_refs (pf_pmm s) p = 0 \<and> frame_refs (pf_pmm s2) = (frame_refs (pf_pmm s))(p := 3)"
proof -
  let ?off = "add64 (file_off v) (sub64 (ALIGN_DOWN cr2 4096) (va_start v))"
  let ?f = "fill_page c (v_file v) ?off (v_flags v)"
  obtain p bs pm where m: "page_cache_get_or_alloc (c_kmalloc c) (\<lambda>s. s) (\<lambda>s. s) (c_loads c) (Some ?f) (v_file v) ?off
      (pf_cache s, pf_pmm s) = (Some p, (bs, pm))"
    "pmm_inv pm" "frame_refs (pf_pmm s) p = 0" "frame_refs pm = (frame_refs (pf_pmm s))(p := 2)"
    "pc_find (v_file v) ?off bs = Some \<lparr>pe_addr = c_kmalloc c, pe_ofd = v_file v, pe_offset = ?off, pe_phys = p,
        pe_dirty = False, pe_ready = True\<rparr>"
    by (rule get_or_alloc_miss [OF assms(6,7,9-11,8)])
  have s1: "r1 = 0" "pf_pt s1 = (pf_pt s)(ALIGN_DOWN cr2 4096 \<mapsto> (p, fault_pte v 0))" "pf_pmm s1 = pm"
    "pf_vmas s1 = pf_vmas s" "pf_cache s1 = bs"
    using shared_fault_step [OF assms(1,2,4,5), of 0 c p bs pm] assms(13,14,15) m(1) by simp_all
  have w: "page_cache_wait_ready (c_loads c)"
    using assms(12) by (auto simp: page_cache_wait_ready_iff PAGE_CACHE_READY_SPINS_def intro!: exI [of _ 0])
  obtain pm2 where h: "pc_hit (c_loads c) (v_file v) ?off p (bs, pm) = (Some p, (bs, pm2))"
    "frame_refs pm2 = (frame_refs pm)(p := frame_refs pm p + 1)"
    by (rule pc_hit_ok [OF m(2) _ _ w, of p]) (simp_all add: m(4))
  have "page_cache_get_or_alloc (c_kmalloc c) (c_gap1 c) (c_gap2 c) (c_loads c) (Some ?f) (v_file v) ?off (pf_cache s1, pf_pmm s1) =
      (Some p, (bs, pm2))"
    using assms(10) m(5) h(1) by (simp add: page_cache_get_or_alloc_def Let_def s1)
  with shared_fault_step [of s1 cr2 v 2 c p bs pm2] assms(1,2,4,5,16) s1
  have "r2 = 0" "pf_pt s2 = (pf_pt s1)(ALIGN_DOWN cr2 4096 \<mapsto> (p, fault_pte v 2))" "pf_pmm s2 = pm2" by simp_all
  then show ?thesis using s1 m(3,4) h(2) by (intro exI [of _ p]) simp
qed

theorem shared_file_page_read_then_write_leaks_witness:
  "\<exists>p. let s = demo_fault (VMA_FILE OR VMA_SHARED OR VMA_READ OR VMA_WRITE);
         s2 = snd (handle_user_page_fault demo_ctx 0x4123 2 (snd (handle_user_page_fault demo_ctx 0x4123 0 s)))
     in frame_refs (pf_pmm s2) p = 3 \<and> map_option fst (pf_pt s2 0x4000) = Some p"
proof -
  let ?fl = "VMA_FILE OR VMA_SHARED OR VMA_READ OR VMA_WRITE"
  let ?s = "demo_fault ?fl"
  let ?v = "\<lparr>va_start = 0x4000, va_end = 0x6000, v_flags = ?fl, v_file = 5, file_off = 0, v_shmid = 0\<rparr>"
  have fl: "has ?fl VMA_SHARED" "has ?fl VMA_FILE" "\<not> has ?fl VMA_SHMEM" "has ?fl VMA_WRITE"
    by (simp_all add: has_def VMA_READ_def VMA_WRITE_def VMA_SHMEM_def VMA_SHARED_def VMA_FILE_def)
  have va: "ALIGN_DOWN 0x4123 4096 = 0x4000" by (simp add: ALIGN_DOWN_def)
  obtain r1 s1 where 1: "handle_user_page_fault demo_ctx 0x4123 0 ?s = (r1, s1)" by fastforce
  obtain r2 s2 where 2: "handle_user_page_fault demo_ctx 0x4123 2 s1 = (r2, s2)" by fastforce
  have v: "vma_find (pf_vmas ?s) (ALIGN_DOWN 0x4123 4096) = Some ?v" by (simp add: va demo_fault_def vma_find_def)
  have pm: "pmm_inv (pf_pmm ?s)" "pgc.chains_ok (pf_cache ?s)" "0 < free_frames (pf_pmm ?s)"
    "pc_find f off (pf_cache ?s) = None" for f off
    using demo_pmm_inv demo_buckets_facts demo_pmm_free by (simp_all add: demo_fault_def)
  from shared_file_page_read_then_write_leaks [OF v _ _ _ _ pm(1-4) _ _ _ _ _ 1 2] fl
  obtain p where "pf_pt s2 = (pf_pt ?s)(ALIGN_DOWN 0x4123 4096 \<mapsto> (p, fault_pte ?v 2))"
    "frame_refs (pf_pmm s2) = (frame_refs (pf_pmm ?s))(p := 3)"
    by (auto simp: demo_ctx_def)
  then show ?thesis using 1 2 by (auto simp: Let_def va)
qed

end
