(* ===== verification/Heap.thy ===== *)
theory Heap
  imports Prelude "HOL-Library.Monad_Syntax"
begin

text \<open>
  The first-fit heap with boundary tags, \<open>kernel/mm/heap.c\<close>, over a byte-addressed memory.  A block
  is named by the address of its header {magic, size, next, prev} (32 bytes); its footer
  {magic, size} is its last 16 bytes.  NULL is 0.  Loops over the free list and the retry loop of
  \<open>heap_alloc\<close> are partial: \<open>None\<close> is a call that does not return.  The field \<open>h_env\<close> is whatever
  state the expansion callback needs.
\<close>

section \<open>State\<close>

record 'e heap_state =
  h_base :: nat
  h_limit :: nat
  h_brk :: nat
  h_free_list :: nat
  h_mem :: "nat \<Rightarrow> byte"
  h_env :: 'e

definition HEAP_MAGIC_USED :: nat where "HEAP_MAGIC_USED = 0xA10CA10CA10CA10C"
definition HEAP_MAGIC_FREE :: nat where "HEAP_MAGIC_FREE = 0xF8EEF8EEF8EEF8EE"
definition HEAP_ALIGN :: nat where "HEAP_ALIGN = 16"
definition HEADER_SIZE :: nat where "HEADER_SIZE = 32"
definition FOOTER_SIZE :: nat where "FOOTER_SIZE = 16"
definition MIN_PAYLOAD :: nat where "MIN_PAYLOAD = 16"
definition MIN_BLOCK :: nat where "MIN_BLOCK = HEADER_SIZE + FOOTER_SIZE + MIN_PAYLOAD"

type_synonym 'e expand_fn = "nat \<Rightarrow> 'e heap_state \<Rightarrow> int \<times> 'e heap_state"

text \<open>The fields of a block header.\<close>

definition b_magic :: "'e heap_state \<Rightarrow> nat \<Rightarrow> nat" where "b_magic h b = load64 (h_mem h) b"
definition b_size :: "'e heap_state \<Rightarrow> nat \<Rightarrow> nat" where "b_size h b = load64 (h_mem h) (b + 8)"
definition b_next :: "'e heap_state \<Rightarrow> nat \<Rightarrow> nat" where "b_next h b = load64 (h_mem h) (b + 16)"
definition b_prev :: "'e heap_state \<Rightarrow> nat \<Rightarrow> nat" where "b_prev h b = load64 (h_mem h) (b + 24)"

definition put64 :: "nat \<Rightarrow> nat \<Rightarrow> 'e heap_state \<Rightarrow> 'e heap_state" where
  "put64 a v h = h\<lparr>h_mem := store64 (h_mem h) a v\<rparr>"

definition set_magic :: "nat \<Rightarrow> nat \<Rightarrow> 'e heap_state \<Rightarrow> 'e heap_state" where "set_magic b = put64 b"
definition set_size :: "nat \<Rightarrow> nat \<Rightarrow> 'e heap_state \<Rightarrow> 'e heap_state" where "set_size b = put64 (b + 8)"
definition set_next :: "nat \<Rightarrow> nat \<Rightarrow> 'e heap_state \<Rightarrow> 'e heap_state" where "set_next b = put64 (b + 16)"
definition set_prev :: "nat \<Rightarrow> nat \<Rightarrow> 'e heap_state \<Rightarrow> 'e heap_state" where "set_prev b = put64 (b + 24)"

section \<open>Helpers\<close>

definition block_footer :: "nat \<Rightarrow> 'e heap_state \<Rightarrow> nat" where
  "block_footer b h = sub64 (add64 b (b_size h b)) FOOTER_SIZE"

definition set_footer :: "nat \<Rightarrow> 'e heap_state \<Rightarrow> 'e heap_state" where
  "set_footer b h =
     (let f = block_footer b h;
          h = put64 f (b_magic h b) h
      in put64 (f + 8) (b_size h b) h)"

definition required_block_size :: "nat \<Rightarrow> nat" where
  "required_block_size payload =
     (let payload = (if payload < MIN_PAYLOAD then MIN_PAYLOAD else payload)
      in ALIGN_UP (add64 (HEADER_SIZE + FOOTER_SIZE) payload) HEAP_ALIGN)"

definition fl_insert :: "nat \<Rightarrow> 'e heap_state \<Rightarrow> 'e heap_state" where
  "fl_insert b h =
     (let h = set_prev b 0 h;
          h = set_next b (h_free_list h) h;
          h = (if h_free_list h \<noteq> 0 then set_prev (h_free_list h) b h else h)
      in h\<lparr>h_free_list := b\<rparr>)"

definition fl_remove :: "nat \<Rightarrow> 'e heap_state \<Rightarrow> 'e heap_state" where
  "fl_remove b h =
     (let h = (if b_prev h b \<noteq> 0 then set_next (b_prev h b) (b_next h b) h
               else h\<lparr>h_free_list := b_next h b\<rparr>);
          h = (if b_next h b \<noteq> 0 then set_prev (b_next h b) (b_prev h b) h else h);
          h = set_next b 0 h
      in set_prev b 0 h)"

definition heap_init :: "nat \<Rightarrow> nat \<Rightarrow> 'e heap_state \<Rightarrow> 'e heap_state" where
  "heap_init base limit h = h\<lparr>h_base := base, h_limit := limit, h_brk := 0, h_free_list := 0\<rparr>"

definition split_block :: "nat \<Rightarrow> nat \<Rightarrow> 'e heap_state \<Rightarrow> 'e heap_state" where
  "split_block b need h =
     (if b_size h b < add64 need MIN_BLOCK then h
      else let rem = add64 b need;
               h = set_magic rem HEAP_MAGIC_FREE h;
               h = set_size rem (sub64 (b_size h b) need) h;
               h = set_footer rem h;
               h = fl_insert rem h;
               h = set_size b need h
           in set_footer b h)"

section \<open>Allocation\<close>

partial_function (option) heap_search :: "nat \<Rightarrow> 'e heap_state \<Rightarrow> nat \<Rightarrow> nat option" where
  "heap_search need h b =
     (if b = 0 then Some 0
      else if b_size h b \<ge> need then Some b
      else heap_search need h (b_next h b))"

definition heap_take :: "nat \<Rightarrow> nat \<Rightarrow> 'e heap_state \<Rightarrow> nat \<times> 'e heap_state" where
  "heap_take need b h =
     (let h = split_block b need h;
          h = set_magic b HEAP_MAGIC_USED h;
          h = set_footer b h;
          h = fl_remove b h
      in (b + HEADER_SIZE, h))"

partial_function (option) heap_alloc_loop ::
  "'e expand_fn option \<Rightarrow> nat \<Rightarrow> 'e heap_state \<Rightarrow> (nat \<times> 'e heap_state) option" where
  "heap_alloc_loop expand need h =
     do {
       b \<leftarrow> heap_search need h (h_free_list h);
       if b \<noteq> 0 then Some (heap_take need b h)
       else case expand of
         None \<Rightarrow> Some (0, h)
       | Some f \<Rightarrow> (case f need h of (rc, h) \<Rightarrow>
           if rc \<noteq> 0 then Some (0, h) else heap_alloc_loop expand need h)
     }"

definition heap_alloc :: "'e expand_fn option \<Rightarrow> nat \<Rightarrow> 'e heap_state \<Rightarrow> (nat \<times> 'e heap_state) option" where
  "heap_alloc expand sz h = heap_alloc_loop expand (required_block_size sz) h"

section \<open>Release\<close>

definition coalesce_next :: "nat \<Rightarrow> 'e heap_state \<Rightarrow> 'e heap_state" where
  "coalesce_next b h =
     (let nb = add64 b (b_size h b) in
      if nb < add64 (h_base h) (h_brk h) \<and> b_magic h nb = HEAP_MAGIC_FREE
      then let h = fl_remove nb h;
               h = set_size b (add64 (b_size h b) (b_size h nb)) h
           in set_footer b h
      else h)"

definition coalesce_prev :: "nat \<Rightarrow> 'e heap_state \<Rightarrow> bool \<times> 'e heap_state" where
  "coalesce_prev b h =
     (if b > h_base h \<and> load64 (h_mem h) (b - FOOTER_SIZE) = HEAP_MAGIC_FREE
      then let prev = sub64 b (load64 (h_mem h) (b - FOOTER_SIZE + 8));
               h = set_size prev (add64 (b_size h prev) (b_size h b)) h
           in (True, set_footer prev h)
      else (False, h))"

definition heap_free :: "nat \<Rightarrow> 'e heap_state \<Rightarrow> 'e heap_state" where
  "heap_free ptr h =
     (if ptr = 0 then h
      else let b = sub64 ptr HEADER_SIZE in
        if b_magic h b \<noteq> HEAP_MAGIC_USED then h
        else let h = set_magic b HEAP_MAGIC_FREE h;
                 h = coalesce_next b h
             in case coalesce_prev b h of (merged_prev, h) \<Rightarrow>
                  if \<not> merged_prev then fl_insert b h else h)"

section \<open>Resizing\<close>

definition copy_bytes :: "nat \<Rightarrow> nat \<Rightarrow> nat \<Rightarrow> (nat \<Rightarrow> byte) \<Rightarrow> (nat \<Rightarrow> byte)" where
  "copy_bytes dst src n m = fold (\<lambda>i m. m(dst + i := m (src + i))) [0..<n] m"

definition heap_realloc ::
  "'e expand_fn option \<Rightarrow> nat \<Rightarrow> nat \<Rightarrow> 'e heap_state \<Rightarrow> (nat \<times> 'e heap_state) option" where
  "heap_realloc expand ptr sz h =
     (if ptr = 0 then heap_alloc expand sz h
      else if sz = 0 then Some (0, heap_free ptr h)
      else let b = sub64 ptr HEADER_SIZE in
        if b_magic h b \<noteq> HEAP_MAGIC_USED then Some (0, h)
        else let old_payload = sub64 (sub64 (b_size h b) HEADER_SIZE) FOOTER_SIZE in
          if required_block_size sz \<le> b_size h b then Some (ptr, h)
          else do {
            (np, h) \<leftarrow> heap_alloc expand sz h;
            if np = 0 then Some (0, h)
            else let to_copy = (if old_payload < sz then old_payload else sz);
                     h = h\<lparr>h_mem := copy_bytes np ptr to_copy (h_mem h)\<rparr>
                 in Some (np, heap_free ptr h)
          })"

end
