(* ===== verification/HeapInv.thy ===== *)
theory HeapInv
  imports Heap
begin

text \<open>
  The heap invariant: the committed region is tiled by blocks whose header and footer agree, and
  the free list is a doubly linked list of exactly the free blocks.  The block list and the order
  of the free list are ghost arguments.  A footer may say \<open>USED\<close> although its block is free, because
  \<open>heap_free\<close> rewrites a footer only when it merges blocks; never the other way round.
\<close>

section \<open>Words of the memory\<close>

text \<open>The memory as the heap code sees it: one 64-bit word per aligned address.\<close>

definition wv :: "'e heap_state \<Rightarrow> nat \<Rightarrow> nat" where
  "wv h x = (if 8 dvd x then load64 (h_mem h) x else 0)"

lemma wv_less [simp]: "wv h x < 18446744073709551616"
  using load64_less [of "h_mem h" x] by (simp add: wv_def)

lemma wv_put64 [mem_simps]: "8 dvd a \<Longrightarrow> v < 2 ^ 64 \<Longrightarrow> wv (put64 a v h) = (wv h)(a := v)"
  by (auto simp: wv_def put64_def load64_store64 fun_eq_iff)

lemma put64_fields [simp]:
  "h_base (put64 a v h) = h_base h" "h_limit (put64 a v h) = h_limit h" "h_brk (put64 a v h) = h_brk h"
  "h_free_list (put64 a v h) = h_free_list h" "h_env (put64 a v h) = h_env h"
  by (simp_all add: put64_def)

lemma wv_free_list [simp]: "wv (h\<lparr>h_free_list := x\<rparr>) = wv h"
  by (simp add: wv_def fun_eq_iff)

lemma b_fields:
  "8 dvd b \<Longrightarrow> b_magic h b = wv h b" "8 dvd b \<Longrightarrow> b_size h b = wv h (b + 8)"
  "8 dvd b \<Longrightarrow> b_next h b = wv h (b + 16)" "8 dvd b \<Longrightarrow> b_prev h b = wv h (b + 24)"
  by (simp_all add: b_magic_def b_size_def b_next_def b_prev_def wv_def)

lemmas set_fields = set_magic_def set_size_def set_next_def set_prev_def

lemma dvd8_16 [simp]: "16 dvd (b::nat) \<Longrightarrow> 8 dvd b"
  by (rule dvd_trans [of 8 16]) auto

lemmas heap_consts = HEADER_SIZE_def FOOTER_SIZE_def MIN_PAYLOAD_def MIN_BLOCK_def HEAP_ALIGN_def

lemma magic_neq [simp]: "HEAP_MAGIC_USED \<noteq> HEAP_MAGIC_FREE" "HEAP_MAGIC_FREE \<noteq> HEAP_MAGIC_USED"
  and magic_less [simp]: "HEAP_MAGIC_USED < 18446744073709551616" "HEAP_MAGIC_FREE < 18446744073709551616"
  by (simp_all add: HEAP_MAGIC_USED_def HEAP_MAGIC_FREE_def)

section \<open>What an operation may change\<close>

text \<open>The bytes outside \<open>Z\<close> are as before.\<close>

definition same_outside :: "nat set \<Rightarrow> 'e heap_state \<Rightarrow> 'e heap_state \<Rightarrow> bool" where
  "same_outside Z h h' \<longleftrightarrow> (\<forall>x. x \<notin> Z \<longrightarrow> h_mem h' x = h_mem h x)"

lemma same_outside_refl [simp]: "same_outside Z h h"
  by (simp add: same_outside_def)

lemma same_outside_trans: "same_outside Z h h1 \<Longrightarrow> same_outside Z h1 h2 \<Longrightarrow> same_outside Z h h2"
  by (auto simp: same_outside_def)

lemma same_outside_mono: "same_outside Z h h' \<Longrightarrow> Z \<subseteq> Z' \<Longrightarrow> same_outside Z' h h'"
  by (auto simp: same_outside_def)

lemma same_outside_put64: "{a..<a + 8} \<subseteq> Z \<Longrightarrow> same_outside Z h h1 \<Longrightarrow> same_outside Z h (put64 a v h1)"
  by (auto simp: same_outside_def put64_def store64_def subset_eq)

lemma same_outside_free_list [simp]:
  "same_outside Z h (h1\<lparr>h_free_list := x\<rparr>) = same_outside Z h h1"
  by (simp add: same_outside_def)

lemma same_outside_wv: "same_outside Z h h' \<Longrightarrow> {x..<x + 8} \<inter> Z = {} \<Longrightarrow> wv h' x = wv h x"
  by (auto simp: wv_def same_outside_def disjoint_iff intro!: load64_cong)

section \<open>Doubly linked lists\<close>

fun dseg :: "(nat \<Rightarrow> nat) \<Rightarrow> nat \<Rightarrow> nat list \<Rightarrow> nat \<Rightarrow> nat \<Rightarrow> nat \<Rightarrow> bool" where
  "dseg w p [] x q y \<longleftrightarrow> x = y \<and> p = q"
| "dseg w p (b # bs) x q y \<longleftrightarrow> x = b \<and> w (b + 24) = p \<and> dseg w b bs (w (b + 16)) q y"

definition dlist :: "(nat \<Rightarrow> nat) \<Rightarrow> nat list \<Rightarrow> nat \<Rightarrow> bool" where
  "dlist w fl x \<longleftrightarrow> (\<exists>q. dseg w 0 fl x q 0)"

lemma dseg_append:
  "dseg w p (xs @ ys) x q y \<longleftrightarrow> (\<exists>q' y'. dseg w p xs x q' y' \<and> dseg w q' ys y' q y)"
  by (induction xs arbitrary: p x) auto

lemma dseg_cong:
  "(\<And>b. b \<in> set bs \<Longrightarrow> w (b + 16) = w' (b + 16) \<and> w (b + 24) = w' (b + 24)) \<Longrightarrow>
   dseg w p bs x q y = dseg w' p bs x q y"
  by (induction bs arbitrary: p x) auto

lemma dlist_cong:
  "(\<And>b. b \<in> set bs \<Longrightarrow> w (b + 16) = w' (b + 16) \<and> w (b + 24) = w' (b + 24)) \<Longrightarrow> dlist w bs x = dlist w' bs x"
  unfolding dlist_def by (simp cong: dseg_cong)

lemma dseg_last: "dseg w p xs x q y \<Longrightarrow> q = (if xs = [] then p else last xs)"
  by (induction xs arbitrary: p x) auto

text \<open>Headers are at least 32 bytes apart.\<close>

definition sep :: "nat set \<Rightarrow> bool" where
  "sep S \<longleftrightarrow> (\<forall>a \<in> S. \<forall>b \<in> S. a \<noteq> b \<longrightarrow> a + 32 \<le> b \<or> b + 32 \<le> a)"

lemma sepD: "sep S \<Longrightarrow> a \<in> S \<Longrightarrow> b \<in> S \<Longrightarrow> a \<noteq> b \<Longrightarrow>
    a + 16 \<noteq> b + 16 \<and> a + 16 \<noteq> b + 24 \<and> a + 24 \<noteq> b + 16 \<and> a + 24 \<noteq> b + 24"
proof -
  assume "sep S" "a \<in> S" "b \<in> S" "a \<noteq> b"
  then have "a + 32 \<le> b \<or> b + 32 \<le> a" unfolding sep_def by blast
  then show ?thesis by auto
qed

lemma sep_mono: "sep S \<Longrightarrow> T \<subseteq> S \<Longrightarrow> sep T"
  by (auto simp: sep_def)

text \<open>Insertion at the head, and unlinking, as updates of words.\<close>

lemma dlist_push:
  assumes "dlist w fl x" "sep (insert b (set fl))" "b \<notin> set fl" "distinct fl" "0 \<notin> set fl"
  shows "dlist (if x \<noteq> 0 then w(b + 24 := 0, b + 16 := x, x + 24 := b) else w(b + 24 := 0, b + 16 := x)) (b # fl) b"
proof (cases fl)
  case Nil
  with assms show ?thesis by (auto simp: dlist_def)
next
  case (Cons c cs)
  with assms(1) have x: "x = c" and seg: "\<exists>q. dseg w c cs (w (c + 16)) q 0" by (auto simp: dlist_def)
  have nb: "b \<noteq> c" using assms(3) Cons by auto
  let ?w = "w(b + 24 := 0, b + 16 := c, c + 24 := b)"
  have same: "?w (a + 16) = w (a + 16) \<and> ?w (a + 24) = w (a + 24)" if "a \<in> set cs" for a
    using that assms(3,4) Cons sepD [OF assms(2), of a b] sepD [OF assms(2), of a c] by auto
  have c: "?w (c + 16) = w (c + 16)" "?w (c + 24) = b" "?w (b + 24) = 0" "?w (b + 16) = c"
    using nb sepD [OF assms(2), of b c] Cons by auto
  have "\<exists>q. dseg ?w c cs (?w (c + 16)) q 0"
    unfolding c(1) using seg dseg_cong [OF same, of cs] by (metis (no_types, lifting))
  then show ?thesis using c Cons x assms(5) by (auto simp: dlist_def)
qed

text \<open>The three stages of unlinking \<open>b\<close> with neighbours \<open>p\<close> and \<open>n\<close>.\<close>

definition unlinked :: "nat \<Rightarrow> nat \<Rightarrow> nat \<Rightarrow> (nat \<Rightarrow> nat) \<Rightarrow> nat \<Rightarrow> nat" where
  "unlinked b p n w =
     (let w = (if p \<noteq> 0 then w(p + 16 := n) else w);
          w = (if n \<noteq> 0 then w(n + 24 := p) else w)
      in w(b + 16 := 0, b + 24 := 0))"

lemma unlinked_other:
  "(p \<noteq> 0 \<Longrightarrow> x \<noteq> p + 16) \<Longrightarrow> (n \<noteq> 0 \<Longrightarrow> x \<noteq> n + 24) \<Longrightarrow> x \<noteq> b + 16 \<Longrightarrow> x \<noteq> b + 24 \<Longrightarrow>
   unlinked b p n w x = w x"
  by (auto simp: unlinked_def Let_def)

lemma dlist_neighbours:
  assumes "dlist w (xs @ b # ys) x"
  shows "w (b + 24) = (if xs = [] then 0 else last xs)" "w (b + 16) = (if ys = [] then 0 else hd ys)"
    "xs = [] \<Longrightarrow> x = b"
proof -
  obtain q q' where h: "dseg w 0 xs x q' b" "w (b + 24) = q'" "dseg w b ys (w (b + 16)) q 0"
    using assms by (auto simp: dlist_def dseg_append)
  then show "w (b + 24) = (if xs = [] then 0 else last xs)" by (auto dest: dseg_last)
  show "w (b + 16) = (if ys = [] then 0 else hd ys)" using h(3) by (cases ys) auto
  show "xs = [] \<Longrightarrow> x = b" using h(1) by simp
qed

lemma dlist_unlink:
  assumes d: "dlist w (xs @ b # ys) x" and sep: "sep (set (xs @ b # ys))" and dist: "distinct (xs @ b # ys)"
    and z: "0 \<notin> set (xs @ b # ys)"
  defines "p \<equiv> w (b + 24)" and "n \<equiv> w (b + 16)"
  shows "dlist (unlinked b p n w) (xs @ ys) (if p \<noteq> 0 then x else n)"
proof -
  let ?w = "unlinked b p n w"
  note nb = dlist_neighbours [OF d, folded p_def n_def]
  have pn: "p = 0 \<or> p \<in> set xs" "n = 0 \<or> n \<in> set ys" using nb by auto
  obtain q where h: "dseg w 0 xs x p b" "dseg w b ys n q 0"
    using d by (auto simp: dlist_def dseg_append p_def n_def)
  have apart: "a + 16 \<noteq> c + 16 \<and> a + 16 \<noteq> c + 24 \<and> a + 24 \<noteq> c + 16 \<and> a + 24 \<noteq> c + 24"
    if "a \<in> set xs \<union> set ys" "a \<noteq> c" "c = b \<or> c \<in> set xs \<union> set ys" for a c
    using that by (intro sepD [OF sep]) auto
  have ab: "a \<noteq> b" if "a \<in> set xs \<union> set ys" for a using that dist by auto
  have same16: "?w (a + 16) = w (a + 16)" if "a \<in> set xs \<union> set ys" "a \<noteq> p" for a
    using that pn apart [OF that(1), of b] apart [OF that(1), of p] apart [OF that(1), of n] ab [OF that(1)]
    by (intro unlinked_other) auto
  have same24: "?w (a + 24) = w (a + 24)" if "a \<in> set xs \<union> set ys" "a \<noteq> n" for a
    using that pn apart [OF that(1), of b] apart [OF that(1), of p] apart [OF that(1), of n] ab [OF that(1)]
    by (intro unlinked_other) auto
  have same: "?w (a + 16) = w (a + 16) \<and> ?w (a + 24) = w (a + 24)"
    if "a \<in> set xs \<union> set ys" "a \<noteq> p" "a \<noteq> n" for a
    using same16 same24 that by blast
  have tail: "\<exists>q. dseg ?w p ys n q 0"
  proof (cases ys)
    case Nil
    then show ?thesis using nb(2) by simp
  next
    case (Cons c cs)
    then have c: "n = c" "n \<noteq> 0" "c \<noteq> b" "p \<noteq> c" using nb z dist by (auto split: if_splits)
    have w: "?w (c + 24) = p" "?w (c + 16) = w (c + 16)"
      using c Cons apart [of c b] same16 [of c] by (auto simp: unlinked_def Let_def)
    have "dseg w c cs (w (c + 16)) q 0" using h(2) Cons c by simp
    moreover have "dseg ?w c cs (w (c + 16)) q 0 = dseg w c cs (w (c + 16)) q 0"
      using Cons dist c pn(1) z by (intro dseg_cong same) auto
    ultimately show ?thesis using Cons c w by auto
  qed
  have head: "dseg ?w 0 xs (if p \<noteq> 0 then x else n) p n"
  proof (cases xs rule: rev_cases)
    case Nil
    then show ?thesis using nb(1) by simp
  next
    case (snoc as a)
    then have a: "p = a" "a \<noteq> 0" "a \<noteq> b" "n \<noteq> a" using nb z dist by (auto split: if_splits dest: hd_in_set)
    have w: "?w (a + 16) = n" "?w (a + 24) = w (a + 24)"
      using a snoc apart [of a b] apart [of a n] same24 [of a] pn(2) by (auto simp: unlinked_def Let_def)
    from h(1) snoc obtain r where "dseg w 0 as x r a" "w (a + 24) = r" by (auto simp: dseg_append)
    moreover have "dseg ?w 0 as x r a = dseg w 0 as x r a"
      using snoc dist a pn(2) z by (intro dseg_cong same) auto
    ultimately show ?thesis using snoc a w by (auto simp: dseg_append)
  qed
  show ?thesis unfolding dlist_def dseg_append using head tail by blast
qed

section \<open>The free-list operations on words\<close>

lemma fl_insert_fields [simp]:
  "h_base (fl_insert b h) = h_base h" "h_limit (fl_insert b h) = h_limit h" "h_brk (fl_insert b h) = h_brk h"
  "h_free_list (fl_insert b h) = b" "h_env (fl_insert b h) = h_env h"
  by (simp_all add: fl_insert_def Let_def set_fields)

lemma wv_fl_insert:
  assumes "8 dvd b" "8 dvd h_free_list h" "b < 2 ^ 64" "h_free_list h < 2 ^ 64"
  shows "wv (fl_insert b h) =
    (if h_free_list h \<noteq> 0
     then (wv h)(b + 24 := 0, b + 16 := h_free_list h, h_free_list h + 24 := b)
     else (wv h)(b + 24 := 0, b + 16 := h_free_list h))"
  using assms by (simp add: fl_insert_def Let_def set_fields wv_put64)

lemma fl_remove_fields [simp]:
  "h_base (fl_remove b h) = h_base h" "h_limit (fl_remove b h) = h_limit h" "h_brk (fl_remove b h) = h_brk h"
  "h_env (fl_remove b h) = h_env h"
  by (simp_all add: fl_remove_def Let_def set_fields)

lemma fl_remove_eq:
  assumes "8 dvd b" and p: "wv h (b + 24) = p" "8 dvd p" "p \<noteq> b" "p \<noteq> b + 8" and n: "wv h (b + 16) = n" "8 dvd n" "n \<noteq> b"
  defines "h1 \<equiv> (if p \<noteq> 0 then set_next p n h else h\<lparr>h_free_list := n\<rparr>)"
  shows "fl_remove b h = set_prev b 0 (set_next b 0 (if n \<noteq> 0 then set_prev n p h1 else h1))"
    and "wv h1 = (if p \<noteq> 0 then (wv h)(p + 16 := n) else wv h)"
proof -
  have l: "n < 2 ^ 64" using wv_less [of h "b + 16"] n by simp
  show w1: "wv h1 = (if p \<noteq> 0 then (wv h)(p + 16 := n) else wv h)"
    using l p(2) by (simp add: h1_def set_fields wv_put64)
  have r0: "b_next h b = n" "b_prev h b = p" using assms(1) p n by (simp_all add: b_fields)
  have r1: "b_next h1 b = n" "b_prev h1 b = p" using assms(1) p n by (auto simp: b_fields w1)
  show "fl_remove b h = set_prev b 0 (set_next b 0 (if n \<noteq> 0 then set_prev n p h1 else h1))"
    unfolding fl_remove_def Let_def r0 h1_def [symmetric] r1 by (rule refl)
qed

lemma wv_fl_remove:
  assumes "8 dvd b" and p: "wv h (b + 24) = p" "8 dvd p" "p \<noteq> b" "p \<noteq> b + 8" and n: "wv h (b + 16) = n" "8 dvd n" "n \<noteq> b"
  shows "wv (fl_remove b h) = unlinked b p n (wv h)"
    and "h_free_list (fl_remove b h) = (if p \<noteq> 0 then h_free_list h else n)"
proof -
  note e = fl_remove_eq [OF assms]
  have l: "p < 2 ^ 64" "n < 2 ^ 64" using wv_less [of h "b + 24"] wv_less [of h "b + 16"] p n by simp_all
  define h1 where "h1 = (if p \<noteq> 0 then set_next p n h else h\<lparr>h_free_list := n\<rparr>)"
  define h2 where "h2 = (if n \<noteq> 0 then set_prev n p h1 else h1)"
  have w2: "wv h2 = (if n \<noteq> 0 then (wv h1)(n + 24 := p) else wv h1)"
    using l n(2) by (simp add: h2_def set_fields wv_put64)
  show "wv (fl_remove b h) = unlinked b p n (wv h)"
    unfolding e(1) h1_def [symmetric] h2_def [symmetric]
    using assms(1) e(2) by (simp add: set_fields wv_put64 unlinked_def Let_def w2 h1_def)
  show "h_free_list (fl_remove b h) = (if p \<noteq> 0 then h_free_list h else n)"
    unfolding e(1) by (simp add: set_fields)
qed

lemma wv_set_footer:
  assumes "8 dvd b" "wv h (b + 8) = s" "8 dvd s" "16 \<le> s" "b + s < 2 ^ 64" "b + 8 \<noteq> b + s - 16"
  shows "wv (set_footer b h) = (wv h)(b + s - 16 := wv h b, b + s - 8 := s)"
proof -
  have f: "block_footer b h = b + s - 16"
    using assms by (simp add: block_footer_def b_fields FOOTER_SIZE_def add64_id sub64_id)
  have d: "8 dvd b + s - 16" using assms(1,3,4) by (simp add: dvd_diff_nat)
  have "b + s - 16 + 8 = b + s - 8" using assms(4) by simp
  moreover have "8 dvd b + s - 8" using assms(1,3,4) by (simp add: dvd_diff_nat)
  ultimately show ?thesis
    using assms d by (simp add: set_footer_def f Let_def b_fields wv_put64)
qed

lemma set_footer_frame:
  assumes "8 dvd b" "wv h (b + 8) = s" "16 \<le> s" "b + s < 2 ^ 64" "{b + s - 16..<b + s} \<subseteq> Z" "same_outside Z h0 h"
  shows "same_outside Z h0 (set_footer b h)"
proof -
  have f: "block_footer b h = b + s - 16"
    using assms by (simp add: block_footer_def b_fields FOOTER_SIZE_def add64_id sub64_id)
  show ?thesis
    unfolding set_footer_def f Let_def
  proof (intro same_outside_put64 assms(6))
    show "{b + s - 16..<b + s - 16 + 8} \<subseteq> Z" "{b + s - 16 + 8..<b + s - 16 + 8 + 8} \<subseteq> Z"
      using assms(3,5) by (auto simp: subset_eq)
  qed
qed

lemma set_footer_fields [simp]:
  "h_base (set_footer b h) = h_base h" "h_limit (set_footer b h) = h_limit h" "h_brk (set_footer b h) = h_brk h"
  "h_free_list (set_footer b h) = h_free_list h" "h_env (set_footer b h) = h_env h"
  by (simp_all add: set_footer_def Let_def)

section \<open>The invariant\<close>

type_synonym blk = "nat \<times> nat \<times> bool"

text \<open>Blocks tile the addresses from \<open>a\<close> to \<open>e\<close>.\<close>

fun laid :: "nat \<Rightarrow> blk list \<Rightarrow> nat \<Rightarrow> bool" where
  "laid a [] e \<longleftrightarrow> a = e"
| "laid a ((x, s, u) # bs) e \<longleftrightarrow> x = a \<and> 64 \<le> s \<and> 16 dvd s \<and> laid (a + s) bs e"

fun blk_ok :: "(nat \<Rightarrow> nat) \<Rightarrow> blk \<Rightarrow> bool" where
  "blk_ok w (a, s, u) \<longleftrightarrow> w a = (if u then HEAP_MAGIC_USED else HEAP_MAGIC_FREE) \<and> w (a + 8) = s \<and>
     w (a + s - 8) = s \<and> (u \<longrightarrow> w (a + s - 16) \<noteq> HEAP_MAGIC_FREE)"

definition free_addrs :: "blk list \<Rightarrow> nat set" where
  "free_addrs B = {a. \<exists>s. (a, s, False) \<in> set B}"

text \<open>\<open>D\<close> is the set of free blocks that are (at the moment) not on the free list.\<close>

definition heap_inv0 :: "nat set \<Rightarrow> 'e heap_state \<Rightarrow> blk list \<Rightarrow> nat list \<Rightarrow> bool" where
  "heap_inv0 D h B fl \<longleftrightarrow>
     16 dvd h_base h \<and> 0 < h_base h \<and> h_base h + h_limit h < 2 ^ 64 \<and> h_brk h \<le> h_limit h \<and>
     laid (h_base h) B (h_base h + h_brk h) \<and> (\<forall>x \<in> set B. blk_ok (wv h) x) \<and>
     dlist (wv h) fl (h_free_list h) \<and> distinct fl \<and> set fl = free_addrs B - D"

abbreviation heap_inv :: "'e heap_state \<Rightarrow> blk list \<Rightarrow> nat list \<Rightarrow> bool" where
  "heap_inv \<equiv> heap_inv0 {}"

lemma laid_append: "laid a (xs @ ys) e \<longleftrightarrow> (\<exists>m. laid a xs m \<and> laid m ys e)"
  by (induction a xs e rule: laid.induct) auto

lemma laid_le: "laid a B e \<Longrightarrow> a \<le> e"
  by (induction a B e rule: laid.induct) auto

lemma laid_dvd: "laid a B e \<Longrightarrow> 16 dvd a \<Longrightarrow> 16 dvd e"
  by (induction a B e rule: laid.induct) auto

lemma laid_in:
  "laid a B e \<Longrightarrow> (x, s, u) \<in> set B \<Longrightarrow> 16 dvd a \<Longrightarrow> a \<le> x \<and> x + s \<le> e \<and> 64 \<le> s \<and> 16 dvd s \<and> 16 dvd x"
proof (induction a B e rule: laid.induct)
  case (2 a y t v bs e)
  show ?case
  proof (cases "(x, s, u) = (y, t, v)")
    case True
    with 2 laid_le [of "a + t" bs e] show ?thesis by auto
  next
    case False
    with 2 show ?thesis by auto
  qed
qed simp

lemma laid_disjoint:
  assumes "laid a B e" "(x, s, u) \<in> set B" "(y, t, v) \<in> set B" "16 dvd a" "(x, s, u) \<noteq> (y, t, v)"
  shows "x + s \<le> y \<or> y + t \<le> x"
  using assms
proof (induction a B e rule: laid.induct)
  case (2 a z r k bs e)
  then have tail: "laid (a + r) bs e" "16 dvd a + r" "z = a" by auto
  show ?case using 2 laid_in [OF tail(1) _ tail(2), of x s u] laid_in [OF tail(1) _ tail(2), of y t v] tail
    by auto
qed simp

lemma laid_same_addr:
  assumes "laid a B e" "(x, s, u) \<in> set B" "(x, t, v) \<in> set B" "16 dvd a"
  shows "s = t \<and> u = v"
  using laid_disjoint [OF assms] laid_in [OF assms(1,2,4)] laid_in [OF assms(1,3,4)] by auto

lemma laid_unique_mid:
  assumes "laid a (xs @ (x, s, u) # ys) e" "16 dvd a"
  shows "(x, t, v) \<notin> set (xs @ ys)"
proof
  assume i: "(x, t, v) \<in> set (xs @ ys)"
  obtain m where m: "laid a xs x" "laid (x + s) ys e" "64 \<le> s" using assms(1) by (auto simp: laid_append)
  have "16 dvd x + s"
    using laid_in [OF assms(1) _ assms(2), of x s u] by simp
  with i laid_in [OF m(1) _ assms(2), of x t v] laid_in [OF m(2), of x t v] m(3) show False by auto
qed

lemma inv_blk:
  assumes "heap_inv0 D h B fl" "(a, s, u) \<in> set B"
  shows "16 dvd a" "16 dvd s" "64 \<le> s" "h_base h \<le> a" "a + s \<le> h_base h + h_brk h" "a + s < 2 ^ 64" "0 < a"
    "8 dvd a" "blk_ok (wv h) (a, s, u)"
  using assms laid_in [of "h_base h" B "h_base h + h_brk h" a s u] by (auto simp: heap_inv0_def)

lemma inv_disjoint:
  assumes "heap_inv0 D h B fl" "(a, s, u) \<in> set B" "(c, t, v) \<in> set B" "a \<noteq> c"
  shows "a + s \<le> c \<or> c + t \<le> a"
  using assms laid_disjoint [of "h_base h" B "h_base h + h_brk h" a s u c t v] by (auto simp: heap_inv0_def)

lemma inv_free:
  assumes "heap_inv0 D h B fl" "c \<in> set fl"
  obtains t where "(c, t, False) \<in> set B"
  using assms by (auto simp: heap_inv0_def free_addrs_def)

lemma inv_fl:
  assumes inv: "heap_inv0 D h B fl"
  shows "sep (set fl)" "0 \<notin> set fl" "h_free_list h = 0 \<or> h_free_list h \<in> set fl"
    "8 dvd h_free_list h" "h_free_list h < 2 ^ 64"
    "c \<in> set fl \<Longrightarrow> 8 dvd c" "c \<in> set fl \<Longrightarrow> c < 2 ^ 64"
proof -
  show s: "sep (set fl)"
    unfolding sep_def
  proof (intro ballI impI)
    fix a b assume "a \<in> set fl" "b \<in> set fl" "a \<noteq> b"
    then obtain s t where "(a, s, False) \<in> set B" "(b, t, False) \<in> set B" using inv_free [OF inv] by metis
    with inv_disjoint [OF inv this \<open>a \<noteq> b\<close>] inv_blk(3) [OF inv] show "a + 32 \<le> b \<or> b + 32 \<le> a" by fastforce
  qed
  show z: "0 \<notin> set fl" using inv_blk(7) [OF inv] inv_free [OF inv] by (metis less_numeral_extra(3))
  have d: "8 dvd c \<and> c < 2 ^ 64" if "c \<in> set fl" for c
    using inv_free [OF inv that] inv_blk(6,8) [OF inv] by (metis add_lessD1)
  then show "c \<in> set fl \<Longrightarrow> 8 dvd c" "c \<in> set fl \<Longrightarrow> c < 2 ^ 64" by auto
  have "dlist (wv h) fl (h_free_list h)" using inv by (simp add: heap_inv0_def)
  then show f: "h_free_list h = 0 \<or> h_free_list h \<in> set fl" by (cases fl) (auto simp: dlist_def)
  with d show "8 dvd h_free_list h" "h_free_list h < 2 ^ 64" by auto
qed

text \<open>The link words of a set of blocks.\<close>

definition links :: "nat set \<Rightarrow> nat set" where
  "links S = {x. \<exists>c \<in> S. c + 16 \<le> x \<and> x < c + 32}"

lemma links_disjoint:
  assumes inv: "heap_inv0 D h B fl" and blk: "(a, s, u) \<in> set B" and sub: "S \<subseteq> fst ` set B"
    and x: "a \<le> x" "x + 8 \<le> a + s" "x + 8 \<le> a + 16 \<or> a + 32 \<le> x"
  shows "{x..<x + 8} \<inter> links S = {}"
proof -
  have "\<not> (c + 16 \<le> y \<and> y < c + 32 \<and> x \<le> y \<and> y < x + 8)" if c: "c \<in> S" for c y
  proof (cases "c = a")
    case False
    obtain t v where "(c, t, v) \<in> set B" using sub c by force
    with inv_disjoint [OF inv blk this] inv_blk(3) [OF inv this] False x show ?thesis by auto
  qed (use x in auto)
  then show ?thesis by (auto simp: links_def)
qed

text \<open>A block keeps its tags when only another part of the region and some link words change.\<close>

lemma tags_outside:
  assumes inv: "heap_inv0 D h B fl" and blk: "(a, s, u) \<in> set B" and sub: "S \<subseteq> fst ` set B"
    and same: "same_outside ({m..<e} \<union> links S) h1 h2" and out: "a + s \<le> m \<or> e \<le> a"
  shows "wv h2 a = wv h1 a" "wv h2 (a + 8) = wv h1 (a + 8)" "wv h2 (a + s - 8) = wv h1 (a + s - 8)"
    "wv h2 (a + s - 16) = wv h1 (a + s - 16)"
proof -
  have w: "wv h2 x = wv h1 x" if "a \<le> x" "x + 8 \<le> a + s" "x + 8 \<le> a + 16 \<or> a + 32 \<le> x" for x
    using that links_disjoint [OF inv blk sub that] out by (intro same_outside_wv [OF same]) auto
  show "wv h2 a = wv h1 a" "wv h2 (a + 8) = wv h1 (a + 8)" "wv h2 (a + s - 8) = wv h1 (a + s - 8)"
    "wv h2 (a + s - 16) = wv h1 (a + s - 16)"
    using inv_blk(3) [OF inv blk] by (auto intro!: w)
qed

lemma blk_ok_outside:
  assumes "heap_inv0 D h B fl" "(a, s, u) \<in> set B" "S \<subseteq> fst ` set B"
    and "same_outside ({m..<e} \<union> links S) h h'" "a + s \<le> m \<or> e \<le> a"
  shows "blk_ok (wv h') (a, s, u)"
  using inv_blk(9) [OF assms(1,2)] tags_outside [OF assms] by simp

lemma tags_links:
  assumes "heap_inv0 D h B fl" "(a, s, u) \<in> set B" "S \<subseteq> fst ` set B" "same_outside (links S) h1 h2"
  shows "wv h2 a = wv h1 a" "wv h2 (a + 8) = wv h1 (a + 8)" "wv h2 (a + s - 8) = wv h1 (a + s - 8)"
    "wv h2 (a + s - 16) = wv h1 (a + s - 16)"
  using tags_outside [OF assms(1-3), of 0 0 h1 h2] assms(4) by auto

text \<open>Replacing a run of blocks by another tiling of the same addresses.\<close>

lemma heap_inv0_replace:
  assumes inv: "heap_inv0 D h (xs @ mid @ ys) fl"
    and fields: "h_base h' = h_base h" "h_limit h' = h_limit h" "h_brk h' = h_brk h"
    and lay: "laid m mid e" "laid m mid' e" "mid \<noteq> []"
    and same: "same_outside ({m..<e} \<union> links S) h h'" and S: "S \<subseteq> fst ` set (xs @ mid @ ys)"
    and ok: "\<And>x. x \<in> set mid' \<Longrightarrow> blk_ok (wv h') x"
    and fl: "dlist (wv h') fl' (h_free_list h')" "distinct fl'" "set fl' = free_addrs (xs @ mid' @ ys) - D'"
  shows "heap_inv0 D' h' (xs @ mid' @ ys) fl'"
proof -
  have L: "16 dvd h_base h" "laid (h_base h) (xs @ mid @ ys) (h_base h + h_brk h)"
    using inv by (auto simp: heap_inv0_def)
  then obtain m' e' where m': "laid (h_base h) xs m'" "laid m' mid e'" "laid e' ys (h_base h + h_brk h)"
    by (auto simp: laid_append)
  obtain a s u bs where mid: "mid = (a, s, u) # bs" using lay(3) by (cases mid) auto
  then have "m' = m" using m'(2) lay(1) by simp
  moreover have "e' = e"
  proof -
    have "laid x B y \<Longrightarrow> laid x B z \<Longrightarrow> y = z" for x B y z by (induction x B y rule: laid.induct) auto
    then show ?thesis using m'(2) lay(1) \<open>m' = m\<close> by blast
  qed
  ultimately have parts: "laid (h_base h) xs m" "laid e ys (h_base h + h_brk h)" using m' by auto
  have "16 dvd m" using inv_blk(1) [OF inv, of a s u] lay(1) mid by simp
  moreover have "16 dvd e" using laid_dvd [OF lay(1)] \<open>16 dvd m\<close> by simp
  ultimately have dv: "16 dvd m" "16 dvd e" by auto
  have "blk_ok (wv h') x" if "x \<in> set (xs @ mid' @ ys)" for x
  proof -
    obtain c t v where x: "x = (c, t, v)" by (rule prod_cases3)
    have "c + t \<le> m" if "x \<in> set xs" using laid_in [OF parts(1) _ L(1), of c t v] that x by simp
    moreover have "e \<le> c" if "x \<in> set ys" using laid_in [OF parts(2) _ dv(2), of c t v] that x by simp
    ultimately show ?thesis
      using that ok blk_ok_outside [OF inv _ S same, of c t v] x by auto
  qed
  moreover have "laid (h_base h) (xs @ mid' @ ys) (h_base h + h_brk h)"
    using parts lay(2) by (auto simp: laid_append)
  ultimately show ?thesis using inv fields fl by (auto simp: heap_inv0_def)
qed

end
