(* ===== verification/Heap_Props.thy ===== *)
theory Heap_Props
  imports HeapInv
begin

text \<open>
  Every operation of the heap keeps the invariant: the steps of \<open>heap_free\<close> (marking, coalescing with
  the next and the previous block, insertion), splitting and taking a block, the search, and the
  retry loop of \<open>heap_alloc\<close>.
\<close>

section \<open>The steps of the operations\<close>

lemma same_outside_link:
  assumes "c \<in> S" "links S \<subseteq> Z" "same_outside Z h h1"
  shows "same_outside Z h (set_next c v h1)" "same_outside Z h (set_prev c v h1)"
proof -
  have "{c + 16..<c + 16 + 8} \<subseteq> Z" "{c + 24..<c + 24 + 8} \<subseteq> Z"
    using assms(1,2) by (force simp: links_def)+
  then show "same_outside Z h (set_next c v h1)" "same_outside Z h (set_prev c v h1)"
    using assms(3) by (simp_all add: set_next_def set_prev_def same_outside_put64)
qed

lemma fl_insert_frame:
  assumes "h_free_list h = 0 \<or> h_free_list h \<in> S" "b \<in> S" "links S \<subseteq> Z" "same_outside Z h0 h"
  shows "same_outside Z h0 (fl_insert b h)"
proof -
  have e: "fl_insert b h = (let h2 = set_next b (h_free_list h) (set_prev b 0 h)
      in (if h_free_list h \<noteq> 0 then set_prev (h_free_list h) b h2 else h2)\<lparr>h_free_list := b\<rparr>)"
    by (simp add: fl_insert_def Let_def set_fields)
  have m: "h_free_list h \<noteq> 0 \<Longrightarrow> h_free_list h \<in> S" using assms(1) by auto
  show ?thesis
    unfolding e Let_def same_outside_free_list
    using m assms(2-4) by (auto intro!: same_outside_link [of _ S])
qed

lemma fl_insert_effect:
  assumes inv: "heap_inv0 D h B fl" and b: "(b, s, u) \<in> set B" "b \<notin> set fl"
  shows "dlist (wv (fl_insert b h)) (b # fl) b" "same_outside (links (insert b (set fl))) h (fl_insert b h)"
proof -
  have f: "\<exists>s u. (c, s, u) \<in> set B" if "c \<in> insert b (set fl)" for c
    using inv_free [OF inv, of c] b(1) that by blast
  have sep: "sep (insert b (set fl))"
    unfolding sep_def
  proof (intro ballI impI)
    fix x y assume xy: "x \<in> insert b (set fl)" "y \<in> insert b (set fl)" "x \<noteq> y"
    obtain s1 u1 s2 u2 where B: "(x, s1, u1) \<in> set B" "(y, s2, u2) \<in> set B"
      using f [OF xy(1)] f [OF xy(2)] by blast
    show "x + 32 \<le> y \<or> y + 32 \<le> x"
      using inv_disjoint [OF inv B xy(3)] inv_blk(3) [OF inv B(1)] inv_blk(3) [OF inv B(2)] by auto
  qed
  have d: "dlist (wv h) fl (h_free_list h)" "distinct fl" using inv by (auto simp: heap_inv0_def)
  have b64: "b < 2 ^ 64" using inv_blk(6) [OF inv b(1)] by simp
  show "dlist (wv (fl_insert b h)) (b # fl) b"
    unfolding wv_fl_insert [OF inv_blk(8) [OF inv b(1)] inv_fl(4) [OF inv] b64 inv_fl(5) [OF inv]]
    by (rule dlist_push [OF d(1) sep b(2) d(2) inv_fl(2) [OF inv]])
  show "same_outside (links (insert b (set fl))) h (fl_insert b h)"
    using inv_fl(3) [OF inv] by (intro fl_insert_frame [of _ "insert b (set fl)"]) auto
qed

lemma fl_remove_effect:
  assumes inv: "heap_inv0 D h B fl" and fl: "fl = us @ c # vs"
  shows "dlist (wv (fl_remove c h)) (us @ vs) (h_free_list (fl_remove c h))"
    "same_outside (links (set fl)) h (fl_remove c h)"
proof -
  define p where "p = wv h (c + 24)"
  define n where "n = wv h (c + 16)"
  have d: "dlist (wv h) (us @ c # vs) (h_free_list h)" "distinct (us @ c # vs)"
    using inv by (auto simp: heap_inv0_def fl)
  note nb = dlist_neighbours [OF d(1), folded p_def n_def]
  have pn: "p = 0 \<or> p \<in> set us" "n = 0 \<or> n \<in> set vs" using nb by auto
  have c: "8 dvd c" "0 < c" "c \<in> set fl" using inv_fl(2) [OF inv] inv_fl(6) [OF inv, of c] by (auto simp: fl)
  have p: "8 dvd p" "p \<noteq> c"
    using pn(1) inv_fl(6) [OF inv, of p] d(2) c by (auto simp: fl)
  have p8: "p \<noteq> c + 8"
  proof (cases "p = 0")
    case False
    with pn(1) have "p \<in> set fl" by (simp add: fl)
    with sepD [OF inv_fl(1) [OF inv], of p c] p(2) c(3) show ?thesis by auto
  qed simp
  have n: "8 dvd n" "n \<noteq> c" using pn(2) inv_fl(6) [OF inv, of n] d(2) c by (auto simp: fl)
  note r = wv_fl_remove [OF c(1) p_def [symmetric] p p8 n_def [symmetric] n]
  show "dlist (wv (fl_remove c h)) (us @ vs) (h_free_list (fl_remove c h))"
    unfolding r p_def n_def
    using dlist_unlink [OF d(1) _ d(2)] inv_fl(1,2) [OF inv] by (simp add: fl)
  have "p \<noteq> 0 \<Longrightarrow> p \<in> set fl" "n \<noteq> 0 \<Longrightarrow> n \<in> set fl" using pn by (auto simp: fl)
  then show "same_outside (links (set fl)) h (fl_remove c h)"
    unfolding fl_remove_eq(1) [OF c(1) p_def [symmetric] p p8 n_def [symmetric] n]
    using c(3) by (auto intro!: same_outside_link [of _ "set fl"])
qed

lemma set_magic_free_inv:
  assumes inv: "heap_inv h (xs @ (b, s, True) # ys) fl"
  shows "heap_inv0 {b} (set_magic b HEAP_MAGIC_FREE h) (xs @ (b, s, False) # ys) fl"
proof -
  let ?h = "set_magic b HEAP_MAGIC_FREE h"
  note b = inv_blk [OF inv, of b s True, simplified]
  have w: "wv ?h = (wv h)(b := HEAP_MAGIC_FREE)" using b by (simp add: set_magic_def wv_put64)
  have fa: "free_addrs (xs @ [(b, s, False)] @ ys) - {b} = set fl"
  proof -
    have "(b, t, False) \<notin> set xs \<union> set ys" for t
      using laid_same_addr [of "h_base h" "xs @ (b, s, True) # ys" "h_base h + h_brk h" b s True t False] inv
      by (auto simp: heap_inv0_def)
    then show ?thesis using inv by (auto simp: heap_inv0_def free_addrs_def)
  qed
  have other: "b \<noteq> c + 16 \<and> b \<noteq> c + 24" if "c \<in> set fl" for c
  proof -
    obtain t where t: "(c, t, False) \<in> set (xs @ (b, s, True) # ys)" using inv_free [OF inv \<open>c \<in> set fl\<close>] by metis
    show ?thesis using inv_disjoint [OF inv t, of b s True] inv_blk(3) [OF inv t] b(3) by (cases "c = b") auto
  qed
  have "heap_inv0 {b} ?h (xs @ [(b, s, False)] @ ys) fl"
  proof (rule heap_inv0_replace [where mid = "[(b, s, True)]" and S = "{}" and m = b and e = "b + s"])
    show "heap_inv h (xs @ [(b, s, True)] @ ys) fl" using inv by simp
    show "same_outside ({b..<b + s} \<union> links {}) h ?h"
      using b by (auto simp: set_magic_def intro!: same_outside_put64)
    have "dlist (wv h) fl (h_free_list h)" using inv by (simp add: heap_inv0_def)
    moreover have "dlist (wv ?h) fl (h_free_list h) = dlist (wv h) fl (h_free_list h)"
      using other by (intro dlist_cong) (auto simp: w)
    ultimately show "dlist (wv ?h) fl (h_free_list ?h)" by (simp add: set_magic_def)
    show "blk_ok (wv ?h) x" if "x \<in> set [(b, s, False)]" for x using that b by (auto simp: w)
  qed (use b fa inv in \<open>auto simp: set_magic_def heap_inv0_def\<close>)
  then show ?thesis by simp
qed

lemma inv_fl_sub: "heap_inv0 D h B fl \<Longrightarrow> set fl \<subseteq> fst ` set B"
  using inv_free by (metis fst_conv image_eqI subsetI)

lemma fl_insert_inv:
  assumes inv: "heap_inv0 {b} h B fl" and b: "(b, s, False) \<in> set B"
  shows "heap_inv (fl_insert b h) B (b # fl)"
proof -
  have nb: "b \<notin> set fl" using inv by (simp add: heap_inv0_def)
  note e = fl_insert_effect [OF inv b nb]
  have sub: "insert b (set fl) \<subseteq> fst ` set B" using inv_fl_sub [OF inv] b by force
  have "blk_ok (wv (fl_insert b h)) x" if "x \<in> set B" for x
  proof -
    obtain c t v where x: "x = (c, t, v)" by (rule prod_cases3)
    with tags_links [OF inv _ sub e(2), of c t v] inv_blk(9) [OF inv, of c t v] that show ?thesis by simp
  qed
  moreover have "set (b # fl) = free_addrs B" using inv b by (auto simp: heap_inv0_def free_addrs_def)
  ultimately show ?thesis using inv e(1) nb by (simp add: heap_inv0_def)
qed

lemma coalesce_next_none:
  assumes inv: "heap_inv0 {b} h (xs @ (b, s, False) # ys) fl"
    and ys: "ys = [] \<or> (\<exists>c t zs. ys = (c, t, True) # zs)"
  shows "coalesce_next b h = h"
proof -
  note b = inv_blk [OF inv, of b s False, simplified]
  have sz: "b_size h b = s" using b by (simp add: b_fields)
  obtain m where lay: "laid (b + s) ys (h_base h + h_brk h)"
    using inv by (auto simp: heap_inv0_def laid_append)
  have add: "add64 b s = b + s" using b(6) by (simp add: add64_id)
  have lim: "add64 (h_base h) (h_brk h) = h_base h + h_brk h"
    using inv by (auto simp: heap_inv0_def add64_id)
  show ?thesis
  proof (cases ys)
    case Nil
    with lay show ?thesis by (simp add: coalesce_next_def Let_def sz add lim)
  next
    case (Cons y zs)
    with ys lay obtain t where y: "y = (b + s, t, True)" by auto
    with inv_blk [OF inv, of "b + s" t True] Cons have "b_magic h (b + s) = HEAP_MAGIC_USED"
      by (simp add: b_fields)
    then show ?thesis by (simp add: coalesce_next_def Let_def sz add)
  qed
qed

lemma coalesce_next_some:
  assumes inv: "heap_inv0 {b} h (xs @ (b, s, False) # (c, t, False) # ys) fl"
  shows "heap_inv0 {b} (coalesce_next b h) (xs @ (b, s + t, False) # ys) (remove1 c fl)"
    and "same_outside ({b..<b + s + t} \<union> links (set fl)) h (coalesce_next b h)"
proof -
  let ?B = "xs @ [(b, s, False), (c, t, False)] @ ys"
  have inv': "heap_inv0 {b} h ?B fl" using inv by simp
  note b = inv_blk [OF inv', of b s False, simplified] and c = inv_blk [OF inv', of c t False, simplified]
  have lay: "c = b + s" using inv by (auto simp: heap_inv0_def laid_append)
  have cb: "c \<noteq> b" using lay b(3) by simp
  have cfl: "c \<in> set fl" using inv' cb by (auto simp: heap_inv0_def free_addrs_def)
  then obtain us vs where fl: "fl = us @ c # vs" by (auto dest: split_list)
  have dist: "distinct fl" "set fl = free_addrs ?B - {b}" using inv' by (auto simp: heap_inv0_def)
  note r = fl_remove_effect [OF inv' fl]
  let ?h1 = "fl_remove c h"
  let ?h2 = "set_size b (s + t) ?h1"
  note sub = inv_fl_sub [OF inv']
  have tb: "wv ?h1 b = HEAP_MAGIC_FREE" "wv ?h1 (b + 8) = s" and tc: "wv ?h1 (c + 8) = t" "wv ?h1 c = HEAP_MAGIC_FREE"
    using tags_links [OF inv' _ sub r(2), of b s False] tags_links [OF inv' _ sub r(2), of c t False] b(9) c(9) by simp_all
  have lim: "add64 (h_base h) (h_brk h) = h_base h + h_brk h" using inv' by (auto simp: heap_inv0_def add64_id)
  have lt: "b + s < h_base h + h_brk h" using c lay by simp
  have big: "b + (s + t) < 2 ^ 64" using c(6) lay by simp
  have eq: "coalesce_next b h = set_footer b ?h2"
    using b c lt big lay tb tc
    by (simp add: coalesce_next_def Let_def b_fields add64_id lim)
  have w2: "wv ?h2 = (wv ?h1)(b + 8 := s + t)" using b big by (simp add: set_size_def wv_put64)
  have w: "wv (coalesce_next b h) = (wv ?h1)(b + 8 := s + t, b + (s + t) - 16 := HEAP_MAGIC_FREE, b + (s + t) - 8 := s + t)"
    unfolding eq using b c big tb by (subst wv_set_footer [where s = "s + t"]) (auto simp: w2)
  show out: "same_outside ({b..<b + s + t} \<union> links (set fl)) h (coalesce_next b h)"
    unfolding eq
  proof (rule set_footer_frame [where s = "s + t"])
    show "same_outside ({b..<b + s + t} \<union> links (set fl)) h ?h2"
      unfolding set_size_def using b(3) same_outside_mono [OF r(2)] by (intro same_outside_put64) auto
  qed (use b c big in \<open>auto simp: w2\<close>)
  have fa: "set (remove1 c fl) = free_addrs (xs @ [(b, s + t, False)] @ ys) - {b}"
  proof -
    have "(c, r, u) \<notin> set (xs @ ys)" for r u
      using laid_unique_mid [of "h_base h" "xs @ [(b, s, False)]" c t False ys "h_base h + h_brk h" r u] inv'
      by (auto simp: heap_inv0_def)
    then show ?thesis using dist by (auto simp: free_addrs_def)
  qed
  have "heap_inv0 {b} (coalesce_next b h) (xs @ [(b, s + t, False)] @ ys) (remove1 c fl)"
  proof (rule heap_inv0_replace [OF inv', where m = b and e = "b + s + t" and S = "set fl"])
    show "dlist (wv (coalesce_next b h)) (remove1 c fl) (h_free_list (coalesce_next b h))"
    proof -
      have rm: "remove1 c fl = us @ vs" using dist(1) by (simp add: fl remove1_append)
      have "dlist (wv (coalesce_next b h)) (us @ vs) (h_free_list ?h1) = dlist (wv ?h1) (us @ vs) (h_free_list ?h1)"
      proof (rule dlist_cong)
        fix a assume a: "a \<in> set (us @ vs)"
        then have "a \<in> set fl" "a \<noteq> b" "a \<noteq> c" using dist by (auto simp: fl)
        then obtain r where r: "(a, r, False) \<in> set ?B" using inv_free [OF inv'] by metis
        have "a + 64 \<le> b \<or> b + s + t \<le> a"
          using inv_disjoint [OF inv' r, of b s False] inv_disjoint [OF inv' r, of c t False] \<open>a \<noteq> b\<close> \<open>a \<noteq> c\<close>
            inv_blk(3) [OF inv' r] lay by auto
        then show "wv (coalesce_next b h) (a + 16) = wv ?h1 (a + 16) \<and> wv (coalesce_next b h) (a + 24) = wv ?h1 (a + 24)"
          using b(3) c(3) by (auto simp: w)
      qed
      then show ?thesis using r(1) rm by (simp add: eq set_size_def)
    qed
    show "h_base (coalesce_next b h) = h_base h" "h_limit (coalesce_next b h) = h_limit h"
      "h_brk (coalesce_next b h) = h_brk h"
      by (simp_all add: eq set_size_def)
    show "laid b [(b, s, False), (c, t, False)] (b + s + t)" "laid b [(b, s + t, False)] (b + s + t)"
      using b(2,3) c(2,3) lay by auto
    show "same_outside ({b..<b + s + t} \<union> links (set fl)) h (coalesce_next b h)" by (rule out)
    show "set fl \<subseteq> fst ` set (xs @ [(b, s, False), (c, t, False)] @ ys)" by (rule sub)
    show "blk_ok (wv (coalesce_next b h)) x" if "x \<in> set [(b, s + t, False)]" for x
      using that b(3) tb(1) by (auto simp: w)
    show "distinct (remove1 c fl)" using dist(1) by simp
    show "set (remove1 c fl) = free_addrs (xs @ [(b, s + t, False)] @ ys) - {b}" by (rule fa)
  qed simp
  then show "heap_inv0 {b} (coalesce_next b h) (xs @ (b, s + t, False) # ys) (remove1 c fl)" by simp
qed

lemma coalesce_prev_none:
  assumes inv: "heap_inv0 {b} h (xs @ (b, s, False) # ys) fl"
    and "xs = [] \<or> wv h (b - 16) \<noteq> HEAP_MAGIC_FREE"
  shows "coalesce_prev b h = (False, h)"
proof -
  note b = inv_blk [OF inv, of b s False, simplified]
  show ?thesis
  proof (cases "b > h_base h")
    case True
    then have "xs \<noteq> []" using inv by (auto simp: heap_inv0_def)
    moreover have "16 \<le> b" using b(1,7) by (simp add: dvd_imp_le)
    then have "wv h (b - 16) = load64 (h_mem h) (b - 16)" using b(1) by (simp add: wv_def dvd_diff_nat)
    ultimately show ?thesis using assms(2) by (simp add: coalesce_prev_def FOOTER_SIZE_def)
  qed (simp add: coalesce_prev_def)
qed

lemma coalesce_prev_merge:
  assumes inv: "heap_inv0 {b} h (zs @ (a, t, u) # (b, s, False) # ys) fl"
    and ft: "wv h (b - 16) = HEAP_MAGIC_FREE"
  shows "\<not> u" "fst (coalesce_prev b h)" "heap_inv (snd (coalesce_prev b h)) (zs @ (a, t + s, False) # ys) fl"
    and "same_outside ({a..<a + t + s}) h (snd (coalesce_prev b h))"
proof -
  let ?B = "zs @ [(a, t, u), (b, s, False)] @ ys"
  have inv': "heap_inv0 {b} h ?B fl" using inv by simp
  note a = inv_blk [OF inv', of a t u, simplified] and b = inv_blk [OF inv', of b s False, simplified]
  have lay: "b = a + t" using inv by (auto simp: heap_inv0_def laid_append)
  show u: "\<not> u" using a(9) ft by (auto simp: lay)
  have gt: "h_base h < b" "16 \<le> b" using a lay by auto
  have ld: "wv h (b - 16) = load64 (h_mem h) (b - 16)" "wv h (b - 8) = load64 (h_mem h) (b - 8)"
    using b(1) gt(2) by (simp_all add: wv_def dvd_diff_nat)
  have m: "b - 16 + 8 = b - 8" using gt(2) by simp
  let ?h1 = "set_size a (t + s) h"
  have big: "a + (t + s) < 2 ^ 64" using b(6) lay by simp
  have sz: "wv h (b - 8) = t" "wv h (a + 8) = t" "wv h (b + 8) = s" using a(9) b(9) by (auto simp: lay)
  have pv: "sub64 b t = a" using lay b(6) by (simp add: sub64_id)
  have bs: "b_size h a = t" "b_size h b = s" using a(8) b(8) sz by (simp_all add: b_fields)
  have "load64 (h_mem h) (b - FOOTER_SIZE) = HEAP_MAGIC_FREE" "load64 (h_mem h) (b - FOOTER_SIZE + 8) = t"
    using ft ld sz(1) m by (simp_all add: FOOTER_SIZE_def)
  then have eq: "coalesce_prev b h = (True, set_footer a ?h1)"
    using gt(1) big by (simp add: coalesce_prev_def Let_def pv bs add64_id)
  then show "fst (coalesce_prev b h)" by simp
  have w1: "wv ?h1 = (wv h)(a + 8 := t + s)" using a big by (simp add: set_size_def wv_put64)
  have w: "wv (set_footer a ?h1) = (wv h)(a + 8 := t + s, a + (t + s) - 16 := wv h a, a + (t + s) - 8 := t + s)"
    using a b big by (subst wv_set_footer [where s = "t + s"]) (auto simp: w1)
  have out: "same_outside {a..<a + t + s} h (set_footer a ?h1)"
  proof (rule set_footer_frame [where s = "t + s"])
    show "same_outside {a..<a + t + s} h ?h1"
      unfolding set_size_def using a(3) by (intro same_outside_put64) auto
  qed (use a b big in \<open>auto simp: w1\<close>)
  then show "same_outside ({a..<a + t + s}) h (snd (coalesce_prev b h))" by (simp add: eq)
  have dist: "distinct fl" "set fl = free_addrs ?B - {b}" "dlist (wv h) fl (h_free_list h)"
    using inv' by (auto simp: heap_inv0_def)
  have fa: "set fl = free_addrs (zs @ [(a, t + s, False)] @ ys) - {}"
  proof -
    have "(b, r, v) \<notin> set (zs @ ys)" for r v
      using laid_unique_mid [of "h_base h" "zs @ [(a, t, u)]" b s False ys "h_base h + h_brk h" r v] inv'
      by (auto simp: heap_inv0_def)
    then show ?thesis using dist(2) u lay a(3) by (auto simp: free_addrs_def)
  qed
  have "heap_inv (set_footer a ?h1) (zs @ [(a, t + s, False)] @ ys) fl"
  proof (rule heap_inv0_replace [OF inv', where m = a and e = "a + t + s" and S = "{}"])
    show "dlist (wv (set_footer a ?h1)) fl (h_free_list (set_footer a ?h1))"
    proof -
      have "dlist (wv (set_footer a ?h1)) fl (h_free_list h) = dlist (wv h) fl (h_free_list h)"
      proof (rule dlist_cong)
        fix x assume "x \<in> set fl"
        then obtain r where r: "(x, r, False) \<in> set ?B" "x \<noteq> b" using inv_free [OF inv'] dist(2) by blast
        have "x = a \<or> x + 64 \<le> a \<or> a + t + s \<le> x"
          using inv_disjoint [OF inv' r(1), of b s False] inv_disjoint [OF inv' r(1), of a t u] r(2)
            inv_blk(3) [OF inv' r(1)] lay by auto
        then show "wv (set_footer a ?h1) (x + 16) = wv h (x + 16) \<and> wv (set_footer a ?h1) (x + 24) = wv h (x + 24)"
          using a(3) b(3) by (auto simp: w)
      qed
      then show ?thesis using dist(3) by (simp add: set_size_def)
    qed
    show "h_base (set_footer a ?h1) = h_base h" "h_limit (set_footer a ?h1) = h_limit h"
      "h_brk (set_footer a ?h1) = h_brk h"
      by (simp_all add: set_size_def)
    show "laid a [(a, t, u), (b, s, False)] (a + t + s)" "laid a [(a, t + s, False)] (a + t + s)"
      using a(2,3) b(2,3) lay by auto
    show "same_outside ({a..<a + t + s} \<union> links {}) h (set_footer a ?h1)" using out by (simp add: links_def)
    show "blk_ok (wv (set_footer a ?h1)) x" if "x \<in> set [(a, t + s, False)]" for x
      using that a(3,9) u by (auto simp: w)
    show "set fl = free_addrs (zs @ [(a, t + s, False)] @ ys) - {}" by (rule fa)
  qed (use dist in simp_all)
  then show "heap_inv (snd (coalesce_prev b h)) (zs @ (a, t + s, False) # ys) fl" by (simp add: eq)
qed

section \<open>Release\<close>

definition used :: "blk list \<Rightarrow> (nat \<times> nat) set" where
  "used B = {(a, s). (a, s, True) \<in> set B}"

text \<open>The bytes of the free blocks.\<close>

definition farea :: "blk list \<Rightarrow> nat set" where
  "farea B = {x. \<exists>a s. (a, s, False) \<in> set B \<and> a \<le> x \<and> x < a + s}"

lemma links_farea: "heap_inv0 D h B fl \<Longrightarrow> S \<subseteq> free_addrs B \<Longrightarrow> links S \<subseteq> farea B"
proof
  fix x assume h: "heap_inv0 D h B fl" "S \<subseteq> free_addrs B" "x \<in> links S"
  then obtain c s where "c + 16 \<le> x" "x < c + 32" "(c, s, False) \<in> set B" by (auto simp: links_def free_addrs_def)
  with inv_blk(3) [OF h(1)] show "x \<in> farea B" by (fastforce simp: farea_def)
qed

lemma used_outside_farea:
  assumes "heap_inv0 D h B fl" "(a, s) \<in> used B" "a \<le> x" "x < a + s"
  shows "x \<notin> farea B"
proof
  assume "x \<in> farea B"
  then obtain c t where c: "(c, t, False) \<in> set B" "c \<le> x" "x < c + t" by (auto simp: farea_def)
  have "(a, s, True) \<in> set B" using assms(2) by (simp add: used_def)
  with c inv_disjoint [OF assms(1) this c(1)] assms(3,4)
    laid_same_addr [of "h_base h" B "h_base h + h_brk h" a s True t False] assms(1)
  show False by (auto simp: heap_inv0_def)
qed

text \<open>What an operation may write: the bytes of the region outside the blocks in use.\<close>

definition uarea :: "blk list \<Rightarrow> nat set" where
  "uarea B = {x. \<exists>(a, s) \<in> used B. a \<le> x \<and> x < a + s}"

definition spare :: "'e heap_state \<Rightarrow> blk list \<Rightarrow> nat set" where
  "spare h B = {h_base h..<h_base h + h_limit h} - uarea B"

lemma farea_spare:
  assumes inv: "heap_inv0 D h B fl"
  shows "farea B \<subseteq> spare h B"
proof
  fix x assume x: "x \<in> farea B"
  then obtain a s where "(a, s, False) \<in> set B" "a \<le> x" "x < a + s" by (auto simp: farea_def)
  with inv_blk(4,5) [OF inv this(1)] inv have "x \<in> {h_base h..<h_base h + h_limit h}"
    by (auto simp: heap_inv0_def)
  moreover have "x \<notin> uarea B" using x used_outside_farea [OF inv] by (auto simp: uarea_def)
  ultimately show "x \<in> spare h B" by (simp add: spare_def)
qed

text \<open>The two coalescing steps followed by the insertion, for a block that has just been marked free.\<close>

lemma coalesce_next_step:
  assumes inv: "heap_inv0 {b} h (xs @ (b, s, False) # ys) fl"
  obtains s' ys' fl' where "heap_inv0 {b} (coalesce_next b h) (xs @ (b, s', False) # ys') fl'"
    "used (xs @ (b, s', False) # ys') = used (xs @ (b, s, False) # ys)"
    "farea (xs @ (b, s', False) # ys') = farea (xs @ (b, s, False) # ys)"
    "same_outside (farea (xs @ (b, s, False) # ys)) h (coalesce_next b h)"
proof (cases "ys = [] \<or> (\<exists>c t zs. ys = (c, t, True) # zs)")
  case True
  from coalesce_next_none [OF inv True] show thesis using that [of s ys fl] inv by simp
next
  case False
  then obtain c t zs where ys: "ys = (c, t, False) # zs" by (cases ys) auto
  have c: "c = b + s" using inv ys by (auto simp: heap_inv0_def laid_append)
  note n = coalesce_next_some [OF inv [unfolded ys]]
  have fa: "farea (xs @ (b, s + t, False) # zs) = farea (xs @ (b, s, False) # ys)"
    unfolding ys farea_def c by (rule Collect_cong) (use c in \<open>auto; metis add.assoc le_add1 le_trans not_le\<close>)
  have "{b..<b + s + t} \<subseteq> farea (xs @ (b, s + t, False) # zs)" by (force simp: farea_def)
  then have "{b..<b + s + t} \<union> links (set fl) \<subseteq> farea (xs @ (b, s, False) # ys)"
    using links_farea [OF inv, of "set fl"] inv fa by (auto simp: heap_inv0_def)
  from same_outside_mono [OF n(2) this] n(1) fa show thesis
    using that [of "s + t" zs "remove1 c fl"] by (simp add: used_def ys)
qed

lemma coalesce_prev_step:
  assumes inv: "heap_inv0 {b} h (xs @ (b, s, False) # ys) fl"
  defines "h' \<equiv> (case coalesce_prev b h of (merged, h') \<Rightarrow> if \<not> merged then fl_insert b h' else h')"
  obtains B' fl' where "heap_inv h' B' fl'" "used B' = used (xs @ (b, s, False) # ys)"
    "same_outside (farea (xs @ (b, s, False) # ys)) h h'"
proof (cases "xs = [] \<or> wv h (b - 16) \<noteq> HEAP_MAGIC_FREE")
  case True
  let ?B = "xs @ (b, s, False) # ys"
  from coalesce_prev_none [OF inv True] have h': "h' = fl_insert b h" by (simp add: h'_def)
  have nb: "b \<notin> set fl" using inv by (simp add: heap_inv0_def)
  have b: "(b, s, False) \<in> set ?B" by simp
  have "links (insert b (set fl)) \<subseteq> farea ?B"
    using inv by (intro links_farea [OF inv]) (auto simp: heap_inv0_def free_addrs_def)
  from same_outside_mono [OF fl_insert_effect(2) [OF inv b nb] this] fl_insert_inv [OF inv b]
  show thesis using that [of ?B "b # fl"] by (simp add: h')
next
  case False
  then obtain zs a t u where xs: "xs = zs @ [(a, t, u)]" by (metis rev_exhaust prod_cases3)
  have inv2: "heap_inv0 {b} h (zs @ (a, t, u) # (b, s, False) # ys) fl" using inv by (simp add: xs)
  note m = coalesce_prev_merge [OF inv2] 
  have ft: "wv h (b - 16) = HEAP_MAGIC_FREE" using False by simp
  have b: "b = a + t" using inv2 by (auto simp: heap_inv0_def laid_append)
  have h': "h' = snd (coalesce_prev b h)" using m(2) [OF ft] by (cases "coalesce_prev b h") (simp add: h'_def)
  have "{a..<a + t + s} \<subseteq> farea (xs @ (b, s, False) # ys)"
  proof
    fix x assume "x \<in> {a..<a + t + s}"
    then have "a \<le> x \<and> x < a + t \<or> b \<le> x \<and> x < b + s" using b by auto
    then show "x \<in> farea (xs @ (b, s, False) # ys)" using m(1) [OF ft] by (auto simp: xs farea_def)
  qed
  from same_outside_mono [OF m(4) [OF ft] this] m(1,3) [OF ft] show thesis
    using that [of "zs @ (a, t + s, False) # ys" fl] by (simp add: h' used_def xs)
qed

lemma heap_free_fields:
  "h_base (heap_free p h) = h_base h" "h_limit (heap_free p h) = h_limit h"
  "h_brk (heap_free p h) = h_brk h" "h_env (heap_free p h) = h_env h"
proof -
  have n: "h_base (coalesce_next b k) = h_base k" "h_limit (coalesce_next b k) = h_limit k"
    "h_brk (coalesce_next b k) = h_brk k" "h_env (coalesce_next b k) = h_env k"
    for b and k :: "'a heap_state"
    unfolding coalesce_next_def Let_def set_fields by (simp_all split: if_split)
  have p: "h_base (snd (coalesce_prev b k)) = h_base k" "h_limit (snd (coalesce_prev b k)) = h_limit k"
    "h_brk (snd (coalesce_prev b k)) = h_brk k" "h_env (snd (coalesce_prev b k)) = h_env k"
    for b and k :: "'a heap_state"
    unfolding coalesce_prev_def Let_def set_fields by (simp_all split: if_split)
  show "h_base (heap_free p h) = h_base h" "h_limit (heap_free p h) = h_limit h"
    "h_brk (heap_free p h) = h_brk h" "h_env (heap_free p h) = h_env h"
    unfolding heap_free_def Let_def
    by (auto simp: n p set_magic_def case_prod_unfold)
qed

lemma heap_free_effect:
  assumes inv: "heap_inv h B fl" and b: "(b, s) \<in> used B"
  obtains B' fl' where "heap_inv (heap_free (b + 32) h) B' fl'" "used B' = used B - {(b, s)}"
    "same_outside (spare h B') h (heap_free (b + 32) h)"
    "h_base (heap_free (b + 32) h) = h_base h" "h_limit (heap_free (b + 32) h) = h_limit h"
    "h_brk (heap_free (b + 32) h) = h_brk h" "h_env (heap_free (b + 32) h) = h_env h"
proof -
  obtain xs ys where B: "B = xs @ (b, s, True) # ys" using b by (auto simp: used_def dest: split_list)
  let ?B = "xs @ (b, s, False) # ys"
  let ?h1 = "set_magic b HEAP_MAGIC_FREE h"
  note blk = inv_blk [OF inv, of b s True, unfolded B, simplified]
  have i1: "heap_inv0 {b} ?h1 ?B fl" using set_magic_free_inv inv by (simp add: B)
  have u1: "used ?B = used B - {(b, s)}"
    using laid_unique_mid [of "h_base h" xs b s True ys "h_base h + h_brk h" s True] inv
    by (auto simp: used_def B heap_inv0_def)
  obtain s' ys' fl2 where i2: "heap_inv0 {b} (coalesce_next b ?h1) (xs @ (b, s', False) # ys') fl2"
    "used (xs @ (b, s', False) # ys') = used ?B" "farea (xs @ (b, s', False) # ys') = farea ?B"
    "same_outside (farea ?B) ?h1 (coalesce_next b ?h1)"
    by (rule coalesce_next_step [OF i1])
  define h3 where "h3 = (case coalesce_prev b (coalesce_next b ?h1) of (merged, h') \<Rightarrow> if \<not> merged then fl_insert b h' else h')"
  obtain B' fl' where i3: "heap_inv h3 B' fl'" "used B' = used (xs @ (b, s', False) # ys')"
    "same_outside (farea (xs @ (b, s', False) # ys')) (coalesce_next b ?h1) h3"
    unfolding h3_def by (rule coalesce_prev_step [OF i2(1)])
  have "sub64 (b + 32) 32 = b" using blk(3,6) by (simp add: sub64_id)
  moreover have "b_magic h b = HEAP_MAGIC_USED" using blk(8,9) by (simp add: b_fields)
  ultimately have eq: "heap_free (b + 32) h = h3"
    by (simp add: heap_free_def Let_def HEADER_SIZE_def h3_def)
  have "{b..<b + 8} \<subseteq> farea ?B" using blk(3) by (force simp: farea_def)
  then have "same_outside (farea ?B) h ?h1" by (simp add: set_magic_def same_outside_put64)
  from same_outside_trans [OF same_outside_trans [OF this i2(4)]] i3(3) i2(3)
  have out: "same_outside (farea ?B) h h3" by simp
  have f: "h_base h3 = h_base h" "h_limit h3 = h_limit h" "h_brk h3 = h_brk h" "h_env h3 = h_env h"
    using eq heap_free_fields [of "b + 32" h] by simp_all
  have uB: "used B' = used ?B" using i2(2) i3(2) by simp
  have "farea ?B \<subseteq> spare h B'" using farea_spare [OF i1] uB by (simp add: spare_def uarea_def set_magic_def)
  then show thesis
    using that [of B' fl'] i3(1) uB u1 out f by (simp add: eq same_outside_mono)
qed

section \<open>Allocation\<close>

lemma split_block_none:
  assumes inv: "heap_inv h B fl" "(b, s, False) \<in> set B" and "need \<le> 2 ^ 63" "s < need + 64"
  shows "split_block b need h = h"
  using inv_blk [OF assms(1,2)] assms(3,4)
  by (simp add: split_block_def b_fields MIN_BLOCK_def HEADER_SIZE_def FOOTER_SIZE_def MIN_PAYLOAD_def add64_id)

lemma inv_apart:
  assumes inv: "heap_inv0 D h B fl" and b: "(b, s, u) \<in> set B" and c: "c \<in> set fl"
  shows "c = b \<or> c + 64 \<le> b \<or> b + s \<le> c"
proof -
  obtain t where t: "(c, t, False) \<in> set B" using inv_free [OF inv c] by metis
  show ?thesis using inv_disjoint [OF inv t b] inv_blk(3) [OF inv t] by auto
qed

lemma inv_apart_head:
  assumes "heap_inv0 D h B fl" "(b, s, u) \<in> set B" "h_free_list h \<noteq> 0"
  shows "h_free_list h = b \<or> h_free_list h + 64 \<le> b \<or> b + s \<le> h_free_list h"
  using inv_apart [OF assms(1,2), of "h_free_list h"] inv_fl(3) [OF assms(1)] assms(3) by auto

text \<open>The free list after the push of a remainder at \<open>r\<close>.\<close>

definition pushed :: "nat \<Rightarrow> nat \<Rightarrow> (nat \<Rightarrow> nat) \<Rightarrow> nat \<Rightarrow> nat" where
  "pushed r x w = (if x \<noteq> 0 then w(r + 24 := 0, r + 16 := x, x + 24 := r) else w(r + 24 := 0, r + 16 := x))"

lemma pushed_other: "y \<noteq> r + 24 \<Longrightarrow> y \<noteq> r + 16 \<Longrightarrow> (x \<noteq> 0 \<Longrightarrow> y \<noteq> x + 24) \<Longrightarrow> pushed r x w y = w y"
  by (auto simp: pushed_def)

lemma pushed_cong: "w' y = w y \<Longrightarrow> pushed r x w' y = pushed r x w y"
  by (auto simp: pushed_def)

lemma split_block_words:
  assumes inv: "heap_inv h B fl" "(b, s, False) \<in> set B" and need: "16 dvd need" "64 \<le> need" "need + 64 \<le> s"
  defines "r \<equiv> b + need"
  shows "wv (split_block b need h) = (pushed r (h_free_list h) ((wv h)(r := HEAP_MAGIC_FREE, r + 8 := s - need,
       b + s - 16 := HEAP_MAGIC_FREE, b + s - 8 := s - need)))
       (b + 8 := need, r - 16 := HEAP_MAGIC_FREE, r - 8 := need)"
    and "h_free_list (split_block b need h) = r"
    and "h_base (split_block b need h) = h_base h" "h_limit (split_block b need h) = h_limit h"
      "h_brk (split_block b need h) = h_brk h"
    and "same_outside ({b..<b + s} \<union> links (set fl)) h (split_block b need h)"
proof -
  note b = inv_blk [OF inv]
  have r8: "8 dvd r" "r < 2 ^ 64" "r + (s - need) < 2 ^ 64" "8 dvd s - need" "8 dvd need" "r + (s - need) = b + s"
    "b + 64 \<le> r" "r + 64 \<le> b + s"
    using b(1,2,6) need by (auto simp: r_def dvd_diff_nat)
  define h1 where "h1 = set_size r (s - need) (set_magic r HEAP_MAGIC_FREE h)"
  define h2 where "h2 = set_footer r h1"
  define h3 where "h3 = fl_insert r h2"
  define h4 where "h4 = set_size b need h3"
  have w1: "wv h1 = (wv h)(r := HEAP_MAGIC_FREE, r + 8 := s - need)"
    using r8 b(6) by (simp add: h1_def set_fields wv_put64)
  have w2: "wv h2 = (wv h)(r := HEAP_MAGIC_FREE, r + 8 := s - need, b + s - 16 := HEAP_MAGIC_FREE, b + s - 8 := s - need)"
    unfolding h2_def using r8 need by (subst wv_set_footer [where s = "s - need"]) (auto simp: w1)
  have fl2: "h_free_list h2 = h_free_list h" by (simp add: h2_def h1_def set_fields)
  have w3: "wv h3 = pushed r (h_free_list h) (wv h2)"
    unfolding h3_def pushed_def using r8 inv_fl(4,5) [OF inv(1)] by (subst wv_fl_insert) (simp_all add: fl2)
  have w4: "wv h4 = (wv h3)(b + 8 := need)" using b r8 need by (simp add: h4_def set_size_def wv_put64)
  have b3: "wv h3 b = HEAP_MAGIC_FREE"
    unfolding w3 using r8 inv_apart_head [OF inv] b(3,9) by (subst pushed_other) (auto simp: w2)
  have "wv (set_footer b h4) = (wv h3)(b + 8 := need, b + need - 16 := HEAP_MAGIC_FREE, b + need - 8 := need)"
    using b r8 need by (subst wv_set_footer [where s = need]) (auto simp: w4 b3)
  moreover have eq: "split_block b need h = set_footer b h4"
  proof -
    have "b_size (set_magic r HEAP_MAGIC_FREE h) b = s"
      using b(8,9) r8 by (simp add: b_fields set_magic_def wv_put64)
    then show ?thesis using b need r8
      by (simp add: split_block_def b_fields MIN_BLOCK_def HEADER_SIZE_def FOOTER_SIZE_def MIN_PAYLOAD_def
          add64_id sub64_id Let_def h4_def h3_def h2_def h1_def r_def)
  qed
  ultimately show "wv (split_block b need h) = (pushed r (h_free_list h) ((wv h)(r := HEAP_MAGIC_FREE, r + 8 := s - need,
       b + s - 16 := HEAP_MAGIC_FREE, b + s - 8 := s - need)))
       (b + 8 := need, r - 16 := HEAP_MAGIC_FREE, r - 8 := need)"
    by (simp add: w3 w2 r_def)
  show "h_free_list (split_block b need h) = r" "h_base (split_block b need h) = h_base h"
    "h_limit (split_block b need h) = h_limit h" "h_brk (split_block b need h) = h_brk h"
    by (simp_all add: eq h4_def h3_def h2_def h1_def set_fields)
  let ?Z = "{b..<b + s} \<union> links (set fl)"
  have "same_outside ?Z h h1" unfolding h1_def set_fields using r8 by (intro same_outside_put64) auto
  then have "same_outside ?Z h h2" unfolding h2_def
    using r8 by (intro set_footer_frame [where s = "s - need"]) (auto simp: w1)
  then have "same_outside ?Z h h3" unfolding h3_def
    using inv_fl(3) [OF inv(1)] r8
    by (intro fl_insert_frame [of _ "insert r (set fl)"]) (auto simp: fl2 links_def)
  then have "same_outside ?Z h h4" unfolding h4_def set_fields using b(3) by (intro same_outside_put64) auto
  then show "same_outside ?Z h (split_block b need h)" unfolding eq
    using b r8 need by (intro set_footer_frame [where s = need]) (auto simp: w4)
qed

end
