(* ===== verification/Heap_Take.thy ===== *)
theory Heap_Take
  imports Heap_Props
begin

text \<open>
  Taking a free block for an allocation: the split that puts the remainder on the free list
  (\<open>split_block\<close>) and the removal of the block itself, marked as used (the body of the loop of
  \<open>heap_alloc\<close>), keep the invariant.
\<close>

section \<open>Splitting\<close>

text \<open>The invariant depends on the words and the fields only.\<close>

lemma heap_inv0_cong:
  assumes "heap_inv0 D h B fl" "wv h' = wv h" "h_base h' = h_base h" "h_limit h' = h_limit h"
    "h_brk h' = h_brk h" "h_free_list h' = h_free_list h"
  shows "heap_inv0 D h' B fl"
  using assms by (simp add: heap_inv0_def)

text \<open>The tags written by a split, before the remainder is put on the free list.\<close>

definition split_tags :: "nat \<Rightarrow> nat \<Rightarrow> nat \<Rightarrow> 'e heap_state \<Rightarrow> 'e heap_state" where
  "split_tags b need s h =
    put64 (b + need - 8) need (put64 (b + need - 16) HEAP_MAGIC_FREE (put64 (b + 8) need
      (put64 (b + s - 8) (s - need) (put64 (b + s - 16) HEAP_MAGIC_FREE
        (put64 (b + need + 8) (s - need) (put64 (b + need) HEAP_MAGIC_FREE h))))))"

lemma split_tags_inv:
  assumes inv: "heap_inv h (xs @ (b, s, False) # ys) fl" and need: "16 dvd need" "64 \<le> need" "need + 64 \<le> s"
  defines "r \<equiv> b + need"
  shows "heap_inv0 {r} (split_tags b need s h) (xs @ (b, need, False) # (r, s - need, False) # ys) fl"
    and "wv (split_tags b need s h) = (wv h)(r := HEAP_MAGIC_FREE, r + 8 := s - need,
       b + s - 16 := HEAP_MAGIC_FREE, b + s - 8 := s - need,
       b + 8 := need, r - 16 := HEAP_MAGIC_FREE, r - 8 := need)"
proof -
  let ?B = "xs @ [(b, s, False)] @ ys" and ?mid = "[(b, need, False), (r, s - need, False)]"
  let ?h = "split_tags b need s h"
  have inv': "heap_inv h ?B fl" using inv by simp
  have bB: "(b, s, False) \<in> set ?B" by simp
  note b = inv_blk [OF inv' bB]
  have r: "b + 64 \<le> r" "r + 64 \<le> b + s" using need by (auto simp: r_def)
  have dv: "8 dvd need" "8 dvd b + need" "8 dvd b + need + 8" "8 dvd b + s - 16" "8 dvd b + s - 8" "8 dvd b + 8"
    "8 dvd b + need - 16" "8 dvd b + need - 8"
    using b(1,2,3) need by (auto simp: dvd_diff_nat)
  have lt: "need < 2 ^ 64" "s - need < 2 ^ 64" using b(6) need by auto
  show w: "wv ?h = (wv h)(r := HEAP_MAGIC_FREE, r + 8 := s - need,
       b + s - 16 := HEAP_MAGIC_FREE, b + s - 8 := s - need,
       b + 8 := need, r - 16 := HEAP_MAGIC_FREE, r - 8 := need)"
    using dv lt by (simp add: split_tags_def wv_put64 r_def)
  have d: "dlist (wv h) fl (h_free_list h)" "distinct fl" "set fl = free_addrs ?B"
    using inv' by (auto simp: heap_inv0_def)
  have rn: "r \<notin> set fl" using inv_apart [OF inv' bB, of r] r by auto
  show "heap_inv0 {r} ?h (xs @ (b, need, False) # (r, s - need, False) # ys) fl"
  proof (rule heap_inv0_replace [OF inv', where m = b and e = "b + s" and S = "{}"
        and mid' = ?mid, simplified append_Cons append_Nil])
    show "h_base ?h = h_base h" "h_limit ?h = h_limit h" "h_brk ?h = h_brk h"
      by (simp_all add: split_tags_def)
    show "laid b [(b, s, False)] (b + s)" using b(2,3) by simp
    show "laid b ?mid (b + s)" using b(2) need by (auto simp: r_def dvd_diff_nat)
    show "[(b, s, False)] \<noteq> []" by simp
    show "same_outside ({b..<b + s} \<union> links {}) h ?h"
      unfolding split_tags_def using r by (intro same_outside_put64) (auto simp: r_def)
    show "{} \<subseteq> fst ` set (xs @ (b, s, False) # ys)" by simp
    show "blk_ok (wv ?h) x" if "x \<in> set ?mid" for x
    proof -
      have ne: "b \<noteq> r" "b \<noteq> r + 8" "b \<noteq> b + s - 16" "b \<noteq> b + s - 8" "b \<noteq> r - 16" "b \<noteq> r - 8"
        "r \<noteq> b + s - 16" "r \<noteq> b + s - 8" "r \<noteq> b + 8" "r \<noteq> r - 16" "r \<noteq> r - 8"
        "r + 8 \<noteq> b + s - 16" "r + 8 \<noteq> b + s - 8" "r \<noteq> b" "r + 8 \<noteq> r - 16" "r + 8 \<noteq> r - 8"
        "b + s - 8 \<noteq> b + 8" "b + s - 8 \<noteq> r - 16" "b + s - 8 \<noteq> r - 8" "b + 8 \<noteq> r - 16" "b + 8 \<noteq> r - 8"
        "b \<noteq> b + 8" "r + 8 \<noteq> b + 8" "r - 8 \<noteq> r - 16" "r \<noteq> r + 8"
        using r by linarith+
      have "wv ?h b = HEAP_MAGIC_FREE" "wv ?h r = HEAP_MAGIC_FREE" "wv ?h (r + 8) = s - need"
        "wv ?h (b + s - 8) = s - need" "wv ?h (b + 8) = need" "wv ?h (r - 8) = need"
        using b(9) by (simp_all only: w fun_upd_apply ne blk_ok.simps simp_thms if_True if_False)
      moreover have "b + need - 8 = r - 8" "r + (s - need) - 8 = b + s - 8"
        using need by (simp_all add: r_def)
      moreover have "x = (b, need, False) \<or> x = (r, s - need, False)" using that by simp
      ultimately show ?thesis by (elim disjE) (simp_all only: blk_ok.simps if_False simp_thms)
    qed
    show "dlist (wv ?h) fl (h_free_list ?h)"
    proof -
      have "wv ?h (c + 16) = wv h (c + 16) \<and> wv ?h (c + 24) = wv h (c + 24)" if "c \<in> set fl" for c
      proof -
        have "c = b \<or> c + 64 \<le> b \<or> b + s \<le> c" using inv_apart [OF inv' bB that] .
        then have "c + 16 \<noteq> r" "c + 16 \<noteq> r + 8" "c + 16 \<noteq> b + s - 16" "c + 16 \<noteq> b + s - 8" "c + 16 \<noteq> b + 8"
          "c + 16 \<noteq> r - 16" "c + 16 \<noteq> r - 8" "c + 24 \<noteq> r" "c + 24 \<noteq> r + 8" "c + 24 \<noteq> b + s - 16"
          "c + 24 \<noteq> b + s - 8" "c + 24 \<noteq> b + 8" "c + 24 \<noteq> r - 16" "c + 24 \<noteq> r - 8"
          using r by linarith+
        then show ?thesis by (simp only: w fun_upd_apply if_False simp_thms)
      qed
      then have "dlist (wv ?h) fl (h_free_list h) = dlist (wv h) fl (h_free_list h)"
        by (rule dlist_cong)
      then show ?thesis using d(1) by (simp add: split_tags_def)
    qed
    show "distinct fl" by (rule d)
    show "set fl = free_addrs (xs @ (b, need, False) # (r, s - need, False) # ys) - {r}"
      using d(3) rn by (auto simp: free_addrs_def)
  qed
qed

lemma pushed_upd:
  assumes "y \<noteq> r + 24" "y \<noteq> r + 16" "x \<noteq> 0 \<Longrightarrow> y \<noteq> x + 24"
  shows "pushed r x (w(y := v)) = (pushed r x w)(y := v)"
  using assms by (auto simp: pushed_def fun_eq_iff)

lemma split_block_some:
  assumes inv: "heap_inv h (xs @ (b, s, False) # ys) fl" and need: "16 dvd need" "64 \<le> need" "need + 64 \<le> s"
  shows "heap_inv (split_block b need h)
    (xs @ (b, need, False) # (b + need, s - need, False) # ys) ((b + need) # fl)"
proof -
  define r where "r = b + need"
  let ?B = "xs @ (b, s, False) # ys" and ?B' = "xs @ (b, need, False) # (r, s - need, False) # ys"
  let ?h = "split_tags b need s h"
  have bB: "(b, s, False) \<in> set ?B" by simp
  note t = split_tags_inv [OF inv need, folded r_def]
  note w = split_block_words [OF inv bB need, folded r_def]
  have i: "heap_inv (fl_insert r ?h) ?B' (r # fl)" by (rule fl_insert_inv [OF t(1), of "s - need"]) simp
  have rB: "(r, s - need, False) \<in> set ?B'" by simp
  have f: "h_free_list ?h = h_free_list h" by (simp add: split_tags_def)
  have r: "b + 64 \<le> r" "r + 64 \<le> b + s" using need by (auto simp: r_def)
  have "wv (fl_insert r ?h) = pushed r (h_free_list h) (wv ?h)"
    using wv_fl_insert [of r ?h] inv_blk(8,6) [OF t(1) rB] inv_fl(4,5) [OF inv] by (simp add: f pushed_def)
  moreover have far: "pushed r (h_free_list h) (v(y := z)) = (pushed r (h_free_list h) v)(y := z)"
    if "y = b + 8 \<or> y = r - 16 \<or> y = r - 8" for v y z
    using that inv_apart_head [OF inv bB] r by (intro pushed_upd) linarith+
  have "wv (split_block b need h) = pushed r (h_free_list h) (wv ?h)"
    unfolding w(1) t(2) by (simp only: far simp_thms)
  ultimately have "heap_inv (split_block b need h) ?B' (r # fl)"
    by (intro heap_inv0_cong [OF i]) (simp_all add: w split_tags_def)
  then show ?thesis by (simp add: r_def)
qed


section \<open>Taking a block\<close>

lemma fl_remove_inv:
  assumes inv: "heap_inv h B fl" and fl: "fl = us @ b # vs"
  shows "heap_inv0 {b} (fl_remove b h) B (us @ vs)"
proof -
  note e = fl_remove_effect [OF inv fl]
  have "blk_ok (wv (fl_remove b h)) x" if "x \<in> set B" for x
  proof -
    obtain c t v where x: "x = (c, t, v)" by (rule prod_cases3)
    with tags_links [OF inv _ inv_fl_sub [OF inv] e(2), of c t v] inv_blk(9) [OF inv, of c t v] that
    show ?thesis by simp
  qed
  moreover have "distinct (us @ b # vs)" "set (us @ b # vs) = free_addrs B"
    using inv by (auto simp: heap_inv0_def fl)
  then have "set (us @ vs) = free_addrs B - {b}" "distinct (us @ vs)" by auto
  ultimately show ?thesis using inv e(1) by (simp add: heap_inv0_def)
qed

definition mark_used :: "nat \<Rightarrow> nat \<Rightarrow> 'e heap_state \<Rightarrow> 'e heap_state" where
  "mark_used b n k = put64 (b + n - 8) n (put64 (b + n - 16) HEAP_MAGIC_USED (put64 b HEAP_MAGIC_USED k))"

lemma mark_used_inv:
  assumes inv: "heap_inv0 {b} k (xs @ (b, n, False) # ys) fl"
  shows "heap_inv (mark_used b n k) (xs @ (b, n, True) # ys) fl"
    and "wv (mark_used b n k) = (wv k)(b := HEAP_MAGIC_USED, b + n - 16 := HEAP_MAGIC_USED, b + n - 8 := n)"
proof -
  let ?B = "xs @ [(b, n, False)] @ ys" and ?h = "mark_used b n k"
  have inv': "heap_inv0 {b} k ?B fl" using inv by simp
  have bB: "(b, n, False) \<in> set ?B" by simp
  note b = inv_blk [OF inv' bB]
  have dv: "8 dvd b" "8 dvd b + n - 16" "8 dvd b + n - 8" using b(1,2,3) by (auto simp: dvd_diff_nat)
  have lt: "n < 2 ^ 64" using b(6) by simp
  show w: "wv ?h = (wv k)(b := HEAP_MAGIC_USED, b + n - 16 := HEAP_MAGIC_USED, b + n - 8 := n)"
    using dv lt by (simp add: mark_used_def wv_put64)
  have d: "dlist (wv k) fl (h_free_list k)" "distinct fl" "set fl = free_addrs ?B - {b}"
    using inv' by (auto simp: heap_inv0_def)
  show "heap_inv ?h (xs @ (b, n, True) # ys) fl"
  proof (rule heap_inv0_replace [OF inv', where m = b and e = "b + n" and S = "{}"
        and mid' = "[(b, n, True)]", simplified append_Cons append_Nil])
    show "h_base ?h = h_base k" "h_limit ?h = h_limit k" "h_brk ?h = h_brk k"
      by (simp_all add: mark_used_def)
    show "laid b [(b, n, False)] (b + n)" "laid b [(b, n, True)] (b + n)" using b(2,3) by simp_all
    show "[(b, n, False)] \<noteq> []" by simp
    show "same_outside ({b..<b + n} \<union> links {}) k ?h"
      unfolding mark_used_def using b(3) by (intro same_outside_put64) auto
    show "{} \<subseteq> fst ` set (xs @ (b, n, False) # ys)" by simp
    show "blk_ok (wv ?h) x" if "x \<in> set [(b, n, True)]" for x
    proof -
      have ne: "b \<noteq> b + n - 16" "b \<noteq> b + n - 8" "b + 8 \<noteq> b" "b + 8 \<noteq> b + n - 16" "b + 8 \<noteq> b + n - 8"
        "b + n - 16 \<noteq> b + n - 8"
        using b(3) by linarith+
      have "wv ?h b = HEAP_MAGIC_USED" "wv ?h (b + 8) = n" "wv ?h (b + n - 8) = n"
        "wv ?h (b + n - 16) = HEAP_MAGIC_USED"
        using b(9) by (simp_all only: w fun_upd_apply ne blk_ok.simps simp_thms if_True if_False)
      then show ?thesis using that by simp
    qed
    show "dlist (wv ?h) fl (h_free_list ?h)"
    proof -
      have "wv ?h (c + 16) = wv k (c + 16) \<and> wv ?h (c + 24) = wv k (c + 24)" if "c \<in> set fl" for c
      proof -
        have "c + 64 \<le> b \<or> b + n \<le> c" using inv_apart [OF inv' bB that] that d(3) by auto
        then show ?thesis unfolding w using b(3) by (elim disjE) auto
      qed
      then have "dlist (wv ?h) fl (h_free_list k) = dlist (wv k) fl (h_free_list k)" by (rule dlist_cong)
      then show ?thesis using d(1) by (simp add: mark_used_def)
    qed
    show "distinct fl" by (rule d)
    show "set fl = free_addrs (xs @ (b, n, True) # ys) - {}"
      using d(3) laid_unique_mid [of "h_base k" xs b n False ys "h_base k + h_brk k"] inv
      by (auto simp: free_addrs_def heap_inv0_def)
  qed
qed

lemma unlinked_upd:
  assumes "p \<noteq> 0 \<Longrightarrow> y \<noteq> p + 16" "n \<noteq> 0 \<Longrightarrow> y \<noteq> n + 24" "y \<noteq> b + 16" "y \<noteq> b + 24"
  shows "unlinked b p n (w(y := v)) = (unlinked b p n w)(y := v)"
  using assms by (auto simp: unlinked_def Let_def fun_eq_iff)

text \<open>The tags are written before the block is unlinked; the order does not matter.\<close>

lemma fl_neighbours:
  assumes inv: "heap_inv0 D h B fl" and fl: "fl = us @ b # vs"
  shows "wv h (b + 24) = 0 \<or> wv h (b + 24) \<in> set fl - {b}" "wv h (b + 16) = 0 \<or> wv h (b + 16) \<in> set fl - {b}"
proof -
  have d: "dlist (wv h) (us @ b # vs) (h_free_list h)" "distinct (us @ b # vs)"
    using inv by (auto simp: heap_inv0_def fl)
  show "wv h (b + 24) = 0 \<or> wv h (b + 24) \<in> set fl - {b}" "wv h (b + 16) = 0 \<or> wv h (b + 16) \<in> set fl - {b}"
    using dlist_neighbours(1,2) [OF d(1)] d(2) by (auto simp: fl dest: last_in_set hd_in_set)
qed

lemma take_links:
  assumes inv: "heap_inv h B fl" and bB: "(b, n, False) \<in> set B" and fl: "fl = us @ b # vs"
  defines "k \<equiv> set_footer b (set_magic b HEAP_MAGIC_USED h)" and "p \<equiv> wv h (b + 24)" and "q \<equiv> wv h (b + 16)"
  shows "wv k (b + 24) = p" "wv k (b + 16) = q" "8 dvd p" "p \<noteq> b" "p \<noteq> b + 8" "8 dvd q" "q \<noteq> b"
    "wv k = (wv h)(b := HEAP_MAGIC_USED, b + n - 16 := HEAP_MAGIC_USED, b + n - 8 := n)"
    "p \<noteq> 0 \<Longrightarrow> p + 64 \<le> b \<or> b + n \<le> p" "q \<noteq> 0 \<Longrightarrow> q + 64 \<le> b \<or> b + n \<le> q"
proof -
  note b = inv_blk [OF inv bB]
  have dv: "8 dvd b" "8 dvd b + n - 16" "8 dvd b + n - 8" "8 dvd n" using b(1,2,3) by (auto simp: dvd_diff_nat)
  have m: "wv (set_magic b HEAP_MAGIC_USED h) = (wv h)(b := HEAP_MAGIC_USED)"
    using dv by (simp add: set_magic_def wv_put64)
  show k: "wv k = (wv h)(b := HEAP_MAGIC_USED, b + n - 16 := HEAP_MAGIC_USED, b + n - 8 := n)"
    unfolding k_def using b dv by (subst wv_set_footer [where s = n]) (auto simp: m)
  have ne: "b + 24 \<noteq> b" "b + 24 \<noteq> b + n - 16" "b + 24 \<noteq> b + n - 8" "b + 16 \<noteq> b" "b + 16 \<noteq> b + n - 16"
    "b + 16 \<noteq> b + n - 8"
    using b(3) by linarith+
  show "wv k (b + 24) = p" "wv k (b + 16) = q"
    unfolding k p_def q_def by (simp_all only: fun_upd_apply ne if_False)
  note nb = fl_neighbours [OF inv fl, folded p_def q_def]
  have far: "c + 64 \<le> b \<or> b + n \<le> c" if "c \<in> set fl - {b}" for c
    using inv_apart [OF inv bB, of c] that by blast
  show "8 dvd p" "p \<noteq> b" "p \<noteq> b + 8" "8 dvd q" "q \<noteq> b"
    using nb inv_fl(6) [OF inv] far b(3,7) by fastforce+
  show "p \<noteq> 0 \<Longrightarrow> p + 64 \<le> b \<or> b + n \<le> p" "q \<noteq> 0 \<Longrightarrow> q + 64 \<le> b \<or> b + n \<le> q"
    using nb far by blast+
qed

lemma take_words:
  assumes inv: "heap_inv h B fl" and bB: "(b, n, False) \<in> set B" and fl: "fl = us @ b # vs"
  defines "t \<equiv> fl_remove b (set_footer b (set_magic b HEAP_MAGIC_USED h))"
  shows "wv t = wv (mark_used b n (fl_remove b h))" "h_free_list t = h_free_list (fl_remove b h)"
proof -
  note b = inv_blk [OF inv bB]
  let ?p = "wv h (b + 24)" and ?q = "wv h (b + 16)"
  define k where "k = set_footer b (set_magic b HEAP_MAGIC_USED h)"
  note l = take_links [OF inv bB fl, folded k_def]
  have dv: "8 dvd b" "8 dvd b + n - 16" "8 dvd b + n - 8" using b(1,2,3) by (auto simp: dvd_diff_nat)
  have rk: "wv t = unlinked b ?p ?q (wv k)" "h_free_list t = (if ?p \<noteq> 0 then h_free_list k else ?q)"
    unfolding t_def k_def [symmetric]
    by (rule wv_fl_remove [OF dv(1) l(1,3-5,2,6,7)])+
  have rh: "wv (fl_remove b h) = unlinked b ?p ?q (wv h)"
    "h_free_list (fl_remove b h) = (if ?p \<noteq> 0 then h_free_list h else ?q)"
    by (rule wv_fl_remove [OF dv(1) refl l(3-5) refl l(6,7)])+
  have upd: "unlinked b ?p ?q (w(y := v)) = (unlinked b ?p ?q w)(y := v)"
    if "y = b \<or> y = b + n - 16 \<or> y = b + n - 8" for w y v
  proof (rule unlinked_upd)
    show "y \<noteq> b + 16" "y \<noteq> b + 24" using that b(3) by linarith+
    show "y \<noteq> ?p + 16" if "?p \<noteq> 0" using l(9) [OF that] \<open>y = b \<or> _\<close> b(3) by auto
    show "y \<noteq> ?q + 24" if "?q \<noteq> 0" using l(10) [OF that] \<open>y = b \<or> _\<close> b(3) by auto
  qed
  have "wv (mark_used b n (fl_remove b h)) =
      (wv (fl_remove b h))(b := HEAP_MAGIC_USED, b + n - 16 := HEAP_MAGIC_USED, b + n - 8 := n)"
    using dv b(6) by (simp add: mark_used_def wv_put64)
  then show "wv t = wv (mark_used b n (fl_remove b h))" unfolding rk rh l(8) by (simp only: upd simp_thms)
  show "h_free_list t = h_free_list (fl_remove b h)" unfolding rk rh by (simp add: k_def set_magic_def)
qed

lemma take_block_inv:
  assumes inv: "heap_inv h (xs @ (b, n, False) # ys) fl"
  defines "t \<equiv> fl_remove b (set_footer b (set_magic b HEAP_MAGIC_USED h))"
  shows "heap_inv t (xs @ (b, n, True) # ys) (remove1 b fl)"
proof -
  let ?B = "xs @ (b, n, False) # ys"
  have bB: "(b, n, False) \<in> set ?B" by simp
  then have "b \<in> set fl" using inv by (auto simp: heap_inv0_def free_addrs_def)
  then obtain us vs where fl: "fl = us @ b # vs" "b \<notin> set us" by (metis split_list_first)
  then have r: "remove1 b fl = us @ vs" by (simp add: remove1_append)
  note w = take_words [OF inv bB fl(1), folded t_def]
  have "heap_inv (mark_used b n (fl_remove b h)) (xs @ (b, n, True) # ys) (us @ vs)"
    by (rule mark_used_inv(1) [OF fl_remove_inv [OF inv fl(1)]])
  then show ?thesis unfolding r
    by (rule heap_inv0_cong) (simp_all add: w, simp_all add: t_def mark_used_def set_magic_def)
qed

lemma fl_remove_frame:
  assumes "8 dvd b" and p: "wv h (b + 24) = p" "8 dvd p" "p \<noteq> b" "p \<noteq> b + 8" and n: "wv h (b + 16) = n" "8 dvd n" "n \<noteq> b"
    and S: "b \<in> S" "p \<noteq> 0 \<Longrightarrow> p \<in> S" "n \<noteq> 0 \<Longrightarrow> n \<in> S" "links S \<subseteq> Z" "same_outside Z h0 h"
  shows "same_outside Z h0 (fl_remove b h)"
  unfolding fl_remove_eq(1) [OF assms(1-8)]
  using S by (auto intro!: same_outside_link [of _ S])

lemma take_block_frame:
  assumes inv: "heap_inv h B fl" and bB: "(b, n, False) \<in> set B"
  shows "same_outside (farea B) h (fl_remove b (set_footer b (set_magic b HEAP_MAGIC_USED h)))"
proof -
  note b = inv_blk [OF inv bB]
  let ?Z = "farea B"
  let ?m = "set_magic b HEAP_MAGIC_USED h"
  have Z: "{b..<b + n} \<subseteq> ?Z" using bB by (fastforce simp: farea_def)
  have m: "wv ?m (b + 8) = n" using b by (simp add: set_magic_def wv_put64)
  have "same_outside ?Z h ?m" unfolding set_magic_def using Z b(3) by (intro same_outside_put64) auto
  then have k: "same_outside ?Z h (set_footer b ?m)"
    using b(3) by (intro set_footer_frame [OF b(8) m _ b(6)] order.trans [OF _ Z]) auto
  have "b \<in> set fl" using inv bB by (auto simp: heap_inv0_def free_addrs_def)
  then obtain us vs where fl: "fl = us @ b # vs" by (metis split_list)
  note l = take_links [OF inv bB fl]
  have "links (set fl) \<subseteq> ?Z" using inv by (intro links_farea) (auto simp: heap_inv0_def)
  then show ?thesis
    using fl_neighbours [OF inv fl] k \<open>b \<in> set fl\<close>
    by (intro fl_remove_frame [OF b(8) l(1,3-5,2,6,7), of "set fl"]) auto
qed

section \<open>The loop body of \<open>heap_alloc\<close>\<close>

lemma farea_append: "farea [] = {}" "farea (xs @ ys) = farea xs \<union> farea ys"
  by (auto simp: farea_def)

lemma farea_Cons: "farea ((a, s, u) # ys) = (if u then {} else {a..<a + s}) \<union> farea ys"
proof -
  have "farea [(a, s, u)] = (if u then {} else {a..<a + s})" by (cases u) (simp_all add: farea_def set_eq_iff)
  then show ?thesis using farea_append(2) [of "[(a, s, u)]" ys] by simp
qed

lemmas farea_simps = farea_append farea_Cons

lemma used_simps: "used [] = {}" "used (xs @ ys) = used xs \<union> used ys"
  "used ((a, s, u) # ys) = (if u then {(a, s)} else {}) \<union> used ys"
  by (auto simp: used_def)

lemma split_block_env [simp]: "h_env (split_block b need h) = h_env h"
  by (simp add: split_block_def Let_def set_fields)

lemma split_block_step:
  assumes inv: "heap_inv h (xs @ (b, s, False) # ys) fl"
    and need: "16 dvd need" "64 \<le> need" "need \<le> s" "need \<le> 2 ^ 63"
  obtains n ys' fl' where "heap_inv (split_block b need h) (xs @ (b, n, False) # ys') fl'"
    "need \<le> n" "n \<le> s" "n < need + 64" "used ys' = used ys"
    "farea (xs @ (b, n, False) # ys') = farea (xs @ (b, s, False) # ys)"
    "same_outside (farea (xs @ (b, s, False) # ys)) h (split_block b need h)"
    "h_base (split_block b need h) = h_base h" "h_limit (split_block b need h) = h_limit h"
    "h_brk (split_block b need h) = h_brk h"
proof (cases "need + 64 \<le> s")
  case False
  then have "split_block b need h = h" by (intro split_block_none [OF inv, of b s]) (use need in auto)
  with inv need False show thesis by (intro that [of s ys fl]) auto
next
  case True
  let ?B = "xs @ (b, s, False) # ys"
  have bB: "(b, s, False) \<in> set ?B" by simp
  note w = split_block_words [OF inv bB need(1,2) True]
  show thesis
  proof (rule that [OF split_block_some [OF inv need(1,2) True]])
    show "farea (xs @ (b, need, False) # (b + need, s - need, False) # ys) = farea ?B"
    proof -
      have "{b..<b + s} = {b..<b + need} \<union> {b + need..<b + need + (s - need)}" using need(3) by auto
      then show ?thesis by (simp add: farea_simps Un_assoc)
    qed
    have "links (set fl) \<subseteq> farea ?B" using inv by (intro links_farea) (auto simp: heap_inv0_def)
    then show "same_outside (farea ?B) h (split_block b need h)"
      by (intro same_outside_mono [OF w(6)]) (auto simp: farea_simps)
    show "used ((b + need, s - need, False) # ys) = used ys" by (simp add: used_simps)
  qed (use need w(3-5) in simp_all)
qed

lemma heap_take_effect:
  assumes inv: "heap_inv h B fl" and b: "(b, s, False) \<in> set B"
    and need: "16 dvd need" "64 \<le> need" "need \<le> s" "need \<le> 2 ^ 63"
  obtains h' B' fl' n where "heap_take need b h = (b + 32, h')" "heap_inv h' B' fl'"
    "need \<le> n" "n \<le> s" "n < need + 64" "used B' = insert (b, n) (used B)" "same_outside (farea B) h h'"
    "h_base h' = h_base h" "h_limit h' = h_limit h" "h_brk h' = h_brk h" "h_env h' = h_env h"
proof -
  obtain xs ys where B: "B = xs @ (b, s, False) # ys" using b by (metis split_list)
  obtain n ys' fl1 where i: "heap_inv (split_block b need h) (xs @ (b, n, False) # ys') fl1"
    "need \<le> n" "n \<le> s" "n < need + 64" "used ys' = used ys"
    "farea (xs @ (b, n, False) # ys') = farea B" "same_outside (farea B) h (split_block b need h)"
    "h_base (split_block b need h) = h_base h" "h_limit (split_block b need h) = h_limit h"
    "h_brk (split_block b need h) = h_brk h"
    unfolding B by (rule split_block_step [OF inv [unfolded B] need])
  let ?h = "fl_remove b (set_footer b (set_magic b HEAP_MAGIC_USED (split_block b need h)))"
  have "same_outside (farea B) (split_block b need h) ?h"
    using take_block_frame [OF i(1), of b n] i(6) by simp
  then have "same_outside (farea B) h ?h" by (rule same_outside_trans [OF i(7)])
  moreover have "used (xs @ (b, n, True) # ys') = insert (b, n) (used B)"
    using i(5) by (simp add: used_simps B)
  ultimately show thesis
    using that [OF _ take_block_inv [OF i(1)] i(2-4)] i(8-10)
    by (simp add: heap_take_def Let_def HEADER_SIZE_def set_magic_def)
qed

section \<open>The search\<close>

text \<open>The search along the free list returns the first block that is large enough.\<close>

lemma heap_search_find:
  assumes "dseg (wv h) p fl x q 0" "0 \<notin> set fl" "\<forall>c \<in> set fl. 8 dvd c"
  shows "heap_search need h x = Some (case find (\<lambda>c. need \<le> wv h (c + 8)) fl of None \<Rightarrow> 0 | Some c \<Rightarrow> c)"
  using assms
proof (induction fl arbitrary: p x)
  case Nil
  then show ?case by (subst heap_search.simps) simp
next
  case (Cons c cs)
  then have c: "x = c" "c \<noteq> 0" "b_size h c = wv h (c + 8)" "b_next h c = wv h (c + 16)"
    "dseg (wv h) c cs (wv h (c + 16)) q 0"
    by (auto simp: b_fields)
  with Cons.IH [OF c(5)] Cons.prems(2,3) show ?case by (subst heap_search.simps) (simp add: c)
qed

lemma heap_search_effect:
  assumes inv: "heap_inv h B fl"
  obtains "heap_search need h (h_free_list h) = Some 0" "\<And>b s. (b, s, False) \<in> set B \<Longrightarrow> s < need"
  | b s where "heap_search need h (h_free_list h) = Some b" "b \<noteq> 0" "(b, s, False) \<in> set B" "need \<le> s"
proof -
  have d: "dlist (wv h) fl (h_free_list h)" and fr: "set fl = free_addrs B" using inv by (auto simp: heap_inv0_def)
  then obtain q where "dseg (wv h) 0 fl (h_free_list h) q 0" by (auto simp: dlist_def)
  note e = heap_search_find [OF this inv_fl(2) [OF inv], of need]
  have sz: "wv h (c + 8) = s" if "(c, s, False) \<in> set B" for c s using inv_blk(9) [OF inv that] by simp
  show thesis
  proof (cases "find (\<lambda>c. need \<le> wv h (c + 8)) fl")
    case None
    have "s < need" if "(b, s, False) \<in> set B" for b s
    proof -
      have "b \<in> set fl" using that fr by (auto simp: free_addrs_def)
      then show ?thesis using None sz [OF that] by (auto simp: find_None_iff)
    qed
    with None e inv_fl(6) [OF inv] show thesis by (intro that(1)) auto
  next
    case (Some b)
    then have "b \<in> set fl" "need \<le> wv h (b + 8)" by (auto simp: find_Some_iff)
    with e Some inv_fl(2,6) [OF inv] sz show thesis
      using inv_free [OF inv \<open>b \<in> set fl\<close>] by (metis that(2) option.simps(5))
  qed
qed

end
