(* ===== verification/Heap_Alloc.thy ===== *)
theory Heap_Alloc
  imports Heap_Take
begin

text \<open>
  Allocation from the heap.  The expansion callback is used through the contract in the locale
  \<open>heap_expander\<close>: under it the retry loop of \<open>heap_alloc\<close> ends, with a block of the requested size
  carved out of the free space, or with NULL, and only bytes outside the blocks in use are written.
\<close>

section \<open>The size of a block\<close>

lemma required_block_size:
  assumes "sz < 2 ^ 62"
  shows "16 dvd required_block_size sz" "64 \<le> required_block_size sz" "sz + 48 \<le> required_block_size sz"
    "required_block_size sz < 2 ^ 63" "required_block_size sz \<le> max sz 16 + 63"
proof -
  define p where "p = max sz 16"
  have p: "p < 2 ^ 62" "16 \<le> p" "sz \<le> p" using assms by (auto simp: p_def)
  have "required_block_size sz = (p + 63) div 16 * 16"
    using p by (simp add: required_block_size_def Let_def heap_consts p_def max_def add64_id ALIGN_UP_def add.commute)
  then show "16 dvd required_block_size sz" "64 \<le> required_block_size sz" "sz + 48 \<le> required_block_size sz"
    "required_block_size sz < 2 ^ 63" "required_block_size sz \<le> max sz 16 + 63"
    using p by (simp_all add: p_def [symmetric])
qed

section \<open>The contract of the expansion callback\<close>

locale heap_expander =
  fixes expand :: "'e expand_fn" and good :: "'e heap_state \<Rightarrow> bool" and most :: nat
  assumes good_cong: "good h \<Longrightarrow> h_base h' = h_base h \<Longrightarrow> h_limit h' = h_limit h \<Longrightarrow>
      h_brk h' = h_brk h \<Longrightarrow> h_env h' = h_env h \<Longrightarrow> good h'"
    and expand_fails: "heap_inv h B fl \<Longrightarrow> good h \<Longrightarrow> want \<le> most \<Longrightarrow> expand want h = (rc, h') \<Longrightarrow> rc \<noteq> 0 \<Longrightarrow>
      good h' \<and> (\<exists>e. h' = h\<lparr>h_env := e\<rparr>)"
    and expand_grows: "heap_inv h B fl \<Longrightarrow> good h \<Longrightarrow> want \<le> most \<Longrightarrow> expand want h = (0, h') \<Longrightarrow>
      good h' \<and> h_base h' = h_base h \<and> h_limit h' = h_limit h \<and> h_brk h < h_brk h' \<and>
      heap_inv h' (B @ [(h_base h + h_brk h, h_brk h' - h_brk h, False)]) ((h_base h + h_brk h) # fl) \<and>
      same_outside (spare h B) h h'"
begin

text \<open>What \<open>heap_alloc\<close> promises: NULL, or a new block of at least the size asked for.\<close>

definition alloc_post :: "nat \<Rightarrow> 'e heap_state \<Rightarrow> blk list \<Rightarrow> nat \<times> 'e heap_state \<Rightarrow> bool" where
  "alloc_post need h B r \<longleftrightarrow> (case r of (p, h') \<Rightarrow>
     good h' \<and> h_base h' = h_base h \<and> h_limit h' = h_limit h \<and> same_outside (spare h B) h h' \<and>
     (\<exists>B' fl'. heap_inv h' B' fl' \<and>
       (if p = 0 then used B' = used B
        else \<exists>b n. p = b + 32 \<and> need \<le> n \<and> used B' = insert (b, n) (used B) \<and> {b..<b + n} \<inter> uarea B = {})))"

lemma alloc_loop:
  assumes "heap_inv h B fl" "good h" "16 dvd need" "64 \<le> need" "need \<le> 2 ^ 63" "need \<le> most"
  shows "\<exists>r. heap_alloc_loop (Some expand) need h = Some r \<and> alloc_post need h B r"
  using assms
proof (induction "h_limit h - h_brk h" arbitrary: h B fl rule: less_induct)
  case less
  note inv = less.prems(1)
  from inv show ?case
  proof (rule heap_search_effect [of h B fl need])
    assume s: "heap_search need h (h_free_list h) = Some 0"
    obtain rc h' where e: "expand need h = (rc, h')" by fastforce
    show ?thesis
    proof (cases "rc = 0")
      case False
      with expand_fails [OF inv less.prems(2,6) e] obtain x where h': "good h'" "h' = h\<lparr>h_env := x\<rparr>" by blast
      have "heap_inv h' B fl" using inv by (rule heap_inv0_cong) (simp_all add: h' wv_def fun_eq_iff)
      moreover have "heap_alloc_loop (Some expand) need h = Some (0, h')"
        using False by (subst heap_alloc_loop.simps) (simp add: s e)
      ultimately show ?thesis using h' by (auto simp: alloc_post_def same_outside_def)
    next
      case True
      let ?B = "B @ [(h_base h + h_brk h, h_brk h' - h_brk h, False)]"
      from True expand_grows [OF inv less.prems(2,6), of h'] e
      have g: "good h'" "h_base h' = h_base h" "h_limit h' = h_limit h" "h_brk h < h_brk h'"
        "heap_inv h' ?B ((h_base h + h_brk h) # fl)" "same_outside (spare h B) h h'" by auto
      have u: "used ?B = used B" by (simp add: used_simps)
      then have sp: "spare h' ?B = spare h B" "uarea ?B = uarea B" using g by (simp_all add: spare_def uarea_def)
      have "h_brk h' \<le> h_limit h'" using g(5) by (simp add: heap_inv0_def)
      then have "h_limit h' - h_brk h' < h_limit h - h_brk h" using g by simp
      from less.hyps [OF this g(5,1) less.prems(3-6)] obtain r where
        r: "heap_alloc_loop (Some expand) need h' = Some r" "alloc_post need h' ?B r" by blast
      have "heap_alloc_loop (Some expand) need h = heap_alloc_loop (Some expand) need h'"
        using True by (subst heap_alloc_loop.simps) (simp add: s e)
      moreover have "alloc_post need h B r"
        using r(2) g(2,3) same_outside_trans [OF g(6)] by (auto simp: alloc_post_def sp u split: prod.splits)
      ultimately show ?thesis using r(1) by simp
    qed
  next
    fix b s assume b: "heap_search need h (h_free_list h) = Some b" "b \<noteq> 0" "(b, s, False) \<in> set B" "need \<le> s"
    obtain h' B' fl' n where t: "heap_take need b h = (b + 32, h')" "heap_inv h' B' fl'"
      "need \<le> n" "n \<le> s" "n < need + 64" "used B' = insert (b, n) (used B)" "same_outside (farea B) h h'"
      "h_base h' = h_base h" "h_limit h' = h_limit h" "h_brk h' = h_brk h" "h_env h' = h_env h"
      by (rule heap_take_effect [OF inv b(3) less.prems(3,4) b(4) less.prems(5)])
    have "{b..<b + n} \<subseteq> farea B" using b(3) t(4) by (fastforce simp: farea_def)
    then have "{b..<b + n} \<inter> uarea B = {}" using farea_spare [OF inv] by (auto simp: spare_def)
    moreover have "good h'" by (rule good_cong [OF less.prems(2) t(8-11)])
    moreover have "same_outside (spare h B) h h'" by (rule same_outside_mono [OF t(7) farea_spare [OF inv]])
    ultimately have "alloc_post need h B (b + 32, h')"
      using t by (auto simp: alloc_post_def)
    moreover have "heap_alloc_loop (Some expand) need h = Some (b + 32, h')"
      by (subst heap_alloc_loop.simps) (simp add: b(1,2) t(1))
    ultimately show ?thesis by blast
  qed
qed

lemma heap_alloc_returns:
  assumes "heap_inv h B fl" "good h" "sz < 2 ^ 62" "required_block_size sz \<le> most"
  obtains p h' where "heap_alloc (Some expand) sz h = Some (p, h')"
    "alloc_post (required_block_size sz) h B (p, h')"
  using alloc_loop [OF assms(1,2), of "required_block_size sz"] required_block_size [OF assms(3)] assms(4)
  by (force simp: heap_alloc_def)

end

end
