(* ===== verification/Heap_Realloc.thy ===== *)
theory Heap_Realloc
  imports Heap_Alloc
begin

text \<open>
  Writing the payload of blocks in use, and \<open>heap_realloc\<close>: under the contract of the expansion
  callback it returns, and a block that moves keeps its contents.
\<close>

section \<open>Payloads\<close>

definition parea :: "(nat \<times> nat) set \<Rightarrow> nat set" where
  "parea U = {x. \<exists>(a, s) \<in> U. a + 32 \<le> x \<and> x + 16 < a + s}"

lemma parea_mono: "U \<subseteq> V \<Longrightarrow> parea U \<subseteq> parea V"
  by (auto simp: parea_def)

lemma parea_word:
  assumes inv: "heap_inv0 D h B fl" and c: "(c, t, u) \<in> set B" and x: "c \<le> x" "x + 8 \<le> c + t"
    and out: "\<not> u \<or> x + 8 \<le> c + 32 \<or> c + t - 16 \<le> x"
  shows "{x..<x + 8} \<inter> parea (used B) = {}"
proof -
  have "\<not> (a + 32 \<le> y \<and> y + 16 < a + s)" if "(a, s) \<in> used B" "x \<le> y" "y < x + 8" for a s y
  proof (cases "a = c")
    case True
    then have "s = t \<and> u"
      using laid_same_addr [of "h_base h" B "h_base h + h_brk h" c s True t u] that(1) c inv
      by (auto simp: used_def heap_inv0_def)
    then show ?thesis using True out that(2,3) inv_blk(3) [OF inv c] by auto
  next
    case False
    have "(a, s, True) \<in> set B" using that(1) by (simp add: used_def)
    from inv_disjoint [OF inv this c False] show ?thesis using x that(2,3) by auto
  qed
  then show ?thesis by (auto simp: parea_def)
qed

text \<open>The owner of a block may write its payload.\<close>

lemma heap_inv_payload:
  assumes inv: "heap_inv h B fl" and same: "same_outside (parea (used B)) h h'"
    and f: "h_base h' = h_base h" "h_limit h' = h_limit h" "h_brk h' = h_brk h" "h_free_list h' = h_free_list h"
  shows "heap_inv h' B fl"
proof -
  have w: "wv h' x = wv h x" if "(c, t, u) \<in> set B" "c \<le> x" "x + 8 \<le> c + t" "\<not> u \<or> x + 8 \<le> c + 32 \<or> c + t - 16 \<le> x"
    for c t u x
    by (rule same_outside_wv [OF same parea_word [OF inv that]])
  have "blk_ok (wv h') x" if x: "x \<in> set B" for x
  proof -
    obtain c t u where [simp]: "x = (c, t, u)" by (rule prod_cases3)
    have i: "(c, t, u) \<in> set B" using x by simp
    have "wv h' c = wv h c" "wv h' (c + 8) = wv h (c + 8)" "wv h' (c + t - 8) = wv h (c + t - 8)"
      "wv h' (c + t - 16) = wv h (c + t - 16)"
      using inv_blk(3) [OF inv i] by (auto intro!: w [OF i])
    then show ?thesis using inv_blk(9) [OF inv i] by simp
  qed
  moreover have "dlist (wv h') fl (h_free_list h) = dlist (wv h) fl (h_free_list h)"
  proof (rule dlist_cong)
    fix c assume "c \<in> set fl"
    then obtain t where i: "(c, t, False) \<in> set B" using inv_free [OF inv] by metis
    then show "wv h' (c + 16) = wv h (c + 16) \<and> wv h' (c + 24) = wv h (c + 24)"
      using inv_blk(3) [OF inv i] by (auto intro!: w [OF i])
  qed
  ultimately show ?thesis using inv f by (auto simp: heap_inv0_def)
qed

section \<open>The copy\<close>

lemma copy_bytes_at:
  assumes "dst + n \<le> src \<or> src + n \<le> dst"
  shows "copy_bytes dst src n m x = (if dst \<le> x \<and> x < dst + n then m (src + (x - dst)) else m x)"
  using assms
proof (induction n arbitrary: x)
  case 0
  then show ?case by (auto simp: copy_bytes_def)
next
  case (Suc n)
  have "copy_bytes dst src (Suc n) m = (copy_bytes dst src n m)(dst + n := copy_bytes dst src n m (src + n))"
    by (simp add: copy_bytes_def)
  moreover have "dst + n \<le> src \<or> src + n \<le> dst" using Suc.prems by auto
  ultimately show ?case using Suc.prems by (auto simp: Suc.IH)
qed

section \<open>Resizing\<close>

lemma uarea_memD: "(a, s) \<in> used B \<Longrightarrow> a \<le> x \<Longrightarrow> x < a + s \<Longrightarrow> x \<in> uarea B"
  by (auto simp: uarea_def)

lemma same_spare:
  "same_outside (spare h B) h h' \<Longrightarrow> (a, s) \<in> used B \<Longrightarrow> a \<le> x \<Longrightarrow> x < a + s \<Longrightarrow> h_mem h' x = h_mem h x"
  by (auto simp: same_outside_def spare_def dest: uarea_memD)

lemma used_blk:
  assumes "heap_inv h B fl" "(b, s) \<in> used B"
  shows "(b, s, True) \<in> set B" "b_magic h b = HEAP_MAGIC_USED" "b_size h b = s" "sub64 (b + 32) 32 = b"
    "64 \<le> s" "b + s < 2 ^ 64" "16 dvd b"
proof -
  show i: "(b, s, True) \<in> set B" using assms(2) by (simp add: used_def)
  note b = inv_blk [OF assms(1) i]
  show "b_magic h b = HEAP_MAGIC_USED" "b_size h b = s" "sub64 (b + 32) 32 = b" "64 \<le> s" "b + s < 2 ^ 64" "16 dvd b"
    using b by (simp_all add: b_fields sub64_id)
qed

lemma used_same: "heap_inv h B fl \<Longrightarrow> (b, s) \<in> used B \<Longrightarrow> (b, t) \<in> used B \<Longrightarrow> s = t"
  using laid_same_addr [of "h_base h" B "h_base h + h_brk h" b s True t True] by (auto simp: used_def heap_inv0_def)

context heap_expander
begin

lemma realloc_moves:
  assumes inv: "heap_inv h B fl" and "good h" and b: "(b, s) \<in> used B"
    and post: "alloc_post (required_block_size sz) h B (p, h1)" "p \<noteq> 0" and sz: "sz < 2 ^ 62" "s < required_block_size sz"
  defines "k \<equiv> min (s - 48) sz"
  defines "h2 \<equiv> heap_free (b + 32) (h1\<lparr>h_mem := copy_bytes p (b + 32) k (h_mem h1)\<rparr>)"
  shows "\<exists>B' fl' a n. heap_inv h2 B' fl' \<and> good h2 \<and> h_base h2 = h_base h \<and> h_limit h2 = h_limit h \<and>
    p = a + 32 \<and> required_block_size sz \<le> n \<and> used B' = insert (a, n) (used B - {(b, s)}) \<and> (\<forall>t. (a, t) \<notin> used B - {(b, s)}) \<and>
    (\<forall>i < k. h_mem h2 (p + i) = h_mem h (b + 32 + i)) \<and>
    (\<forall>(c, t) \<in> used B - {(b, s)}. \<forall>x. c \<le> x \<and> x < c + t \<longrightarrow> h_mem h2 x = h_mem h x)"
proof -
  obtain B1 fl1 a n where a: "heap_inv h1 B1 fl1" "p = a + 32" "required_block_size sz \<le> n"
    "used B1 = insert (a, n) (used B)" "{a..<a + n} \<inter> uarea B = {}" "good h1"
    "h_base h1 = h_base h" "h_limit h1 = h_limit h" "same_outside (spare h B) h h1"
    using post by (auto simp: alloc_post_def)
  note rb = required_block_size [OF sz(1)]
  note u = used_blk [OF inv b]
  have n: "sz + 48 \<le> n" "s < n" "64 \<le> n" using a(3) rb sz by linarith+
  have k: "k \<le> sz" "k + 48 \<le> s" using u(5) by (auto simp: k_def)
  have ap: "y < b \<or> b + s \<le> y" if "a \<le> y" "y < a + n" for y
    using a(5) uarea_memD [OF b, of y] that by fastforce
  have "\<not> (a \<le> b \<and> b < a + n)" "\<not> (b \<le> a \<and> a < b + s)" using ap [of b] ap [of a] u(5) n by auto
  then have dis: "a + n \<le> b \<or> b + s \<le> a" by linarith
  define h1' where "h1' = h1\<lparr>h_mem := copy_bytes p (b + 32) k (h_mem h1)\<rparr>"
  have m: "h_mem h1' x = (if p \<le> x \<and> x < p + k then h_mem h1 (b + 32 + (x - p)) else h_mem h1 x)" for x
  proof -
    have "p + k \<le> b + 32 \<or> b + 32 + k \<le> p" using dis k n by (auto simp: a(2))
    then show ?thesis unfolding h1'_def by (simp add: copy_bytes_at)
  qed
  have inv1: "heap_inv h1' B1 fl1"
  proof (rule heap_inv_payload [OF a(1)])
    show "same_outside (parea (used B1)) h1 h1'"
      using k n by (auto simp: same_outside_def m a(2,4) parea_def)
  qed (simp_all add: h1'_def)
  have b1: "(b, s) \<in> used B1" using b a(4) by simp
  obtain B' fl' where f: "heap_inv h2 B' fl'" "used B' = used B1 - {(b, s)}" "same_outside (spare h1' B') h1' h2"
    "h_base h2 = h_base h1'" "h_limit h2 = h_limit h1'" "h_brk h2 = h_brk h1'" "h_env h2 = h_env h1'"
    unfolding h2_def h1'_def [symmetric] by (rule heap_free_effect [OF inv1 b1])
  have ne: "(a, n) \<noteq> (b, s)" using n by auto
  have g: "good h2" by (rule good_cong [OF a(6)]) (simp_all add: f h1'_def)
  have cp: "h_mem h2 (p + i) = h_mem h (b + 32 + i)" if "i < k" for i
  proof -
    have "h_mem h2 (p + i) = h_mem h1' (p + i)"
      using that k n ne by (intro same_spare [OF f(3), of a n]) (auto simp: f(2) a(2,4))
    also have "\<dots> = h_mem h1 (b + 32 + i)" using that by (simp add: m)
    also have "\<dots> = h_mem h (b + 32 + i)"
      using that k by (intro same_spare [OF a(9) b]) auto
    finally show ?thesis .
  qed
  have rest: "h_mem h2 x = h_mem h x" if "(c, t) \<in> used B" "(c, t) \<noteq> (b, s)" "c \<le> x" "x < c + t" for c t x
  proof -
    have "x \<notin> {a..<a + n}" using a(5) uarea_memD [OF that(1,3,4)] by auto
    then have "\<not> (p \<le> x \<and> x < p + k)" using k n by (auto simp: a(2))
    then have "h_mem h1' x = h_mem h1 x" by (auto simp: m)
    moreover have "h_mem h2 x = h_mem h1' x" using that by (intro same_spare [OF f(3), of c t]) (auto simp: f(2) a(4))
    moreover have "h_mem h1 x = h_mem h x" by (rule same_spare [OF a(9) that(1,3,4)])
    ultimately show ?thesis by simp
  qed
  have "used B' = insert (a, n) (used B - {(b, s)})" using f(2) a(4) ne by auto
  moreover have "\<forall>(c, t) \<in> used B - {(b, s)}. \<forall>x. c \<le> x \<and> x < c + t \<longrightarrow> h_mem h2 x = h_mem h x"
    using rest by blast
  moreover have "h_base h2 = h_base h" "h_limit h2 = h_limit h" using f(4,5) a(7,8) by (simp_all add: h1'_def)
  moreover have "\<forall>t. (a, t) \<notin> used B - {(b, s)}"
  proof (intro allI notI)
    fix t assume t: "(a, t) \<in> used B - {(b, s)}"
    have "a \<in> uarea B" using t used_blk(5) [OF inv, of a t] by (intro uarea_memD [of a t]) auto
    moreover have "a \<in> {a..<a + n}" using n(3) by simp
    ultimately show False using a(5) by blast
  qed
  ultimately show ?thesis using f(1) g a(2,3) cp by blast
qed

lemma heap_realloc_returns:
  assumes inv: "heap_inv h B fl" and good: "good h" and b: "(b, s) \<in> used B"
    and sz: "0 < sz" "sz < 2 ^ 62" "required_block_size sz \<le> most"
  shows "\<exists>p h' B' fl'. heap_realloc (Some expand) (b + 32) sz h = Some (p, h') \<and> heap_inv h' B' fl' \<and>
    good h' \<and> h_base h' = h_base h \<and> h_limit h' = h_limit h \<and>
    (\<forall>c t x. (c, t) \<in> used B - {(b, s)} \<longrightarrow> c \<le> x \<longrightarrow> x < c + t \<longrightarrow> h_mem h' x = h_mem h x) \<and>
    (p = 0 \<longrightarrow> used B' = used B \<and> same_outside (spare h B) h h') \<and>
    (p \<noteq> 0 \<longrightarrow> (\<exists>a n. p = a + 32 \<and> required_block_size sz \<le> n \<and> used B' = insert (a, n) (used B - {(b, s)}) \<and>
       (\<forall>t. (a, t) \<notin> used B - {(b, s)}) \<and> (\<forall>i < min (s - 48) sz. h_mem h' (p + i) = h_mem h (b + 32 + i))))"
proof -
  have fin: ?thesis
    if f: "heap_realloc (Some expand) (b + 32) sz h = Some (p, h')" "heap_inv h' B' fl'" "good h'" "h_base h' = h_base h" "h_limit h' = h_limit h"
      "\<And>c t x. (c, t) \<in> used B - {(b, s)} \<Longrightarrow> c \<le> x \<Longrightarrow> x < c + t \<Longrightarrow> h_mem h' x = h_mem h x"
      "p = 0 \<Longrightarrow> used B' = used B \<and> same_outside (spare h B) h h'"
      "p \<noteq> 0 \<Longrightarrow> \<exists>a n. p = a + 32 \<and> required_block_size sz \<le> n \<and> used B' = insert (a, n) (used B - {(b, s)}) \<and>
       (\<forall>t. (a, t) \<notin> used B - {(b, s)}) \<and> (\<forall>i < min (s - 48) sz. h_mem h' (p + i) = h_mem h (b + 32 + i))"
    for p h' B' fl'
    by (rule exI [of _ p], rule exI [of _ h'], rule exI [of _ B'], rule exI [of _ fl'], intro conjI allI impI f)
  note u = used_blk [OF inv b]
  show ?thesis
  proof (cases "required_block_size sz \<le> s")
    case True
    then have e: "heap_realloc (Some expand) (b + 32) sz h = Some (b + 32, h)"
      using u sz by (simp add: heap_realloc_def HEADER_SIZE_def)
    have "used B = insert (b, s) (used B - {(b, s)})" using b by auto
    moreover have "\<forall>t. (b, t) \<notin> used B - {(b, s)}" using used_same [OF inv b] by blast
    moreover have "\<forall>i < min (s - 48) sz. h_mem h (b + 32 + i) = h_mem h (b + 32 + i)" by simp
    ultimately have "\<exists>a n. b + 32 = a + 32 \<and> required_block_size sz \<le> n \<and> used B = insert (a, n) (used B - {(b, s)}) \<and>
        (\<forall>t. (a, t) \<notin> used B - {(b, s)}) \<and> (\<forall>i < min (s - 48) sz. h_mem h (b + 32 + i) = h_mem h (b + 32 + i))"
      using True by (intro exI [of _ b] exI [of _ s]) simp
    then show ?thesis by (intro fin [OF e inv good]) simp_all
  next
    case False
    obtain p h1 where a: "heap_alloc (Some expand) sz h = Some (p, h1)" "alloc_post (required_block_size sz) h B (p, h1)"
      by (rule heap_alloc_returns [OF inv good sz(2,3)])
    have old: "sub64 (sub64 s HEADER_SIZE) FOOTER_SIZE = s - 48" using u(5,6) by (simp add: heap_consts sub64_id)
    have to_copy: "(if s - 48 < sz then s - 48 else sz) = min (s - 48) sz" by auto
    have e: "heap_realloc (Some expand) (b + 32) sz h = Some (if p = 0 then (0, h1)
        else (p, heap_free (b + 32) (h1\<lparr>h_mem := copy_bytes p (b + 32) (min (s - 48) sz) (h_mem h1)\<rparr>)))"
      unfolding heap_realloc_def using u False sz(1) a(1)
      by (simp add: old [simplified heap_consts] heap_consts Let_def to_copy)
    show ?thesis
    proof (cases "p = 0")
      case True
      with a(2) obtain B' fl' where q: "heap_inv h1 B' fl'" "used B' = used B" "good h1" "h_base h1 = h_base h"
        "h_limit h1 = h_limit h" "same_outside (spare h B) h h1"
        by (auto simp: alloc_post_def)
      show ?thesis
      proof (rule fin [OF _ q(1,3,4,5)])
        show "heap_realloc (Some expand) (b + 32) sz h = Some (p, h1)" using True e by simp
        show "h_mem h1 x = h_mem h x" if "(c, t) \<in> used B - {(b, s)}" "c \<le> x" "x < c + t" for c t x
          using same_spare [OF q(6), of c t x] that by blast
      qed (use True q(2,6) in simp_all)
    next
      case False
      have lt: "s < required_block_size sz" using \<open>\<not> required_block_size sz \<le> s\<close> by simp
      define h2 where "h2 = heap_free (b + 32) (h1\<lparr>h_mem := copy_bytes p (b + 32) (min (s - 48) sz) (h_mem h1)\<rparr>)"
      obtain B' fl' c n where r: "heap_inv h2 B' fl'" "good h2" "h_base h2 = h_base h" "h_limit h2 = h_limit h"
        "p = c + 32" "required_block_size sz \<le> n" "used B' = insert (c, n) (used B - {(b, s)})" "\<forall>t. (c, t) \<notin> used B - {(b, s)}"
        "\<forall>i < min (s - 48) sz. h_mem h2 (p + i) = h_mem h (b + 32 + i)"
        "\<forall>(c, t) \<in> used B - {(b, s)}. \<forall>x. c \<le> x \<and> x < c + t \<longrightarrow> h_mem h2 x = h_mem h x"
        using realloc_moves [OF inv good b a(2) False sz(2) lt] unfolding h2_def [symmetric] by blast
      show ?thesis
      proof (rule fin [OF _ r(1-4)])
        show "heap_realloc (Some expand) (b + 32) sz h = Some (p, h2)" using e False by (simp add: h2_def)
        show "h_mem h2 x = h_mem h x" if "(c, t) \<in> used B - {(b, s)}" "c \<le> x" "x < c + t" for c t x
          using r(10) that by blast
      qed (use False r(5-9) in blast)+
    qed
  qed
qed

end

end
