(* ===== verification/SizeClass.thy ===== *)
theory SizeClass
  imports Prelude
begin

text \<open>
  The size-class cache in front of the kernel heap, \<open>kernel/mm/sizeclass.h\<close>: nine stacks of free
  objects, linked through the first word of the object itself.  A class index of -1 is \<open>None\<close>;
  the operations take the memory that holds the links.
\<close>

section \<open>Definitions\<close>

definition SIZECLASS_MIN_SHIFT :: nat where "SIZECLASS_MIN_SHIFT = 4"
definition SIZECLASS_MAX_SHIFT :: nat where "SIZECLASS_MAX_SHIFT = 12"
definition SIZECLASS_COUNT :: nat where "SIZECLASS_COUNT = SIZECLASS_MAX_SHIFT - SIZECLASS_MIN_SHIFT + 1"
definition SIZECLASS_CAP :: nat where "SIZECLASS_CAP = 64"

record sizeclass_cache =
  sc_head :: "nat list"
  sc_count :: "nat list"
  sc_hits :: nat
  sc_misses :: nat
  sc_spills :: nat

definition sizeclass_bytes :: "nat \<Rightarrow> nat" where
  "sizeclass_bytes ci = 2 ^ (SIZECLASS_MIN_SHIFT + ci)"

definition sizeclass_for_request :: "nat \<Rightarrow> nat option" where
  "sizeclass_for_request sz =
     (if sz = 0 \<or> sz > 2 ^ SIZECLASS_MAX_SHIFT then None
      else find (\<lambda>ci. sz \<le> sizeclass_bytes ci) [0..<SIZECLASS_COUNT])"

text \<open>The loop of \<open>sizeclass_for_payload\<close> stops at the first class that does not fit.\<close>

fun payload_class :: "nat \<Rightarrow> nat option \<Rightarrow> nat list \<Rightarrow> nat option" where
  "payload_class payload best [] = best"
| "payload_class payload best (ci # cis) =
     (if sizeclass_bytes ci \<le> payload then payload_class payload (Some ci) cis else best)"

definition sizeclass_for_payload :: "nat \<Rightarrow> nat option" where
  "sizeclass_for_payload payload =
     (case payload_class payload None [0..<SIZECLASS_COUNT] of
        None \<Rightarrow> None
      | Some best \<Rightarrow> if payload \<ge> sizeclass_bytes best * 2 then None else Some best)"

definition sizeclass_push ::
  "nat \<Rightarrow> nat \<Rightarrow> sizeclass_cache \<times> (nat \<Rightarrow> byte) \<Rightarrow> sizeclass_cache \<times> (nat \<Rightarrow> byte)" where
  "sizeclass_push ci obj s = (case s of (c, m) \<Rightarrow>
     (c\<lparr>sc_head := (sc_head c)[ci := obj], sc_count := (sc_count c)[ci := add32 (sc_count c ! ci) 1]\<rparr>,
      store64 m obj (sc_head c ! ci)))"

definition sizeclass_pop ::
  "nat \<Rightarrow> sizeclass_cache \<times> (nat \<Rightarrow> byte) \<Rightarrow> nat \<times> sizeclass_cache \<times> (nat \<Rightarrow> byte)" where
  "sizeclass_pop ci s = (case s of (c, m) \<Rightarrow>
     let obj = sc_head c ! ci in
     if obj = 0 then (0, c, m)
     else (obj,
           c\<lparr>sc_head := (sc_head c)[ci := load64 m obj], sc_count := (sc_count c)[ci := sub32 (sc_count c ! ci) 1]\<rparr>,
           store64 m obj 0))"

section \<open>Classes\<close>

lemmas sizeclass_consts = SIZECLASS_MIN_SHIFT_def SIZECLASS_MAX_SHIFT_def SIZECLASS_COUNT_def

lemma sizeclass_bytes: "sizeclass_bytes ci = 16 * 2 ^ ci"
  by (simp add: sizeclass_bytes_def sizeclass_consts power_add)

lemma sizeclass_bytes_mono: "i \<le> j \<Longrightarrow> sizeclass_bytes i \<le> sizeclass_bytes j"
  by (simp add: sizeclass_bytes)

text \<open>A request is served from the smallest class that holds it.\<close>

lemma sizeclass_for_request_Some:
  "sizeclass_for_request sz = Some ci \<longleftrightarrow>
   0 < sz \<and> sz \<le> sizeclass_bytes ci \<and> ci < 9 \<and> (\<forall>j < ci. sizeclass_bytes j < sz)"
proof -
  have "sz \<le> 4096" if "sz \<le> sizeclass_bytes ci" "ci < 9"
    using that sizeclass_bytes_mono [of ci 8] by (simp add: sizeclass_bytes)
  then show ?thesis
    by (auto simp: sizeclass_for_request_def find_upt_Some sizeclass_consts not_le)
qed

lemma sizeclass_for_request_None: "sizeclass_for_request sz = None \<longleftrightarrow> sz = 0 \<or> 4096 < sz"
proof -
  have "find (\<lambda>ci. sz \<le> sizeclass_bytes ci) [0..<9] \<noteq> None" if "sz \<le> 4096"
    using that by (auto simp: find_None_iff sizeclass_bytes intro!: exI [of _ 8])
  then show ?thesis by (auto simp: sizeclass_for_request_def sizeclass_consts not_less)
qed

lemma payload_class_fits:
  "payload_class payload best cis = Some ci \<Longrightarrow> best = Some ci \<or> ci \<in> set cis \<and> sizeclass_bytes ci \<le> payload"
  by (induction payload best cis rule: payload_class.induct) (auto split: if_splits)

text \<open>A freed object goes to the class whose size is at most its payload and more than half of it.\<close>

lemma sizeclass_for_payload_Some:
  "sizeclass_for_payload payload = Some ci \<Longrightarrow>
   ci < 9 \<and> sizeclass_bytes ci \<le> payload \<and> payload < 2 * sizeclass_bytes ci"
  using payload_class_fits [of payload None "[0..<9]"]
  by (auto simp: sizeclass_for_payload_def sizeclass_consts split: option.splits if_splits)

lemma sizeclass_for_payload_None:
  "sizeclass_for_payload payload = None \<longleftrightarrow> payload < 16 \<or> 8192 \<le> payload"
  by (simp add: sizeclass_for_payload_def sizeclass_consts upt_rec sizeclass_bytes)

section \<open>Stacks of free objects\<close>

fun chain :: "(nat \<Rightarrow> byte) \<Rightarrow> nat \<Rightarrow> nat list \<Rightarrow> bool" where
  "chain m x [] \<longleftrightarrow> x = 0"
| "chain m x (p # ps) \<longleftrightarrow> x = p \<and> p \<noteq> 0 \<and> chain m (load64 m p) ps"

lemma chain_cong: "(\<And>p. p \<in> set ps \<Longrightarrow> load64 m' p = load64 m p) \<Longrightarrow> chain m' x ps = chain m x ps"
  by (induction ps arbitrary: x) auto

lemma chain_less: "chain m x ps \<Longrightarrow> \<forall>p \<in> set ps. p < 2 ^ 64 \<Longrightarrow> x < 2 ^ 64"
  by (cases ps) auto

text \<open>The cache holds the objects \<open>cs ci\<close> in class \<open>ci\<close>.\<close>

definition cached :: "(nat \<Rightarrow> nat list) \<Rightarrow> nat set" where
  "cached cs = (\<Union>ci < 9. set (cs ci))"

definition cache_inv :: "sizeclass_cache \<Rightarrow> (nat \<Rightarrow> byte) \<Rightarrow> (nat \<Rightarrow> nat list) \<Rightarrow> bool" where
  "cache_inv c m cs \<longleftrightarrow> length (sc_head c) = 9 \<and> length (sc_count c) = 9 \<and>
     (\<forall>ci < 9. chain m (sc_head c ! ci) (cs ci) \<and> sc_count c ! ci = length (cs ci) \<and> length (cs ci) \<le> 64 \<and>
        distinct (cs ci) \<and> (\<forall>cj < 9. ci \<noteq> cj \<longrightarrow> set (cs ci) \<inter> set (cs cj) = {})) \<and>
     (\<forall>p \<in> cached cs. 8 dvd p \<and> p < 2 ^ 64)"

lemma cached_mem: "p \<in> set (cs ci) \<Longrightarrow> ci < 9 \<Longrightarrow> p \<in> cached cs"
  by (auto simp: cached_def)

lemma cached_upd: "ci < 9 \<Longrightarrow> cached (cs(ci := qs)) = (\<Union>cj \<in> {..<9} - {ci}. set (cs cj)) \<union> set qs"
  by (auto simp: cached_def split: if_splits)

lemma cache_inv_frame:
  assumes "cache_inv c m cs" "\<And>p i. p \<in> cached cs \<Longrightarrow> i < 8 \<Longrightarrow> m' (p + i) = m (p + i)"
    "sc_head c' = sc_head c" "sc_count c' = sc_count c"
  shows "cache_inv c' m' cs"
proof -
  have "chain m' (sc_head c ! ci) (cs ci) = chain m (sc_head c ! ci) (cs ci)" if "ci < 9" for ci
    using that by (intro chain_cong load64_cong assms(2) cached_mem) auto
  then show ?thesis using assms(1,3,4) by (simp add: cache_inv_def)
qed

lemma sizeclass_push_inv:
  assumes inv: "cache_inv c m cs" and ci: "ci < 9" "length (cs ci) < 64"
    and obj: "obj \<notin> cached cs" "8 dvd obj" "obj < 2 ^ 64" "obj \<noteq> 0"
    and push: "sizeclass_push ci obj (c, m) = (c', m')"
  shows "cache_inv c' m' (cs(ci := obj # cs ci))" "\<And>x. x < obj \<or> obj + 8 \<le> x \<Longrightarrow> m' x = m x"
    "cached (cs(ci := obj # cs ci)) = insert obj (cached cs)"
proof -
  have c': "c' = c\<lparr>sc_head := (sc_head c)[ci := obj], sc_count := (sc_count c)[ci := add32 (sc_count c ! ci) 1]\<rparr>"
    and m': "m' = store64 m obj (sc_head c ! ci)"
    using push by (auto simp: sizeclass_push_def)
  show "m' x = m x" if "x < obj \<or> obj + 8 \<le> x" for x using that by (simp add: m' mem_simps)
  show cd: "cached (cs(ci := obj # cs ci)) = insert obj (cached cs)" using ci by (auto simp: cached_def split: if_splits)
  have al: "8 dvd p \<and> p < 2 ^ 64" if "p \<in> cached cs" for p using inv that by (auto simp: cache_inv_def)
  have hd: "sc_head c ! cj < 2 ^ 64" if "cj < 9" for cj
    using inv that al cached_mem [of _ cs cj] by (intro chain_less [of m _ "cs cj"]) (auto simp: cache_inv_def)
  have ld: "load64 m' p = load64 m p" if "p \<in> cached cs" for p
    using that al [OF that] obj hd [OF ci(1)] by (auto simp: m' load64_store64)
  have "chain m' x (cs cj) = chain m x (cs cj)" if "cj < 9" for cj x
    using that by (intro chain_cong ld cached_mem) auto
  moreover have "load64 m' obj = sc_head c ! ci" unfolding m' by (rule load64_store64_same [OF hd [OF ci(1)]])
  moreover have "obj \<notin> set (cs cj)" if "cj < 9" for cj using obj(1) that by (auto simp: cached_def)
  moreover have "add32 (length (cs ci)) 1 = Suc (length (cs ci))" using ci(2) by (simp add: add32_id)
  ultimately show "cache_inv c' m' (cs(ci := obj # cs ci))"
    using inv ci obj by (auto simp: cache_inv_def c' cd nth_list_update)
qed

lemma sizeclass_pop_inv:
  assumes inv: "cache_inv c m cs" and ci: "ci < 9" and pop: "sizeclass_pop ci (c, m) = (p, c', m')"
  shows "cs ci = [] \<Longrightarrow> p = 0 \<and> c' = c \<and> m' = m"
    and "cs ci = q # qs \<Longrightarrow> p = q \<and> q \<noteq> 0 \<and> cache_inv c' m' (cs(ci := qs)) \<and>
      cached (cs(ci := qs)) = cached cs - {q} \<and> (\<forall>x. x < q \<or> q + 8 \<le> x \<longrightarrow> m' x = m x) \<and>
      sc_hits c' = sc_hits c \<and> sc_misses c' = sc_misses c \<and> sc_spills c' = sc_spills c"
proof -
  have ch: "chain m (sc_head c ! ci) (cs ci)" using inv ci by (simp add: cache_inv_def)
  show "cs ci = [] \<Longrightarrow> p = 0 \<and> c' = c \<and> m' = m" using ch pop by (simp add: sizeclass_pop_def)
  assume q: "cs ci = q # qs"
  then have h: "sc_head c ! ci = q" "q \<noteq> 0" "chain m (load64 m q) qs" using ch by auto
  then have c': "c' = c\<lparr>sc_head := (sc_head c)[ci := load64 m q], sc_count := (sc_count c)[ci := sub32 (sc_count c ! ci) 1]\<rparr>"
    and m': "m' = store64 m q 0" and p: "p = q"
    using pop by (auto simp: sizeclass_pop_def Let_def)
  have d: "q \<notin> set (cs cj)" "set qs \<inter> set (cs cj) = {}" "set (cs cj) \<inter> set qs = {}" if "cj < 9" "cj \<noteq> ci" for cj
  proof -
    have "set (cs ci) \<inter> set (cs cj) = {}" using inv ci that by (metis cache_inv_def)
    then show "q \<notin> set (cs cj)" "set qs \<inter> set (cs cj) = {}" "set (cs cj) \<inter> set qs = {}" by (auto simp: q)
  qed
  have d1: "distinct (q # qs)" using inv ci q by (metis cache_inv_def)
  have cd: "cached (cs(ci := qs)) = cached cs - {q}"
  proof -
    have "cs(ci := q # qs) = cs" using q by auto
    then show ?thesis using d1 d(1) cached_upd [OF ci, of cs qs] cached_upd [OF ci, of cs "q # qs"] by auto
  qed
  have al: "8 dvd r \<and> r < 2 ^ 64" if "r \<in> cached cs" for r using inv that by (auto simp: cache_inv_def)
  have qc: "q \<in> cached cs" using q ci by (intro cached_mem [of _ cs ci]) auto
  have ld: "load64 m' r = load64 m r" if "r \<in> cached cs" "r \<noteq> q" for r
    using that al [OF that(1)] al [OF qc] by (simp add: m' load64_store64)
  have "chain m' x (cs cj) = chain m x (cs cj)" if "cj < 9" "cj \<noteq> ci" for cj x
    using that d(1) by (intro chain_cong ld cached_mem) auto
  moreover have "chain m' x qs = chain m x qs" for x
    using d1 q ci by (intro chain_cong ld cached_mem [of _ cs ci]) auto
  moreover have "sub32 (Suc (length qs)) 1 = length qs" if "length qs < 64" using that by (simp add: sub32_id)
  moreover have "length qs < 64" using inv ci q unfolding cache_inv_def by (metis Suc_le_eq length_Cons)
  ultimately have "cache_inv c' m' (cs(ci := qs))"
    using inv ci q h cd d(2,3) by (auto simp: cache_inv_def c' nth_list_update)
  then show "p = q \<and> q \<noteq> 0 \<and> cache_inv c' m' (cs(ci := qs)) \<and>
      cached (cs(ci := qs)) = cached cs - {q} \<and> (\<forall>x. x < q \<or> q + 8 \<le> x \<longrightarrow> m' x = m x) \<and>
      sc_hits c' = sc_hits c \<and> sc_misses c' = sc_misses c \<and> sc_spills c' = sc_spills c"
    using p h(2) cd by (simp add: m' c' mem_simps)
qed

end
