(* ===== verification/Paging.thy ===== *)
theory Paging
  imports Pmm PageFlags
begin

text \<open>
  The four-level page tables of \<open>kernel/arch/x86_64/paging.c\<close>.  The tables live in the physical memory
  of the memory manager; a table is named by its physical address and an entry by its table and
  index.  \<open>vm_root\<close> is the PML4 the processor translates through (\<open>vmm_current_tables\<close>) and
  \<open>vm_kernel\<close> the kernel's own.  The structure lock makes each operation one step.  Translation
  caches (\<open>invlpg\<close>, PCIDs, shootdowns to other processors) and console messages are not represented.
\<close>

section \<open>State\<close>

record vm_state =
  vm_pmm :: pmm_state
  vm_root :: nat
  vm_kernel :: nat

definition on :: "u64 \<Rightarrow> u64 \<Rightarrow> bool" where
  "on e f \<longleftrightarrow> e AND f \<noteq> 0"

definition pt_entry :: "pmm_state \<Rightarrow> nat \<Rightarrow> nat \<Rightarrow> u64" where
  "pt_entry st table i = word_of_nat (load64 (phys_mem st) (table + 8 * i))"

definition set_entry :: "nat \<Rightarrow> nat \<Rightarrow> u64 \<Rightarrow> pmm_state \<Rightarrow> pmm_state" where
  "set_entry table i e st = st\<lparr>phys_mem := store64 (phys_mem st) (table + 8 * i) (unat e)\<rparr>"

definition entry_addr :: "u64 \<Rightarrow> nat" where
  "entry_addr e = unat (e AND PAGE_ADDR_MASK)"

definition zero_page :: "nat \<Rightarrow> pmm_state \<Rightarrow> pmm_state" where
  "zero_page p st = st\<lparr>phys_mem := mem_fill p PAGE_SIZE_BYTES 0 (phys_mem st)\<rparr>"

section \<open>The walk\<close>

definition split_huge_page :: "nat \<Rightarrow> nat \<Rightarrow> u64 \<Rightarrow> nat \<Rightarrow> pmm_state \<Rightarrow> nat \<times> pmm_state" where
  "split_huge_page table i entry level st =
     (case pmm_alloc_frame st of (new_phys, st) \<Rightarrow>
        if new_phys = 0 then (0, st)
        else let base_phys = entry AND PAGE_ADDR_MASK;
                 flags = entry AND NOT (PAGE_ADDR_MASK OR PAGE_FLAG_PS);
                 step = (if level = 1 then push_bit 21 1 else push_bit 12 1);
                 leaf_flag = (if level = 1 then PAGE_FLAG_PS else 0);
                 st = fold (\<lambda>j st. set_entry new_phys j ((base_phys + word_of_nat j * step) OR flags OR leaf_flag) st)
                        [0..<512] st
             in (new_phys, set_entry table i
                  (word_of_nat new_phys OR (entry AND (PAGE_FLAG_PRESENT OR PAGE_FLAG_WRITABLE OR PAGE_FLAG_USER))) st))"

text \<open>One level of the walk: the next table, made or split out when the walk may create it.\<close>

definition walk_level :: "bool \<Rightarrow> nat \<Rightarrow> nat \<Rightarrow> nat \<Rightarrow> pmm_state \<Rightarrow> nat option \<times> pmm_state" where
  "walk_level create level i table st =
     (let entry = pt_entry st table i in
      if \<not> on entry PAGE_FLAG_PRESENT
      then if \<not> create then (None, st)
           else (case pmm_alloc_frame st of (new_phys, st) \<Rightarrow>
             if new_phys = 0 then (None, st)
             else let st = zero_page new_phys st;
                      st = set_entry table i (word_of_nat new_phys OR PAGE_FLAG_PRESENT OR PAGE_FLAG_WRITABLE
                             OR PAGE_FLAG_USER) st
                  in (Some (entry_addr (pt_entry st table i)), st))
      else if (level = 1 \<or> level = 2) \<and> on entry PAGE_FLAG_PS
      then if \<not> create then (None, st)
           else (case split_huge_page table i entry level st of (new_phys, st) \<Rightarrow>
             if new_phys = 0 then (None, st)
             else (Some (entry_addr (pt_entry st table i)), st))
      else (Some (entry_addr entry), st))"

fun walk_levels :: "bool \<Rightarrow> (nat \<times> nat) list \<Rightarrow> nat \<Rightarrow> pmm_state \<Rightarrow> nat option \<times> pmm_state" where
  "walk_levels create [] table st = (Some table, st)"
| "walk_levels create ((level, i) # ls) table st =
     (case walk_level create level i table st of
        (None, st) \<Rightarrow> (None, st)
      | (Some table, st) \<Rightarrow> walk_levels create ls table st)"

definition walk_pte :: "u64 \<Rightarrow> bool \<Rightarrow> vm_state \<Rightarrow> (nat \<times> nat) option \<times> vm_state" where
  "walk_pte virt create v =
     (case walk_levels create [(0, PML4_INDEX virt), (1, PDPT_INDEX virt), (2, PD_INDEX virt)]
             (vm_root v) (vm_pmm v) of
        (None, st) \<Rightarrow> (None, v\<lparr>vm_pmm := st\<rparr>)
      | (Some table, st) \<Rightarrow> (Some (table, PT_INDEX virt), v\<lparr>vm_pmm := st\<rparr>))"

section \<open>Mappings\<close>

definition rd_pte :: "nat \<times> nat \<Rightarrow> vm_state \<Rightarrow> u64" where
  "rd_pte pte v = pt_entry (vm_pmm v) (fst pte) (snd pte)"

definition wr_pte :: "nat \<times> nat \<Rightarrow> u64 \<Rightarrow> vm_state \<Rightarrow> vm_state" where
  "wr_pte pte e v = v\<lparr>vm_pmm := set_entry (fst pte) (snd pte) e (vm_pmm v)\<rparr>"

definition paging_map :: "u64 \<Rightarrow> u64 \<Rightarrow> u64 \<Rightarrow> vm_state \<Rightarrow> vm_state" where
  "paging_map virt phys flags v =
     (case walk_pte virt True v of
        (None, v) \<Rightarrow> v
      | (Some pte, v) \<Rightarrow> wr_pte pte ((phys AND PAGE_ADDR_MASK) OR flags) v)"

definition paging_map_2m :: "u64 \<Rightarrow> u64 \<Rightarrow> u64 \<Rightarrow> vm_state \<Rightarrow> int \<times> vm_state" where
  "paging_map_2m virt phys flags v =
     (let P2M = 0x200000; st = vm_pmm v in
      if virt AND (P2M - 1) \<noteq> 0 \<or> phys AND (P2M - 1) \<noteq> 0 then (-1, v)
      else if PML4_INDEX virt < 256 then (-1, v)
      else let e4 = pt_entry st (vm_root v) (PML4_INDEX virt) in
      if \<not> on e4 PAGE_FLAG_PRESENT then (-1, v)
      else if on e4 PAGE_FLAG_PS then (-1, v)
      else let p3 = entry_addr e4; i3 = PDPT_INDEX virt; e3 = pt_entry st p3 i3 in
      if \<not> on e3 PAGE_FLAG_PRESENT then (-1, v)
      else case (if on e3 PAGE_FLAG_PS then split_huge_page p3 i3 e3 1 st else (1, st)) of (ok, st) \<Rightarrow>
        let v = v\<lparr>vm_pmm := st\<rparr> in
        if ok = 0 then (-1, v)
        else let p2 = entry_addr (pt_entry st p3 i3); pde = (p2, PD_INDEX virt); cur = rd_pte pde v;
                 leaf = phys OR (flags AND NOT PAGE_ADDR_MASK) OR PAGE_FLAG_PS in
          if on cur PAGE_FLAG_PRESENT
          then if on cur PAGE_FLAG_PS \<and> cur AND PAGE_ADDR_MASK = phys then (0, wr_pte pde leaf v) else (-1, v)
          else (0, wr_pte pde leaf v))"

definition paging_unmap :: "u64 \<Rightarrow> vm_state \<Rightarrow> vm_state" where
  "paging_unmap virt v =
     (case walk_pte virt False v of
        (None, v) \<Rightarrow> v
      | (Some pte, v) \<Rightarrow> if \<not> on (rd_pte pte v) PAGE_FLAG_PRESENT then v else wr_pte pte 0 v)"

definition paging_protect :: "u64 \<Rightarrow> u64 \<Rightarrow> vm_state \<Rightarrow> int \<times> vm_state" where
  "paging_protect virt flags v =
     (case walk_pte virt False v of
        (None, v) \<Rightarrow> (-1, v)
      | (Some pte, v) \<Rightarrow>
          if \<not> on (rd_pte pte v) PAGE_FLAG_PRESENT then (-1, v)
          else (0, wr_pte pte ((rd_pte pte v AND PAGE_ADDR_MASK) OR flags) v))"

definition paging_get_phys :: "u64 \<Rightarrow> vm_state \<Rightarrow> u64" where
  "paging_get_phys virt v =
     (case walk_pte virt False v of
        (None, v) \<Rightarrow> 0
      | (Some pte, v) \<Rightarrow> if \<not> on (rd_pte pte v) PAGE_FLAG_PRESENT then 0 else rd_pte pte v AND PAGE_ADDR_MASK)"

definition paging_get_flags :: "u64 \<Rightarrow> vm_state \<Rightarrow> u64" where
  "paging_get_flags virt v =
     (case walk_pte virt False v of
        (None, v) \<Rightarrow> 0
      | (Some pte, v) \<Rightarrow> if \<not> on (rd_pte pte v) PAGE_FLAG_PRESENT then 0 else rd_pte pte v AND NOT PAGE_ADDR_MASK)"

section \<open>Address spaces\<close>

definition paging_new_address_space :: "vm_state \<Rightarrow> nat \<times> vm_state" where
  "paging_new_address_space v =
     (case pmm_alloc_frame (vm_pmm v) of (new_phys, st) \<Rightarrow>
        if new_phys = 0 then (0, v\<lparr>vm_pmm := st\<rparr>)
        else let st = zero_page new_phys st;
                 st = fold (\<lambda>i st. set_entry new_phys i (pt_entry st (vm_kernel v) i) st) [PML4_USER_TOP..<512] st
             in (new_phys, v\<lparr>vm_pmm := st\<rparr>))"

definition paging_switch_to :: "nat \<Rightarrow> vm_state \<Rightarrow> vm_state" where
  "paging_switch_to new_pml4_phys v = (if new_pml4_phys = 0 then v else v\<lparr>vm_root := new_pml4_phys\<rparr>)"

definition paging_update_pml4_ptr :: "nat \<Rightarrow> vm_state \<Rightarrow> vm_state" where
  "paging_update_pml4_ptr phys v = v\<lparr>vm_root := phys\<rparr>"

section \<open>Copy on write\<close>

definition copy_page :: "nat \<Rightarrow> nat \<Rightarrow> pmm_state \<Rightarrow> pmm_state" where
  "copy_page dst src st =
     st\<lparr>phys_mem := (\<lambda>x. if dst \<le> x \<and> x < dst + PAGE_SIZE_BYTES then phys_mem st (src + (x - dst)) else phys_mem st x)\<rparr>"

definition paging_handle_cow_fault :: "u64 \<Rightarrow> u64 \<Rightarrow> vm_state \<Rightarrow> int \<times> vm_state" where
  "paging_handle_cow_fault fault_addr err_code v =
     (if err_code AND 3 \<noteq> 3 then (0, v)
      else let virt = fault_addr AND NOT (mask 12) in
      if PML4_INDEX virt \<ge> PML4_USER_TOP then (0, v)
      else case walk_pte virt False v of
        (None, v) \<Rightarrow> (0, v)
      | (Some pte, v) \<Rightarrow>
          let e = rd_pte pte v in
          if \<not> on e PAGE_FLAG_PRESENT \<or> \<not> on e PAGE_FLAG_USER \<or> \<not> on e PAGE_FLAG_COW then (0, v)
          else let old_phys = e AND PAGE_ADDR_MASK;
                   flags = (e AND NOT PAGE_ADDR_MASK AND NOT PAGE_FLAG_COW) OR PAGE_FLAG_WRITABLE in
            if pmm_get_frame_refcount (unat old_phys) (vm_pmm v) \<le> 1 then (1, wr_pte pte (old_phys OR flags) v)
            else case pmm_alloc_frame (vm_pmm v) of (new_phys, st) \<Rightarrow>
              if new_phys = 0 then (0, v\<lparr>vm_pmm := st\<rparr>)
              else let v = v\<lparr>vm_pmm := copy_page new_phys (unat old_phys) st\<rparr>;
                       v = wr_pte pte (word_of_nat new_phys OR flags) v
                   in (1, v\<lparr>vm_pmm := pmm_free_frame (unat old_phys) (vm_pmm v)\<rparr>))"

definition paging_user_fault_resolved :: "u64 \<Rightarrow> u64 \<Rightarrow> vm_state \<Rightarrow> int" where
  "paging_user_fault_resolved fault_addr err_code v =
     (let virt = fault_addr AND NOT (mask 12) in
      if PML4_INDEX virt \<ge> PML4_USER_TOP then 0
      else case walk_pte virt False v of
        (None, v) \<Rightarrow> 0
      | (Some pte, v) \<Rightarrow>
          let e = rd_pte pte v in
          if \<not> on e PAGE_FLAG_PRESENT \<or> \<not> on e PAGE_FLAG_USER then 0
          else if on err_code 2 \<and> \<not> on e (PAGE_FLAG_WRITABLE OR PAGE_FLAG_COW) then 0
          else if on err_code 0x10 \<and> on e PAGE_FLAG_NO_EXEC then 0
          else 1)"

end
