(* ===== verification/PageTable.thy ===== *)
theory PageTable
  imports Paging
begin

text \<open>
  What the page tables mean to the processor.  A reader \<open>R\<close> gives the entries of each table; \<open>tab\<close> is
  the table reached by a path of indices and \<open>mmu\<close> the translation of a page, named by its four
  indices, through 4 KiB, 2 MiB and 1 GiB leaves.  Changing one entry, or hanging a new table into
  an entry, changes the translation only below that entry, provided that no table is reached by
  two paths.
\<close>

section \<open>Translation\<close>

type_synonym reader = "nat \<Rightarrow> nat \<Rightarrow> u64"

definition is_leaf :: "nat \<Rightarrow> u64 \<Rightarrow> bool" where
  "is_leaf level e \<longleftrightarrow> level = 3 \<or> (level = 1 \<or> level = 2) \<and> on e PAGE_FLAG_PS"

text \<open>The table an entry of a table at the given level points to.\<close>

definition down :: "nat \<Rightarrow> u64 \<Rightarrow> nat option" where
  "down level e = (if on e PAGE_FLAG_PRESENT \<and> \<not> is_leaf level e then Some (entry_addr e) else None)"

fun tab :: "reader \<Rightarrow> nat \<Rightarrow> nat \<Rightarrow> nat list \<Rightarrow> nat option" where
  "tab R level t [] = Some t"
| "tab R level t (i # p) = (case down level (R t i) of None \<Rightarrow> None | Some t' \<Rightarrow> tab R (Suc level) t' p)"

text \<open>The number of the 4 KiB page inside a large leaf.\<close>

fun page_in :: "nat list \<Rightarrow> nat" where
  "page_in [] = 0"
| "page_in (i # p) = i * 512 ^ length p + page_in p"

definition leaf_map :: "u64 \<Rightarrow> nat list \<Rightarrow> u64 \<times> u64" where
  "leaf_map e w = (if w = [] then (e AND PAGE_ADDR_MASK, e AND NOT PAGE_ADDR_MASK)
     else ((e AND PAGE_ADDR_MASK) + word_of_nat (4096 * page_in w), e AND NOT (PAGE_ADDR_MASK OR PAGE_FLAG_PS)))"

fun mmu :: "reader \<Rightarrow> nat \<Rightarrow> nat \<Rightarrow> nat list \<Rightarrow> (u64 \<times> u64) option" where
  "mmu R level t [] = None"
| "mmu R level t (i # w) =
     (if \<not> on (R t i) PAGE_FLAG_PRESENT then None
      else if is_leaf level (R t i) then Some (leaf_map (R t i) w)
      else mmu R (Suc level) (entry_addr (R t i)) w)"

section \<open>Paths\<close>

lemma tab_append: "tab R level t (p @ q) = (case tab R level t p of None \<Rightarrow> None | Some a \<Rightarrow> tab R (level + length p) a q)"
  by (induction p arbitrary: level t) (auto split: option.splits)

lemma tab_snoc: "tab R level t (p @ [i]) = (case tab R level t p of None \<Rightarrow> None | Some a \<Rightarrow> down (level + length p) (R a i))"
  by (simp add: tab_append split: option.splits)

lemma mmu_append: "tab R level t p = Some a \<Longrightarrow> mmu R level t (p @ w) = mmu R (level + length p) a w"
proof (induction p arbitrary: level t)
  case (Cons i p)
  then show ?case by (auto simp: down_def split: option.splits if_splits)
qed simp

lemma tab_prefix: "tab R level t (p @ q) \<noteq> None \<Longrightarrow> tab R level t p \<noteq> None"
  by (auto simp: tab_append split: option.splits)

lemma tab_cong:
  assumes "\<And>k a. k < length p \<Longrightarrow> tab R level t (take k p) = Some a \<Longrightarrow> R' a (p ! k) = R a (p ! k)"
  shows "tab R' level t p = tab R level t p"
  using assms
proof (induction p arbitrary: level t)
  case (Cons i p)
  have e: "R' t i = R t i" using Cons.prems [of 0 t] by simp
  show ?case
  proof (cases "down level (R t i)")
    case (Some t')
    have "tab R' (Suc level) t' p = tab R (Suc level) t' p"
    proof (rule Cons.IH)
      show "R' a (p ! k) = R a (p ! k)" if "k < length p" "tab R (Suc level) t' (take k p) = Some a" for k a
        using Cons.prems [of "Suc k" a] that Some by simp
    qed
    then show ?thesis using e Some by simp
  qed (simp add: e)
qed simp

lemma mmu_cong:
  assumes "\<And>k a. k < length w \<Longrightarrow> tab R level t (take k w) = Some a \<Longrightarrow> R' a (w ! k) = R a (w ! k)"
  shows "mmu R' level t w = mmu R level t w"
  using assms
proof (induction w arbitrary: level t)
  case (Cons i w)
  have e: "R' t i = R t i" using Cons.prems [of 0 t] by simp
  show ?case
  proof (cases "on (R t i) PAGE_FLAG_PRESENT \<and> \<not> is_leaf level (R t i)")
    case True
    then have d: "down level (R t i) = Some (entry_addr (R t i))" by (simp add: down_def)
    have "mmu R' (Suc level) (entry_addr (R t i)) w = mmu R (Suc level) (entry_addr (R t i)) w"
    proof (rule Cons.IH)
      show "R' a (w ! k) = R a (w ! k)" if "k < length w" "tab R (Suc level) (entry_addr (R t i)) (take k w) = Some a" for k a
        using Cons.prems [of "Suc k" a] that d by simp
    qed
    then show ?thesis using e True by simp
  qed (auto simp: e)
qed simp

text \<open>No path is longer than the three levels above a leaf table.\<close>

lemma tab_length: "tab R 0 t p = Some a \<Longrightarrow> length p \<le> 3"
proof (induction p arbitrary: a rule: rev_induct)
  case (snoc i p)
  then have "length p \<noteq> 3" "length p \<le> 3" by (auto simp: tab_snoc down_def is_leaf_def split: option.splits if_splits)
  then show ?case by simp
qed simp

section \<open>Trees\<close>

definition tables :: "reader \<Rightarrow> nat \<Rightarrow> nat set" where
  "tables R root = {a. \<exists>p. set p \<subseteq> {..<512} \<and> tab R 0 root p = Some a}"

text \<open>No table is reached by two paths.\<close>

definition pt_tree :: "reader \<Rightarrow> nat \<Rightarrow> bool" where
  "pt_tree R root \<longleftrightarrow> (\<forall>p q a. set p \<subseteq> {..<512} \<longrightarrow> set q \<subseteq> {..<512} \<longrightarrow>
     tab R 0 root p = Some a \<longrightarrow> tab R 0 root q = Some a \<longrightarrow> p = q)"

text \<open>\<open>R'\<close> differs from \<open>R\<close> at entry \<open>i\<close> of table \<open>a\<close> and in tables that \<open>R\<close> does not use.\<close>

definition entry_changed :: "reader \<Rightarrow> nat \<Rightarrow> nat \<Rightarrow> nat \<Rightarrow> reader \<Rightarrow> bool" where
  "entry_changed R root a i R' \<longleftrightarrow> (\<forall>b \<in> tables R root. \<forall>j < 512. (b, j) \<noteq> (a, i) \<longrightarrow> R' b j = R b j)"

definition below :: "nat list \<Rightarrow> nat list \<Rightarrow> bool" where
  "below p w \<longleftrightarrow> take (length p) w = p"

lemma belowE: "below p w \<Longrightarrow> (\<And>v. w = p @ v \<Longrightarrow> thesis) \<Longrightarrow> thesis"
  by (metis append_take_drop_id below_def)

lemma below_append [simp]: "below p (p @ v)"
  by (simp add: below_def)

text \<open>The situation of the lemmas below: entry \<open>i\<close> of the table at path \<open>p\<close> changes.\<close>

definition at_entry :: "reader \<Rightarrow> nat \<Rightarrow> nat list \<Rightarrow> nat \<Rightarrow> nat \<Rightarrow> reader \<Rightarrow> bool" where
  "at_entry R root p a i R' \<longleftrightarrow> pt_tree R root \<and> set p \<subseteq> {..<512} \<and> i < 512 \<and>
     tab R 0 root p = Some a \<and> entry_changed R root a i R'"

lemma not_below_entry:
  assumes "at_entry R root p a i R'" "\<not> below (p @ [i]) w" "set w \<subseteq> {..<512}"
    and "k < length w" "tab R 0 root (take k w) = Some b"
  shows "R' b (w ! k) = R b (w ! k)"
proof (rule ccontr)
  assume ne: "R' b (w ! k) \<noteq> R b (w ! k)"
  have sk: "set (take k w) \<subseteq> {..<512}" by (rule order.trans [OF set_take_subset assms(3)])
  have T: "b \<in> tables R root" unfolding tables_def using assms(5) sk by blast
  have "w ! k \<in> set w" using assms(4) by simp
  then have k: "w ! k < 512" using assms(3) by (simp add: subset_iff)
  have at: "pt_tree R root" "set p \<subseteq> {..<512}" "tab R 0 root p = Some a" "entry_changed R root a i R'"
    using assms(1) by (simp_all add: at_entry_def)
  have "(b, w ! k) = (a, i)" using at(4) [unfolded entry_changed_def, rule_format, OF T k] ne by argo
  then have b: "b = a" "w ! k = i" by simp_all
  have t: "take k w = p" using at(1) sk at(2) assms(5) at(3) unfolding pt_tree_def b by blast
  have "take (Suc k) w = p @ [i]" using assms(4) b(2) t by (simp add: take_Suc_conv_app_nth)
  moreover have "length (take k w) = k" using assms(4) by simp
  then have "length p = k" by (simp only: t)
  ultimately have "below (p @ [i]) w" by (simp add: below_def)
  then show False using assms(2) by simp
qed

lemma mmu_elsewhere:
  "at_entry R root p a i R' \<Longrightarrow> \<not> below (p @ [i]) w \<Longrightarrow> set w \<subseteq> {..<512} \<Longrightarrow> mmu R' 0 root w = mmu R 0 root w"
  by (rule mmu_cong) (rule not_below_entry)

lemma tab_elsewhere:
  "at_entry R root p a i R' \<Longrightarrow> \<not> below (p @ [i]) q \<Longrightarrow> set q \<subseteq> {..<512} \<Longrightarrow> tab R' 0 root q = tab R 0 root q"
  by (rule tab_cong) (rule not_below_entry)

lemma tab_same: "at_entry R root p a i R' \<Longrightarrow> tab R' 0 root p = Some a"
  using tab_elsewhere [of R root p a i R' p] by (simp add: at_entry_def below_def)

text \<open>The translation of the pages below the entry.\<close>

lemma mmu_below: "at_entry R root p a i R' \<Longrightarrow> mmu R' 0 root (p @ [i] @ v) = mmu R' (length p) a (i # v)"
  using mmu_append [OF tab_same, of R root p a i R' "[i] @ v"] by simp

lemma mmu_below_old: "at_entry R root p a i R' \<Longrightarrow> mmu R 0 root (p @ [i] @ v) = mmu R (length p) a (i # v)"
  using mmu_append [of R 0 root p a "[i] @ v"] by (simp add: at_entry_def)

section \<open>Leaves\<close>

text \<open>Replacing an entry that leads to no table by another such entry.\<close>

lemma set_leaf:
  assumes at: "at_entry R root p a i R'" and "down (length p) (R a i) = None" "down (length p) (R' a i) = None"
  shows "pt_tree R' root" "tables R' root = tables R root"
    "\<And>q. set q \<subseteq> {..<512} \<Longrightarrow> tab R' 0 root q = tab R 0 root q"
proof -
  show t: "tab R' 0 root q = tab R 0 root q" if "set q \<subseteq> {..<512}" for q
  proof (cases "below (p @ [i]) q")
    case True
    then obtain v where q: "q = (p @ [i]) @ v" by (rule belowE)
    have "tab R 0 root p = Some a" using at by (simp add: at_entry_def)
    then show ?thesis using tab_same [OF at] assms(2,3) by (simp add: q tab_append)
  qed (use at that tab_elsewhere in blast)
  then show "tables R' root = tables R root" by (auto simp: tables_def)
  show "pt_tree R' root" using at t by (simp add: pt_tree_def at_entry_def)
qed

section \<open>New tables\<close>

text \<open>Hanging a table without children, so far unused, into an entry that led to no table.\<close>

lemma hang_table:
  assumes at: "at_entry R root p a i R'" and old: "down (length p) (R a i) = None"
    and new: "down (length p) (R' a i) = Some np" "np \<notin> tables R root"
    and kids: "\<forall>j < 512. down (Suc (length p)) (R' np j) = None"
  shows "pt_tree R' root" "tables R' root = insert np (tables R root)" "tab R' 0 root (p @ [i]) = Some np"
    "\<And>q. set q \<subseteq> {..<512} \<Longrightarrow>
      tab R' 0 root q = (if below (p @ [i]) q then if q = p @ [i] then Some np else None else tab R 0 root q)"
proof -
  have pi: "set (p @ [i]) \<subseteq> {..<512}" using at by (auto simp: at_entry_def)
  show np: "tab R' 0 root (p @ [i]) = Some np" using tab_same [OF at] new(1) by (simp add: tab_snoc)
  show t: "tab R' 0 root q = (if below (p @ [i]) q then if q = p @ [i] then Some np else None else tab R 0 root q)"
    if "set q \<subseteq> {..<512}" for q
  proof (cases "below (p @ [i]) q")
    case True
    then obtain v where q: "q = (p @ [i]) @ v" by (rule belowE)
    show ?thesis
    proof (cases v)
      case (Cons j v')
      then have "j < 512" using that q by auto
      then show ?thesis using True np kids Cons by (simp add: q tab_append del: append_assoc)
    qed (use np q True in simp)
  qed (use at that tab_elsewhere in simp)
  have o: "tab R 0 root q = None" if "below (p @ [i]) q" for q
  proof -
    from that obtain v where q: "q = (p @ [i]) @ v" by (rule belowE)
    have "tab R 0 root p = Some a" using at by (simp add: at_entry_def)
    then show ?thesis using old by (simp add: q tab_append)
  qed
  show "tables R' root = insert np (tables R root)"
  proof
    show "tables R' root \<subseteq> insert np (tables R root)" by (auto simp: tables_def t split: if_splits)
    have "a' \<in> tables R' root" if "a' \<in> tables R root" for a'
    proof -
      from that obtain q where q: "set q \<subseteq> {..<512}" "tab R 0 root q = Some a'" by (auto simp: tables_def)
      then have "tab R' 0 root q = Some a'" using o [of q] t [OF q(1)] by auto
      then show ?thesis using q(1) by (auto simp: tables_def)
    qed
    moreover have "np \<in> tables R' root" unfolding tables_def using np pi by blast
    ultimately show "insert np (tables R root) \<subseteq> tables R' root" by blast
  qed
  show "pt_tree R' root"
    unfolding pt_tree_def
  proof (intro allI impI)
    fix q r c assume q: "set q \<subseteq> {..<512}" "set r \<subseteq> {..<512}" "tab R' 0 root q = Some c" "tab R' 0 root r = Some c"
    have T: "c \<noteq> np" if "set q \<subseteq> {..<512}" "tab R 0 root q = Some c" for q using that new(2) by (auto simp: tables_def)
    have B: "c = np \<and> q = p @ [i]" if "set q \<subseteq> {..<512}" "tab R' 0 root q = Some c" "below (p @ [i]) q" for q
      using t [OF that(1)] that by (simp split: if_splits)
    have N: "c \<noteq> np \<and> tab R 0 root q = Some c" if "set q \<subseteq> {..<512}" "tab R' 0 root q = Some c" "\<not> below (p @ [i]) q" for q
      using t [OF that(1)] T [OF that(1)] that by simp
    have tr: "pt_tree R root" using at by (simp add: at_entry_def)
    show "q = r"
    proof (cases "c = np")
      case True
      then have "below (p @ [i]) q" "below (p @ [i]) r" using N [OF q(1,3)] N [OF q(2,4)] by auto
      then show ?thesis using B [OF q(1,3)] B [OF q(2,4)] by simp
    next
      case False
      then have "tab R 0 root q = Some c" "tab R 0 root r = Some c"
        using B [OF q(1,3)] B [OF q(2,4)] N [OF q(1,3)] N [OF q(2,4)] by auto
      then show ?thesis using tr q(1,2) unfolding pt_tree_def by blast
    qed
  qed
qed

text \<open>If the new table translates the pages below the entry as the entry did, nothing changes.\<close>

lemma hang_mmu:
  assumes at: "at_entry R root p a i R'" and new: "down (length p) (R' a i) = Some np"
    and same: "\<And>v. Suc (length p + length v) = 4 \<Longrightarrow> set v \<subseteq> {..<512} \<Longrightarrow>
      mmu R' (Suc (length p)) np v = mmu R (length p) a (i # v)"
    and w: "length w = 4" "set w \<subseteq> {..<512}"
  shows "mmu R' 0 root w = mmu R 0 root w"
proof (cases "below (p @ [i]) w")
  case True
  then obtain v where v: "w = (p @ [i]) @ v" by (rule belowE)
  have "mmu R' (length p) a (i # v) = mmu R' (Suc (length p)) np v"
    using new by (auto simp: down_def split: if_splits)
  also have "\<dots> = mmu R (length p) a (i # v)" using w v by (intro same) auto
  finally show ?thesis using mmu_below [OF at, of v] mmu_below_old [OF at, of v] v by simp
qed (use at w mmu_elsewhere in blast)

end
