(* ===== verification/Paging_Walk.thy ===== *)
theory Paging_Walk
  imports PageTable Pmm_Props
begin

text \<open>
  The page-table walk against the translation of \<open>PageTable\<close>: the bit patterns of entries, entries in
  memory, the invariant of the tables, and that a creating walk never changes a translation, also
  when it splits a large page into a table of smaller ones.
\<close>

section \<open>Entries\<close>

lemma PAGE_ADDR_MASK_bit: "bit PAGE_ADDR_MASK n \<longleftrightarrow> 12 \<le> n \<and> n < 52"
proof -
  have e: "PAGE_ADDR_MASK = mask 52 AND NOT (mask 12)" by (simp add: PAGE_ADDR_MASK_def mask_eq_exp_minus_1)
  show ?thesis unfolding e by (auto simp: bit_simps)
qed

lemma on_bit: "k < 64 \<Longrightarrow> on e (push_bit k 1) \<longleftrightarrow> bit e k"
proof -
  assume k: "k < 64"
  have "e AND push_bit k 1 = (if bit e k then push_bit k 1 else 0)"
    by (rule bit_word_eqI) (auto simp: bit_simps)
  moreover have b: "bit (push_bit k 1 :: u64) k" using k by (simp add: bit_push_bit_iff del: push_bit_of_1)
  have "(push_bit k 1 :: u64) \<noteq> 0"
  proof
    assume z: "(push_bit k 1 :: u64) = 0"
    from b have "bit (0 :: u64) k" unfolding z .
    then show False by simp
  qed
  ultimately show ?thesis by (simp add: on_def)
qed

lemma on_flags: "on e PAGE_FLAG_PRESENT \<longleftrightarrow> bit e 0" "on e PAGE_FLAG_WRITABLE \<longleftrightarrow> bit e 1"
  "on e PAGE_FLAG_USER \<longleftrightarrow> bit e 2" "on e PAGE_FLAG_PS \<longleftrightarrow> bit e 7" "on e PAGE_FLAG_COW \<longleftrightarrow> bit e 9"
  "on e PAGE_FLAG_NO_EXEC \<longleftrightarrow> bit e 63"
  unfolding PAGE_FLAG_PRESENT_def PAGE_FLAG_WRITABLE_def PAGE_FLAG_USER_def PAGE_FLAG_PS_def PAGE_FLAG_COW_def
    PAGE_FLAG_NO_EXEC_def by (simp_all only: on_bit)

lemma flag_bits: "bit PAGE_FLAG_PRESENT n \<longleftrightarrow> n = 0" "bit PAGE_FLAG_WRITABLE n \<longleftrightarrow> n = 1" "bit PAGE_FLAG_USER n \<longleftrightarrow> n = 2"
  "bit PAGE_FLAG_PS n \<longleftrightarrow> n = 7" "bit PAGE_FLAG_COW n \<longleftrightarrow> n = 9" "bit PAGE_FLAG_NO_EXEC n \<longleftrightarrow> n = 63"
  unfolding PAGE_FLAG_PRESENT_def PAGE_FLAG_WRITABLE_def PAGE_FLAG_USER_def PAGE_FLAG_PS_def PAGE_FLAG_COW_def
    PAGE_FLAG_NO_EXEC_def by (simp_all only: bit_push_bit_iff bit_1_iff) auto

definition addr_word :: "u64 \<Rightarrow> bool" where
  "addr_word x \<longleftrightarrow> x AND PAGE_ADDR_MASK = x"

lemma addr_word_bit: "addr_word x \<Longrightarrow> bit x n \<Longrightarrow> 12 \<le> n \<and> n < 52"
  unfolding addr_word_def by (metis PAGE_ADDR_MASK_bit bit_and_iff)

lemma addr_word_unat: "addr_word x \<longleftrightarrow> 4096 dvd unat x \<and> unat x < 2 ^ 52"
proof -
  have "x AND PAGE_ADDR_MASK = take_bit 52 (x AND NOT (mask 12))"
    by (rule bit_word_eqI) (auto simp: bit_simps PAGE_ADDR_MASK_bit)
  then have "unat (x AND PAGE_ADDR_MASK) = (unat x div 4096 * 4096) mod 2 ^ 52"
    using unat_and_not_mask [of x 12] by (simp only: unsigned_take_bit_eq) (simp add: take_bit_eq_mod)
  moreover have "addr_word x \<longleftrightarrow> unat (x AND PAGE_ADDR_MASK) = unat x" by (simp add: addr_word_def word_unat_eq_iff)
  moreover have "(u div 4096 * 4096) mod 2 ^ 52 = u \<longleftrightarrow> 4096 dvd u \<and> u < 2 ^ 52" for u :: nat
  proof
    assume e: "(u div 4096 * 4096) mod 2 ^ 52 = u"
    have "4096 dvd (u div 4096 * 4096) mod 2 ^ 52" by (rule dvd_mod) auto
    moreover have "(u div 4096 * 4096) mod 2 ^ 52 < 2 ^ 52" by simp
    ultimately show "4096 dvd u \<and> u < 2 ^ 52" by (simp only: e)
  qed simp
  ultimately show ?thesis by simp
qed

lemma addr_word_of_nat: "4096 dvd p \<Longrightarrow> p < 2 ^ 52 \<Longrightarrow> addr_word (word_of_nat p) \<and> unat (word_of_nat p :: u64) = p"
  by (simp add: addr_word_unat unat_of_nat)

lemma addr_word_and: "addr_word (e AND PAGE_ADDR_MASK)"
  by (simp add: addr_word_def and.assoc)

lemma entry_addr_page: "4096 dvd entry_addr e" "entry_addr e < 2 ^ 52"
  using addr_word_and [of e] by (simp_all add: addr_word_unat entry_addr_def)

text \<open>An entry made of an address and flag bits.\<close>

lemma entry_parts:
  assumes "addr_word a" "f AND PAGE_ADDR_MASK = 0"
  shows "(a OR f) AND PAGE_ADDR_MASK = a" "(a OR f) AND NOT PAGE_ADDR_MASK = f" "entry_addr (a OR f) = unat a"
    "n < 12 \<or> 52 \<le> n \<Longrightarrow> bit (a OR f) n = bit f n"
proof -
  have a: "bit a n \<Longrightarrow> 12 \<le> n \<and> n < 52" for n by (rule addr_word_bit [OF assms(1)])
  have f: "bit f n \<Longrightarrow> n < 12 \<or> 52 \<le> n" for n
  proof -
    assume "bit f n"
    moreover have "\<not> bit (f AND PAGE_ADDR_MASK) n" using assms(2) by simp
    ultimately show ?thesis by (auto simp: bit_and_iff PAGE_ADDR_MASK_bit)
  qed
  show m: "(a OR f) AND PAGE_ADDR_MASK = a" "(a OR f) AND NOT PAGE_ADDR_MASK = f"
    by (rule bit_word_eqI; use a f in \<open>fastforce simp: bit_simps PAGE_ADDR_MASK_bit\<close>)+
  show "entry_addr (a OR f) = unat a" by (simp add: entry_addr_def m)
  show "n < 12 \<or> 52 \<le> n \<Longrightarrow> bit (a OR f) n = bit f n" using a by (fastforce simp: bit_or_iff)
qed

lemma flags_clear: "(e AND NOT (PAGE_ADDR_MASK OR x)) AND PAGE_ADDR_MASK = 0" "(e AND NOT PAGE_ADDR_MASK) AND PAGE_ADDR_MASK = 0"
  by (rule bit_word_eqI; auto simp: bit_simps)+

lemma small_flags: "x AND PAGE_ADDR_MASK = 0" if "\<And>n. bit x n \<Longrightarrow> n < 12 \<or> 52 \<le> n" for x :: u64
  by (rule bit_word_eqI) (use that in \<open>fastforce simp: bit_simps PAGE_ADDR_MASK_bit\<close>)

section \<open>Entries in memory\<close>

lemma pt_entry_mem: "(\<And>k. k < 4096 \<Longrightarrow> phys_mem st' (b + k) = phys_mem st (b + k)) \<Longrightarrow> j < 512 \<Longrightarrow> pt_entry st' b j = pt_entry st b j"
  unfolding pt_entry_def by (rule arg_cong [where f = word_of_nat], rule load64_cong) (simp add: add.assoc)

lemma page_apart: "4096 dvd a \<Longrightarrow> 4096 dvd b \<Longrightarrow> a \<noteq> b \<Longrightarrow> a + 4096 \<le> b \<or> b + 4096 \<le> (a :: nat)"
proof -
  assume "4096 dvd a" "4096 dvd b" "a \<noteq> b"
  then obtain i j where "a = 4096 * i" "b = 4096 * j" "i \<noteq> j" by (auto elim!: dvdE)
  then show ?thesis by auto
qed

lemma pt_entry_set_entry:
  assumes "4096 dvd a" "4096 dvd b" "i < 512" "j < 512"
  shows "pt_entry (set_entry a i e st) b j = (if b = a \<and> j = i then e else pt_entry st b j)"
proof -
  have "8 dvd (4096 :: nat)" by simp
  then have d: "8 dvd a + 8 * i" "8 dvd b + 8 * j" using assms(1,2) by (auto intro: dvd_trans)
  have "a + 8 * i = b + 8 * j \<longleftrightarrow> b = a \<and> j = i" using page_apart [OF assms(1,2)] assms(3,4) by (cases "a = b") auto
  moreover have "unat e < 2 ^ 64" using unsigned_less [of e, where 'a = nat] by simp
  ultimately show ?thesis using d by (auto simp: pt_entry_def set_entry_def load64_store64)
qed

lemma set_entry_other: "x < a + 8 * i \<or> a + 8 * i + 8 \<le> x \<Longrightarrow> phys_mem (set_entry a i e st) x = phys_mem st x"
  by (simp add: set_entry_def mem_simps)

lemma set_entry_pmm [simp]:
  "pmm_inv (set_entry a i e st) = pmm_inv st" "frame_refs (set_entry a i e st) = frame_refs st"
  "nframes (set_entry a i e st) = nframes st" "frame_count (set_entry a i e st) = frame_count st"
  by (simp_all add: set_entry_def)

lemma fold_entries:
  assumes "4096 dvd np" "n \<le> 512"
  defines "f \<equiv> \<lambda>g st. fold (\<lambda>j st. set_entry np j (g j) st) [0..<n] st"
  shows "4096 dvd b \<Longrightarrow> j < 512 \<Longrightarrow> pt_entry (f g st) b j = (if b = np \<and> j < n then g j else pt_entry st b j)"
    "x < np \<or> np + 4096 \<le> x \<Longrightarrow> phys_mem (f g st) x = phys_mem st x"
    "pmm_inv (f g st) = pmm_inv st" "frame_refs (f g st) = frame_refs st" "nframes (f g st) = nframes st"
proof -
  have "n \<le> 512 \<Longrightarrow> (4096 dvd b \<longrightarrow> j < 512 \<longrightarrow>
      pt_entry (fold (\<lambda>j st. set_entry np j (g j) st) [0..<n] st) b j = (if b = np \<and> j < n then g j else pt_entry st b j)) \<and>
    (x < np \<or> np + 4096 \<le> x \<longrightarrow> phys_mem (fold (\<lambda>j st. set_entry np j (g j) st) [0..<n] st) x = phys_mem st x) \<and>
    pmm_inv (fold (\<lambda>j st. set_entry np j (g j) st) [0..<n] st) = pmm_inv st \<and>
    frame_refs (fold (\<lambda>j st. set_entry np j (g j) st) [0..<n] st) = frame_refs st \<and>
    nframes (fold (\<lambda>j st. set_entry np j (g j) st) [0..<n] st) = nframes st"
  proof (induction n)
    case (Suc n)
    then show ?case using assms(1) by (auto simp: pt_entry_set_entry set_entry_other)
  qed simp
  then show "4096 dvd b \<Longrightarrow> j < 512 \<Longrightarrow> pt_entry (f g st) b j = (if b = np \<and> j < n then g j else pt_entry st b j)"
    "x < np \<or> np + 4096 \<le> x \<Longrightarrow> phys_mem (f g st) x = phys_mem st x"
    "pmm_inv (f g st) = pmm_inv st" "frame_refs (f g st) = frame_refs st" "nframes (f g st) = nframes st"
    using assms(2) by (simp_all add: f_def)
qed

text \<open>A frame from the allocator.\<close>

lemma alloc_page:
  assumes inv: "pmm_inv st" and a: "pmm_alloc_frame st = (p, st')" "p \<noteq> 0"
  shows "4096 dvd p" "p < 4096 * nframes st" "frame_refs st p = 0" "frame_refs st' = (frame_refs st)(p := 1)" "pmm_inv st'"
    "nframes st' = nframes st" "\<And>x. phys_mem st' x = (if p \<le> x \<and> x < p + 4096 then 0 else phys_mem st x)"
proof -
  show "frame_refs st p = 0" "frame_refs st' = (frame_refs st)(p := 1)" "pmm_inv st'"
    using pmm_alloc_frame_refs [OF assms] pmm_alloc_frame_inv [OF inv] a by simp_all
  obtain i where i: "i < nframes st" "p = i * 4096"
    "st' = st\<lparr>bitmap := bm_set (bitmap st) i, refcount := (refcount st)[i := 1],
            free_frames := sub64 (free_frames st) 1, phys_mem := mem_fill (i * 4096) 4096 0 (phys_mem st)\<rparr>"
    using a by (rule_tac pmm_alloc_frame_cases [OF inv]) auto
  then show "4096 dvd p" "p < 4096 * nframes st" "nframes st' = nframes st"
    "\<And>x. phys_mem st' x = (if p \<le> x \<and> x < p + 4096 then 0 else phys_mem st x)"
    by (auto simp: mem_fill_def)
qed

section \<open>The invariant\<close>

text \<open>A large leaf starts at a multiple of its size.\<close>

definition large_at :: "nat \<Rightarrow> u64 \<Rightarrow> bool" where
  "large_at level e \<longleftrightarrow> (on e PAGE_FLAG_PRESENT \<and> on e PAGE_FLAG_PS \<longrightarrow>
     (level = 1 \<longrightarrow> 2 ^ 30 dvd entry_addr e) \<and> (level = 2 \<longrightarrow> 2 ^ 21 dvd entry_addr e))"

definition large_ok :: "reader \<Rightarrow> nat \<Rightarrow> bool" where
  "large_ok R root \<longleftrightarrow> (\<forall>p a i. set p \<subseteq> {..<512} \<longrightarrow> tab R 0 root p = Some a \<longrightarrow> i < 512 \<longrightarrow> large_at (length p) (R a i))"

text \<open>
  The tables are a tree, each in a frame of its own that is held, and physical addresses fit into
  the address field of an entry.
\<close>

definition pt_inv :: "pmm_state \<Rightarrow> nat \<Rightarrow> bool" where
  "pt_inv st root \<longleftrightarrow> pmm_inv st \<and> nframes st \<le> 2 ^ 40 \<and> pt_tree (pt_entry st) root \<and>
     (\<forall>a \<in> tables (pt_entry st) root. 0 < frame_refs st a) \<and> large_ok (pt_entry st) root"

lemma pt_inv_table:
  assumes "pt_inv st root" "a \<in> tables (pt_entry st) root"
  shows "4096 dvd a" "0 < frame_refs st a"
  using assms frame_refs_pos [of st a] by (auto simp: pt_inv_def)

lemma root_in_tables: "root \<in> tables R root"
  unfolding tables_def by (rule CollectI, rule exI [of _ "[]"]) simp

lemma tab_in_tables: "set p \<subseteq> {..<512} \<Longrightarrow> tab R 0 root p = Some a \<Longrightarrow> a \<in> tables R root"
  unfolding tables_def by blast

section \<open>A new table\<close>

lemma hang_step:
  assumes inv: "pt_inv st root" and p: "set p \<subseteq> {..<512}" "tab (pt_entry st) 0 root p = Some a" "i < 512"
    and np: "frame_refs st np = 0"
    and old: "down (length p) (pt_entry st a i) = None" and new: "down (length p) e = Some np"
    and st': "\<And>b j. 4096 dvd b \<Longrightarrow> j < 512 \<Longrightarrow>
        pt_entry st' b j = (if b = a \<and> j = i then e else if b = np then g j else pt_entry st b j)"
      "frame_refs st' = (frame_refs st)(np := 1)" "pmm_inv st'" "nframes st' = nframes st"
    and kids: "\<And>j. j < 512 \<Longrightarrow> down (Suc (length p)) (g j) = None" "\<And>j. j < 512 \<Longrightarrow> large_at (Suc (length p)) (g j)"
    and same: "\<And>j v. length p + length v = 2 \<Longrightarrow> j < 512 \<Longrightarrow> set v \<subseteq> {..<512} \<Longrightarrow>
        (if on (g j) PAGE_FLAG_PRESENT then Some (leaf_map (g j) v) else None) = mmu (pt_entry st) (length p) a (i # j # v)"
  shows "pt_inv st' root" "tab (pt_entry st') 0 root (p @ [i]) = Some np"
    "tables (pt_entry st') root = insert np (tables (pt_entry st) root)"
    "\<And>w. length w = 4 \<Longrightarrow> set w \<subseteq> {..<512} \<Longrightarrow> mmu (pt_entry st') 0 root w = mmu (pt_entry st) 0 root w"
proof -
  let ?R = "pt_entry st" and ?R' = "pt_entry st'"
  have aT: "a \<in> tables ?R root" by (rule tab_in_tables [OF p(1,2)])
  have npT: "np \<notin> tables ?R root" using inv np by (auto simp: pt_inv_def)
  have ne: "np \<noteq> a" using aT npT by auto
  have al: "4096 dvd b" if "b \<in> tables ?R root" for b by (rule pt_inv_table(1) [OF inv that])
  have npa: "4096 dvd np" using new entry_addr_page(1) [of e] by (auto simp: down_def split: if_splits)
  have e: "?R' a i = e" using st'(1) [OF al [OF aT] p(3)] by simp
  have g: "?R' np j = g j" if "j < 512" for j using st'(1) [OF npa that] ne by simp
  have at: "at_entry ?R root p a i ?R'"
    unfolding at_entry_def entry_changed_def
  proof (intro conjI ballI allI impI)
    fix b j assume b: "b \<in> tables ?R root" "j < 512" "(b, j) \<noteq> (a, i)"
    then have "b \<noteq> np" using npT by auto
    then show "?R' b j = ?R b j" using st'(1) [OF al [OF b(1)] b(2)] b(3) by auto
  qed (use inv p in \<open>auto simp: pt_inv_def\<close>)
  have new': "down (length p) (?R' a i) = Some np" using new e by simp
  have kids': "\<forall>j < 512. down (Suc (length p)) (?R' np j) = None" using kids(1) g by simp
  note h = hang_table [OF at old new' npT kids']
  show "tab ?R' 0 root (p @ [i]) = Some np" by (rule h(3))
  show T: "tables ?R' root = insert np (tables ?R root)" using h(2) by simp
  show "mmu ?R' 0 root w = mmu ?R 0 root w" if "length w = 4" "set w \<subseteq> {..<512}" for w
  proof (rule hang_mmu [OF at new' _ that])
    fix v :: "nat list" assume v: "Suc (length p + length v) = 4" "set v \<subseteq> {..<512}"
    have lp: "length p \<noteq> 3" using new by (auto simp: down_def is_leaf_def)
    then obtain j u where vj: "v = j # u" using v(1) by (cases v) auto
    then have j: "j < 512" "set u \<subseteq> {..<512}" "length p + length u = 2" using v by auto
    have "mmu ?R' (Suc (length p)) np v = (if on (g j) PAGE_FLAG_PRESENT then Some (leaf_map (g j) u) else None)"
      using kids(1) [OF j(1)] g [OF j(1)] by (auto simp: vj down_def split: if_splits)
    then show "mmu ?R' (Suc (length p)) np v = mmu ?R (length p) a (i # v)" using same [OF j(3,1,2)] vj by simp
  qed
  have "large_ok ?R' root"
    unfolding large_ok_def
  proof (intro allI impI)
    fix q c and j :: nat assume q: "set q \<subseteq> {..<512}" "tab ?R' 0 root q = Some c" "j < 512"
    show "large_at (length q) (?R' c j)"
    proof (cases "below (p @ [i]) q")
      case True
      then have "q = p @ [i]" "c = np" using h(4) [OF q(1)] q(2) by (auto split: if_splits)
      then show ?thesis using kids(2) [OF q(3)] g [OF q(3)] by simp
    next
      case False
      then have t: "tab ?R 0 root q = Some c" using h(4) [OF q(1)] q(2) by simp
      then have c: "c \<in> tables ?R root" by (rule tab_in_tables [OF q(1)])
      show ?thesis
      proof (cases "c = a \<and> j = i")
        case True
        then have "q = p" using inv t p(1,2) q(1) unfolding pt_inv_def pt_tree_def by blast
        then show ?thesis using True e new by (auto simp: large_at_def down_def is_leaf_def split: if_splits)
      next
        case False
        then have "?R' c j = ?R c j" using st'(1) [OF al [OF c] q(3)] npT c by auto
        then show ?thesis using inv t q(1,3) by (auto simp: pt_inv_def large_ok_def)
      qed
    qed
  qed
  moreover have "\<forall>b \<in> insert np (tables ?R root). 0 < frame_refs st' b" using inv st'(2) by (auto simp: pt_inv_def)
  ultimately show "pt_inv st' root" using inv st'(3,4) h(1,2) by (simp add: pt_inv_def)
qed

text \<open>The entry that links a new table.\<close>

lemma link_entry:
  assumes np: "4096 dvd np" "np < 2 ^ 52" and f: "f AND PAGE_ADDR_MASK = 0" "bit f 0" "\<not> bit f 7" and "level < 3"
  shows "down level (word_of_nat np OR f) = Some np"
proof -
  have a: "addr_word (word_of_nat np)" "unat (word_of_nat np :: u64) = np" using addr_word_of_nat [OF np] by auto
  note e = entry_parts [OF a(1) f(1)]
  have "on (word_of_nat np OR f) PAGE_FLAG_PRESENT" "\<not> on (word_of_nat np OR f) PAGE_FLAG_PS"
    using e(4) f(2,3) by (simp_all add: on_flags)
  then show ?thesis using assms(6) a(2) e(3) by (simp add: down_def is_leaf_def)
qed

lemma low_flags: "(PAGE_FLAG_PRESENT OR PAGE_FLAG_WRITABLE OR PAGE_FLAG_USER) AND PAGE_ADDR_MASK = 0"
  "bit (PAGE_FLAG_PRESENT OR PAGE_FLAG_WRITABLE OR PAGE_FLAG_USER) n \<longleftrightarrow> n < 3"
proof -
  show b: "bit (PAGE_FLAG_PRESENT OR PAGE_FLAG_WRITABLE OR PAGE_FLAG_USER) n \<longleftrightarrow> n < 3" for n
    by (auto simp: bit_or_iff flag_bits)
  show "(PAGE_FLAG_PRESENT OR PAGE_FLAG_WRITABLE OR PAGE_FLAG_USER) AND PAGE_ADDR_MASK = 0"
    by (rule small_flags) (auto simp: b)
qed

text \<open>The entries of a split large page.\<close>

definition split_entry :: "u64 \<Rightarrow> nat \<Rightarrow> nat \<Rightarrow> u64" where
  "split_entry e level j = ((e AND PAGE_ADDR_MASK) + word_of_nat j * (if level = 1 then push_bit 21 1 else push_bit 12 1))
     OR (e AND NOT (PAGE_ADDR_MASK OR PAGE_FLAG_PS)) OR (if level = 1 then PAGE_FLAG_PS else 0)"

lemma split_entry_parts:
  assumes e: "large_at level e" "on e PAGE_FLAG_PRESENT" "on e PAGE_FLAG_PS" and level: "level = 1 \<or> level = 2" and j: "j < 512"
  shows "entry_addr (split_entry e level j) = entry_addr e + j * (if level = 1 then 2 ^ 21 else 2 ^ 12)"
    "split_entry e level j AND PAGE_ADDR_MASK = (e AND PAGE_ADDR_MASK) + word_of_nat (j * (if level = 1 then 2 ^ 21 else 2 ^ 12))"
    "split_entry e level j AND NOT (PAGE_ADDR_MASK OR PAGE_FLAG_PS) = e AND NOT (PAGE_ADDR_MASK OR PAGE_FLAG_PS)"
    "level = 2 \<Longrightarrow> split_entry e level j AND NOT PAGE_ADDR_MASK = e AND NOT (PAGE_ADDR_MASK OR PAGE_FLAG_PS)"
    "on (split_entry e level j) PAGE_FLAG_PRESENT" "level = 1 \<Longrightarrow> on (split_entry e level j) PAGE_FLAG_PS"
proof -
  let ?s = "if level = 1 then 2 ^ 21 else 2 ^ 12 :: nat"
  let ?base = "e AND PAGE_ADDR_MASK"
  define x where "x = ?base + word_of_nat (j * ?s)"
  define f where "f = (e AND NOT (PAGE_ADDR_MASK OR PAGE_FLAG_PS)) OR (if level = 1 then PAGE_FLAG_PS else 0)"
  have big: "512 * ?s dvd entry_addr e" using e level by (auto simp: large_at_def)
  then obtain c where "entry_addr e = 512 * ?s * c" by (elim dvdE)
  then have "entry_addr e + 512 * ?s \<le> 2 ^ 52" using entry_addr_page(2) [of e] level by auto
  moreover have "j * ?s < 512 * ?s" using j by simp
  ultimately have lt: "entry_addr e + j * ?s < 2 ^ 52" by linarith
  have uw: "unat (word_of_nat (j * ?s) :: u64) = j * ?s" using lt by (simp only: unat_of_nat) simp
  have ux: "unat x = entry_addr e + j * ?s"
    unfolding x_def using lt by (simp only: unat_word_ariths(1) uw entry_addr_def [symmetric]) simp
  have "4096 dvd ?s" by simp
  then have ax: "addr_word x" using lt entry_addr_page(1) [of e] by (simp add: addr_word_unat ux dvd_add)
  have fm: "f AND PAGE_ADDR_MASK = 0"
    by (rule small_flags) (auto simp: f_def bit_simps PAGE_ADDR_MASK_bit flag_bits split: if_splits)
  have eq: "split_entry e level j = x OR f"
    by (auto simp: split_entry_def x_def f_def or.assoc)
  note parts = entry_parts [OF ax fm]
  show "entry_addr (split_entry e level j) = entry_addr e + j * ?s" using parts(3) ux by (simp add: eq)
  show "split_entry e level j AND PAGE_ADDR_MASK = ?base + word_of_nat (j * ?s)" using parts(1) by (simp add: eq x_def)
  show "split_entry e level j AND NOT (PAGE_ADDR_MASK OR PAGE_FLAG_PS) = e AND NOT (PAGE_ADDR_MASK OR PAGE_FLAG_PS)"
  proof -
    have "split_entry e level j AND NOT (PAGE_ADDR_MASK OR PAGE_FLAG_PS) = ((x OR f) AND NOT PAGE_ADDR_MASK) AND NOT PAGE_FLAG_PS"
      unfolding eq by (rule bit_word_eqI) (auto simp: bit_simps)
    also have "\<dots> = f AND NOT PAGE_FLAG_PS" by (simp only: parts(2))
    also have "\<dots> = e AND NOT (PAGE_ADDR_MASK OR PAGE_FLAG_PS)"
      unfolding f_def by (rule bit_word_eqI) (auto simp: bit_simps)
    finally show ?thesis .
  qed
  show "split_entry e level j AND NOT PAGE_ADDR_MASK = e AND NOT (PAGE_ADDR_MASK OR PAGE_FLAG_PS)" if "level = 2"
  proof -
    have "f = e AND NOT (PAGE_ADDR_MASK OR PAGE_FLAG_PS)" using that by (simp add: f_def)
    then show ?thesis using parts(2) by (simp only: eq)
  qed
  have f0: "bit f 0" using e(2) by (simp add: f_def on_flags bit_simps PAGE_ADDR_MASK_bit flag_bits)
  then show "on (split_entry e level j) PAGE_FLAG_PRESENT" using parts(4) [of 0] by (simp add: eq on_flags)
  show "on (split_entry e level j) PAGE_FLAG_PS" if "level = 1"
  proof -
    have "bit f 7" using that by (simp add: f_def bit_simps flag_bits)
    then show ?thesis using parts(4) [of 7] by (simp add: eq on_flags)
  qed
qed

section \<open>The walk\<close>

text \<open>
  What a creating walk may do to the memory: the translation stays, held frames stay held and keep
  their contents unless they are tables.
\<close>

definition pt_step :: "nat \<Rightarrow> pmm_state \<Rightarrow> pmm_state \<Rightarrow> bool" where
  "pt_step root st st' \<longleftrightarrow> pt_inv st' root \<and>
     (\<forall>w. length w = 4 \<longrightarrow> set w \<subseteq> {..<512} \<longrightarrow> mmu (pt_entry st') 0 root w = mmu (pt_entry st) 0 root w) \<and>
     (\<forall>q. 0 < frame_refs st q \<longrightarrow> frame_refs st' q = frame_refs st q) \<and>
     (\<forall>q x. 0 < frame_refs st q \<longrightarrow> q \<notin> tables (pt_entry st) root \<longrightarrow> q \<le> x \<longrightarrow> x < q + 4096 \<longrightarrow> phys_mem st' x = phys_mem st x) \<and>
     (\<forall>q. 0 < frame_refs st q \<longrightarrow> q \<in> tables (pt_entry st') root \<longrightarrow> q \<in> tables (pt_entry st) root)"

lemma pt_step_refl: "pt_inv st root \<Longrightarrow> pt_step root st st"
  by (simp add: pt_step_def)

lemma pt_stepD:
  assumes "pt_step root st st'"
  shows "pt_inv st' root" "length w = 4 \<Longrightarrow> set w \<subseteq> {..<512} \<Longrightarrow> mmu (pt_entry st') 0 root w = mmu (pt_entry st) 0 root w"
    "0 < frame_refs st q \<Longrightarrow> frame_refs st' q = frame_refs st q"
    "0 < frame_refs st q \<Longrightarrow> q \<notin> tables (pt_entry st) root \<Longrightarrow> q \<le> x \<Longrightarrow> x < q + 4096 \<Longrightarrow> phys_mem st' x = phys_mem st x"
    "0 < frame_refs st q \<Longrightarrow> q \<in> tables (pt_entry st') root \<Longrightarrow> q \<in> tables (pt_entry st) root"
  using assms unfolding pt_step_def by blast+

lemma pt_step_trans:
  assumes a: "pt_step root st st1" and b: "pt_step root st1 st2"
  shows "pt_step root st st2"
  unfolding pt_step_def
proof (intro conjI allI impI)
  show "pt_inv st2 root" by (rule pt_stepD(1) [OF b])
  show "mmu (pt_entry st2) 0 root w = mmu (pt_entry st) 0 root w" if "length w = 4" "set w \<subseteq> {..<512}" for w
    using pt_stepD(2) [OF a that] pt_stepD(2) [OF b that] by simp
  fix q assume q: "0 < frame_refs st q"
  then have q1: "0 < frame_refs st1 q" using pt_stepD(3) [OF a q] by simp
  show "frame_refs st2 q = frame_refs st q" using pt_stepD(3) [OF a q] pt_stepD(3) [OF b q1] by simp
  show "q \<in> tables (pt_entry st) root" if "q \<in> tables (pt_entry st2) root"
    by (rule pt_stepD(5) [OF a q pt_stepD(5) [OF b q1 that]])
  fix x assume x: "q \<notin> tables (pt_entry st) root" "q \<le> x" "x < q + 4096"
  have "q \<notin> tables (pt_entry st1) root" using x(1) pt_stepD(5) [OF a q] by blast
  then show "phys_mem st2 x = phys_mem st x" using pt_stepD(4) [OF a q x] pt_stepD(4) [OF b q1 _ x(2,3)] by simp
qed

lemma hang_pt_step:
  assumes inv: "pt_inv st root" and p: "set p \<subseteq> {..<512}" "tab (pt_entry st) 0 root p = Some a" "i < 512"
    and al: "pmm_alloc_frame st = (np, st1)" "np \<noteq> 0"
    and old: "down (length p) (pt_entry st a i) = None" and new: "down (length p) e = Some np"
    and st2: "\<And>b j. 4096 dvd b \<Longrightarrow> j < 512 \<Longrightarrow> pt_entry st2 b j = (if b = np then g j else pt_entry st1 b j)"
      "frame_refs st2 = frame_refs st1" "pmm_inv st2" "nframes st2 = nframes st1"
      "\<And>x. x < np \<or> np + 4096 \<le> x \<Longrightarrow> phys_mem st2 x = phys_mem st1 x"
    and kids: "\<And>j. j < 512 \<Longrightarrow> down (Suc (length p)) (g j) = None" "\<And>j. j < 512 \<Longrightarrow> large_at (Suc (length p)) (g j)"
    and same: "\<And>j v. length p + length v = 2 \<Longrightarrow> j < 512 \<Longrightarrow> set v \<subseteq> {..<512} \<Longrightarrow>
        (if on (g j) PAGE_FLAG_PRESENT then Some (leaf_map (g j) v) else None) = mmu (pt_entry st) (length p) a (i # j # v)"
  defines "st' \<equiv> set_entry a i e st2"
  shows "pt_step root st st'" "tab (pt_entry st') 0 root (p @ [i]) = Some np" "entry_addr (pt_entry st' a i) = np"
proof -
  have pi: "pmm_inv st" using inv by (simp add: pt_inv_def)
  note f = alloc_page [OF pi al]
  have aT: "a \<in> tables (pt_entry st) root" by (rule tab_in_tables [OF p(1,2)])
  note a = pt_inv_table [OF inv aT]
  have m1: "phys_mem st1 x = phys_mem st x" if "x < np \<or> np + 4096 \<le> x" for x using f(7) that by auto
  have e1: "pt_entry st1 b j = pt_entry st b j" if "4096 dvd b" "b \<noteq> np" "j < 512" for b j
    using page_apart [OF that(1) f(1) that(2)] that(3) by (intro pt_entry_mem m1) auto
  have ent: "pt_entry st' b j = (if b = a \<and> j = i then e else if b = np then g j else pt_entry st b j)"
    if "4096 dvd b" "j < 512" for b j
    using that st2(1) e1 p(3) a(1) f(1) by (simp add: st'_def pt_entry_set_entry)
  have fr: "frame_refs st' = (frame_refs st)(np := 1)" "pmm_inv st'" "nframes st' = nframes st"
    using st2(2-4) f(4,6) by (simp_all add: st'_def)
  note h = hang_step [OF inv p f(3) old new ent fr kids same]
  show "tab (pt_entry st') 0 root (p @ [i]) = Some np" by (rule h(2))
  show "entry_addr (pt_entry st' a i) = np" using ent [OF a(1) p(3)] new by (simp add: down_def split: if_splits)
  have mem: "phys_mem st' x = phys_mem st x" if "q \<le> x" "x < q + 4096" "0 < frame_refs st q" "q \<notin> tables (pt_entry st) root" for q x
  proof -
    have q: "4096 dvd q" using frame_refs_pos [OF that(3)] by auto
    have "q \<noteq> np" "q \<noteq> a" using that(3,4) f(3) aT by auto
    then have "x < np \<or> np + 4096 \<le> x" "x < a \<or> a + 4096 \<le> x"
      using page_apart [OF q f(1)] page_apart [OF q a(1)] that(1,2) by auto
    then show ?thesis using st2(5) m1 p(3) by (auto simp: st'_def set_entry_other)
  qed
  show "pt_step root st st'"
    unfolding pt_step_def using h(1,3,4) fr(1) f(3) mem by auto
qed

lemma load64_zero: "load64 (\<lambda>_. 0) a = 0"
proof -
  have "foldr (\<lambda>i acc. unat (0 :: byte) + 256 * acc) xs 0 = 0" for xs :: "nat list" by (induction xs) auto
  then show ?thesis by (simp only: load64_def)
qed

lemma walk_level_absent:
  assumes inv: "pt_inv st root" and p: "set p \<subseteq> {..<512}" "tab (pt_entry st) 0 root p = Some a" "i < 512" "length p < 3"
    and absent: "\<not> on (pt_entry st a i) PAGE_FLAG_PRESENT" and walk: "walk_level True (length p) i a st = (r, st')"
  shows "pt_step root st st'" "r = Some t \<Longrightarrow> tab (pt_entry st') 0 root (p @ [i]) = Some t"
proof -
  have pi: "pmm_inv st" "nframes st \<le> 2 ^ 40" using inv by (simp_all add: pt_inv_def)
  obtain np st1 where al: "pmm_alloc_frame st = (np, st1)" by fastforce
  have "pt_step root st st' \<and> (r = Some t \<longrightarrow> tab (pt_entry st') 0 root (p @ [i]) = Some t)"
  proof (cases "np = 0")
    case True
    then have "st1 = st" "r = None" "st' = st1"
      using pmm.alloc_oom [OF pi(1)] al walk absent by (auto simp: walk_level_def Let_def)
    then show ?thesis using pt_step_refl [OF inv] by simp
  next
    case False
    note f = alloc_page [OF pi(1) al False]
    let ?e = "word_of_nat np OR PAGE_FLAG_PRESENT OR PAGE_FLAG_WRITABLE OR PAGE_FLAG_USER :: u64"
    let ?st2 = "zero_page np st1"
    have np: "np < 2 ^ 52" using f(2) pi(2) by simp
    have e: "down (length p) ?e = Some np"
      using link_entry [OF f(1) np low_flags(1) _ _ p(4)] by (simp add: low_flags(2) or.assoc)
    have old: "down (length p) (pt_entry st a i) = None" using absent by (simp add: down_def)
    have m2: "phys_mem ?st2 x = (if np \<le> x \<and> x < np + 4096 then 0 else phys_mem st1 x)" for x
      by (simp add: zero_page_def mem_fill_def PAGE_SIZE_BYTES_def)
    have e2: "pt_entry ?st2 b j = (if b = np then 0 else pt_entry st1 b j)" if "4096 dvd b" "j < 512" for b j
    proof (cases "b = np")
      case True
      have "load64 (phys_mem ?st2) (np + 8 * j) = load64 (\<lambda>_. 0) (np + 8 * j)"
        using that(2) by (intro load64_cong) (simp add: m2)
      then show ?thesis using True by (simp add: pt_entry_def load64_zero)
    next
      case False
      have "pt_entry ?st2 b j = pt_entry st1 b j"
        using page_apart [OF that(1) f(1) False] that(2) by (intro pt_entry_mem) (auto simp: m2)
      then show ?thesis using False by simp
    qed
    have z: "frame_refs ?st2 = frame_refs st1" "pmm_inv ?st2" "nframes ?st2 = nframes st1"
      "\<And>x. x < np \<or> np + 4096 \<le> x \<Longrightarrow> phys_mem ?st2 x = phys_mem st1 x"
      using f(5) m2 by (auto simp: zero_page_def)
    have n0: "\<not> on 0 PAGE_FLAG_PRESENT" by (simp add: on_def)
    note h = hang_pt_step [OF inv p(1-3) al False old e e2 z]
    have h': "pt_step root st (set_entry a i ?e ?st2)" "tab (pt_entry (set_entry a i ?e ?st2)) 0 root (p @ [i]) = Some np"
      "entry_addr (pt_entry (set_entry a i ?e ?st2) a i) = np"
      using n0 absent by (auto intro!: h simp: down_def large_at_def)
    have "r = Some np" "st' = set_entry a i ?e ?st2"
      using walk absent al False h'(3) by (auto simp: walk_level_def Let_def)
    then show ?thesis using h'(1,2) by auto
  qed
  then show "pt_step root st st'" "r = Some t \<Longrightarrow> tab (pt_entry st') 0 root (p @ [i]) = Some t" by auto
qed

lemma walk_level_split:
  assumes inv: "pt_inv st root" and p: "set p \<subseteq> {..<512}" "tab (pt_entry st) 0 root p = Some a" "i < 512"
    and lv: "length p = 1 \<or> length p = 2"
    and e: "on (pt_entry st a i) PAGE_FLAG_PRESENT" "on (pt_entry st a i) PAGE_FLAG_PS"
    and split: "split_huge_page a i (pt_entry st a i) (length p) st = (np, st')"
  shows "pt_step root st st'" "np \<noteq> 0 \<Longrightarrow> tab (pt_entry st') 0 root (p @ [i]) = Some np"
    "np \<noteq> 0 \<Longrightarrow> entry_addr (pt_entry st' a i) = np"
proof -
  let ?e = "pt_entry st a i" and ?l = "length p"
  have pi: "pmm_inv st" "nframes st \<le> 2 ^ 40" using inv by (simp_all add: pt_inv_def)
  obtain q st1 where al: "pmm_alloc_frame st = (q, st1)" by fastforce
  have "pt_step root st st' \<and> (np \<noteq> 0 \<longrightarrow> tab (pt_entry st') 0 root (p @ [i]) = Some np \<and> entry_addr (pt_entry st' a i) = np)"
  proof (cases "q = 0")
    case True
    then have "st1 = st" "np = 0" "st' = st1"
      using pmm.alloc_oom [OF pi(1)] al split by (auto simp: split_huge_page_def)
    then show ?thesis using pt_step_refl [OF inv] by simp
  next
    case False
    note f = alloc_page [OF pi(1) al False]
    have qlt: "q < 2 ^ 52" using f(2) pi(2) by simp
    let ?st2 = "fold (\<lambda>j st. set_entry q j (split_entry ?e ?l j) st) [0..<512] st1"
    let ?l1 = "word_of_nat q OR (?e AND (PAGE_FLAG_PRESENT OR PAGE_FLAG_WRITABLE OR PAGE_FLAG_USER)) :: u64"
    have eq: "np = q" "st' = set_entry a i ?l1 ?st2"
      using split al False by (auto simp: split_huge_page_def split_entry_def Let_def)
    have fl: "(?e AND (PAGE_FLAG_PRESENT OR PAGE_FLAG_WRITABLE OR PAGE_FLAG_USER)) AND PAGE_ADDR_MASK = 0"
      "bit (?e AND (PAGE_FLAG_PRESENT OR PAGE_FLAG_WRITABLE OR PAGE_FLAG_USER)) 0"
      "\<not> bit (?e AND (PAGE_FLAG_PRESENT OR PAGE_FLAG_WRITABLE OR PAGE_FLAG_USER)) 7"
      using e(1) by (auto intro!: small_flags simp: bit_and_iff low_flags(2) on_flags)
    have new: "down ?l ?l1 = Some q" using lv by (intro link_entry [OF f(1) qlt fl]) auto
    have old: "down ?l ?e = None" using e lv by (auto simp: down_def is_leaf_def)
    have lg: "large_at ?l ?e" using inv p unfolding pt_inv_def large_ok_def by blast
    note sp = split_entry_parts [OF lg e lv]
    have ent: "pt_entry ?st2 b j = (if b = q then split_entry ?e ?l j else pt_entry st1 b j)" if "4096 dvd b" "j < 512" for b j
      using fold_entries(1) [OF f(1) le_refl that] that(2) by simp
    note z = fold_entries(4,3,5) [OF f(1) le_refl, of "split_entry ?e ?l" st1]
    have zm: "x < q \<or> q + 4096 \<le> x \<Longrightarrow> phys_mem ?st2 x = phys_mem st1 x" for x
      by (rule fold_entries(2) [OF f(1) le_refl])
    have kids: "down (Suc ?l) (split_entry ?e ?l j) = None" "large_at (Suc ?l) (split_entry ?e ?l j)" if "j < 512" for j
      using lv sp(6) [OF that] sp(1) [OF that] lg e by (auto simp: down_def is_leaf_def large_at_def)
    have same: "(if on (split_entry ?e ?l j) PAGE_FLAG_PRESENT then Some (leaf_map (split_entry ?e ?l j) v) else None) =
        mmu (pt_entry st) ?l a (i # j # v)" if v: "?l + length v = 2" "j < 512" for j v
    proof -
      have "mmu (pt_entry st) ?l a (i # j # v) = Some (leaf_map ?e (j # v))" using e lv by (auto simp: is_leaf_def)
      moreover have "leaf_map (split_entry ?e ?l j) v = leaf_map ?e (j # v)"
      proof (cases "?l = 1")
        case True
        then obtain k where k: "v = [k]" using v(1) by (auto simp: length_Suc_conv)
        show ?thesis using sp(2,3) [OF v(2)] True by (simp add: leaf_map_def k algebra_simps)
      next
        case False
        then have "v = []" "?l = 2" using lv v(1) by auto
        then show ?thesis using sp(2,4) [OF v(2)] by (simp add: leaf_map_def algebra_simps)
      qed
      ultimately show ?thesis using sp(5) [OF v(2)] by simp
    qed
    have pm: "pmm_inv ?st2" using z(2) f(5) by simp
    have "pt_step root st (set_entry a i ?l1 ?st2)" "tab (pt_entry (set_entry a i ?l1 ?st2)) 0 root (p @ [i]) = Some q"
      "entry_addr (pt_entry (set_entry a i ?l1 ?st2) a i) = q"
      by (rule hang_pt_step [OF inv p al False old new ent z(1) pm z(3) zm kids same]; assumption)+
    then show ?thesis by (simp add: eq)
  qed
  then show "pt_step root st st'" "np \<noteq> 0 \<Longrightarrow> tab (pt_entry st') 0 root (p @ [i]) = Some np"
    "np \<noteq> 0 \<Longrightarrow> entry_addr (pt_entry st' a i) = np" by auto
qed

end
