(* ===== verification/Paging_Props.thy ===== *)
theory Paging_Props
  imports Paging_Walk
begin

text \<open>
  The operations of the page tables against the translation: \<open>paging_map\<close> and \<open>paging_map_2m\<close> change
  exactly the translation of their page, \<open>paging_unmap\<close> and \<open>paging_protect\<close> that of a 4 KiB page, and
  a copy-on-write fault gives the faulting address space a frame of its own with the same contents.
\<close>

section \<open>Addresses\<close>

definition page_of :: "u64 \<Rightarrow> nat list" where
  "page_of virt = [PML4_INDEX virt, PDPT_INDEX virt, PD_INDEX virt, PT_INDEX virt]"

lemma index_less: "PML4_INDEX v < 512" "PDPT_INDEX v < 512" "PD_INDEX v < 512" "PT_INDEX v < 512"
proof -
  have "unat (x AND 0x1FF) < 512" for x :: u64
  proof -
    have "x AND 0x1FF = take_bit 9 x" by (simp add: take_bit_eq_mask mask_eq_exp_minus_1)
    moreover have "unat (take_bit 9 x) < 2 ^ 9" by (simp only: unsigned_take_bit_eq) (rule take_bit_nat_less_exp)
    ultimately show ?thesis by simp
  qed
  then show "PML4_INDEX v < 512" "PDPT_INDEX v < 512" "PD_INDEX v < 512" "PT_INDEX v < 512"
    by (simp_all add: PML4_INDEX_def PDPT_INDEX_def PD_INDEX_def PT_INDEX_def)
qed

lemma page_of: "length (page_of v) = 4" "set (page_of v) \<subseteq> {..<512}"
  by (simp_all add: page_of_def index_less)

text \<open>The translation of a virtual address: the frame and the flag bits of its 4 KiB page.\<close>

definition translate :: "vm_state \<Rightarrow> u64 \<Rightarrow> (u64 \<times> u64) option" where
  "translate v virt = mmu (pt_entry (vm_pmm v)) 0 (vm_root v) (page_of virt)"

definition vm_inv :: "vm_state \<Rightarrow> bool" where
  "vm_inv v \<longleftrightarrow> pt_inv (vm_pmm v) (vm_root v)"

section \<open>The walk\<close>

lemma walk_level_create:
  assumes "pt_inv st root" "set p \<subseteq> {..<512}" "tab (pt_entry st) 0 root p = Some a" "i < 512" "length p < 3"
    and walk: "walk_level True (length p) i a st = (r, st')"
  shows "pt_step root st st'" "r = Some t \<Longrightarrow> tab (pt_entry st') 0 root (p @ [i]) = Some t"
proof -
  let ?e = "pt_entry st a i"
  have "pt_step root st st' \<and> (r = Some t \<longrightarrow> tab (pt_entry st') 0 root (p @ [i]) = Some t)"
  proof (cases "on ?e PAGE_FLAG_PRESENT")
    case False
    then show ?thesis using walk_level_absent [OF assms(1-5) False walk] by blast
  next
    case pres: True
    show ?thesis
    proof (cases "(length p = 1 \<or> length p = 2) \<and> on ?e PAGE_FLAG_PS")
      case True
      obtain np st1 where sp: "split_huge_page a i ?e (length p) st = (np, st1)" by fastforce
      note s = walk_level_split [OF assms(1-4) conjunct1 [OF True] pres conjunct2 [OF True] sp]
      have "st' = st1" "r = (if np = 0 then None else Some (entry_addr (pt_entry st1 a i)))"
        using walk pres True sp by (auto simp: walk_level_def Let_def split: if_splits)
      then show ?thesis using s by auto
    next
      case False
      then have "down (length p) ?e = Some (entry_addr ?e)" using pres assms(5) by (auto simp: down_def is_leaf_def)
      then have "tab (pt_entry st) 0 root (p @ [i]) = Some (entry_addr ?e)" using assms(3) by (simp add: tab_snoc)
      moreover have "st' = st" "r = Some (entry_addr ?e)" using walk pres False by (auto simp: walk_level_def Let_def)
      ultimately show ?thesis using pt_step_refl [OF assms(1)] by simp
    qed
  qed
  then show "pt_step root st st'" "r = Some t \<Longrightarrow> tab (pt_entry st') 0 root (p @ [i]) = Some t" by auto
qed

fun lvls :: "nat \<Rightarrow> nat list \<Rightarrow> (nat \<times> nat) list" where
  "lvls n [] = []"
| "lvls n (i # is) = (n, i) # lvls (Suc n) is"

lemma walk_levels_create:
  assumes "pt_inv st root" "set p \<subseteq> {..<512}" "tab (pt_entry st) 0 root p = Some a" "set is \<subseteq> {..<512}"
    "length p + length is \<le> 3" "walk_levels True (lvls (length p) is) a st = (r, st')"
  shows "pt_step root st st' \<and> (\<forall>t. r = Some t \<longrightarrow> tab (pt_entry st') 0 root (p @ is) = Some t)"
  using assms
proof (induction "is" arbitrary: p a st)
  case Nil
  then show ?case using pt_step_refl by auto
next
  case (Cons i "is")
  obtain r1 st1 where w: "walk_level True (length p) i a st = (r1, st1)" by fastforce
  have i: "i < 512" "length p < 3" using Cons.prems(4,5) by auto
  note s = walk_level_create [OF Cons.prems(1-3) i w]
  show ?case
  proof (cases r1)
    case None
    then show ?thesis using Cons.prems(6) w s(1) by simp
  next
    case (Some t)
    have "pt_step root st1 st' \<and> (\<forall>t. r = Some t \<longrightarrow> tab (pt_entry st') 0 root ((p @ [i]) @ is) = Some t)"
    proof (rule Cons.IH)
      show "pt_inv st1 root" by (rule pt_stepD(1) [OF s(1)])
      show "tab (pt_entry st1) 0 root (p @ [i]) = Some t" by (rule s(2) [OF Some])
      show "walk_levels True (lvls (length (p @ [i])) is) t st1 = (r, st')" using Cons.prems(6) w Some by simp
    qed (use Cons.prems i in auto)
    then show ?thesis using pt_step_trans [OF s(1)] by simp
  qed
qed

lemma walk_levels_read:
  "n + length is \<le> 3 \<Longrightarrow> walk_levels False (lvls n is) a st = (tab (pt_entry st) n a is, st)"
proof (induction "is" arbitrary: n a)
  case (Cons i "is")
  have "walk_level False n i a st = (down n (pt_entry st a i), st)"
    using Cons.prems by (auto simp: walk_level_def Let_def down_def is_leaf_def)
  then show ?case using Cons by (auto split: option.splits)
qed simp

lemma walk_pte_lvls:
  "walk_pte virt create v =
     (case walk_levels create (lvls 0 [PML4_INDEX virt, PDPT_INDEX virt, PD_INDEX virt]) (vm_root v) (vm_pmm v) of
        (None, st) \<Rightarrow> (None, v\<lparr>vm_pmm := st\<rparr>)
      | (Some table, st) \<Rightarrow> (Some (table, PT_INDEX virt), v\<lparr>vm_pmm := st\<rparr>))"
  by (simp add: walk_pte_def numeral_2_eq_2 del: walk_levels.simps)

lemma page_of_snoc: "page_of virt = [PML4_INDEX virt, PDPT_INDEX virt, PD_INDEX virt] @ [PT_INDEX virt]"
  by (simp add: page_of_def)

lemma walk_pte_create:
  assumes inv: "vm_inv v" and walk: "walk_pte virt True v = (r, v')"
  shows "pt_step (vm_root v) (vm_pmm v) (vm_pmm v')" "vm_root v' = vm_root v" "vm_kernel v' = vm_kernel v"
    "r = Some (t, i) \<Longrightarrow> i = PT_INDEX virt \<and>
       tab (pt_entry (vm_pmm v')) 0 (vm_root v) [PML4_INDEX virt, PDPT_INDEX virt, PD_INDEX virt] = Some t"
proof -
  let ?is = "[PML4_INDEX virt, PDPT_INDEX virt, PD_INDEX virt]"
  obtain r1 st1 where w: "walk_levels True (lvls 0 ?is) (vm_root v) (vm_pmm v) = (r1, st1)" by fastforce
  have s: "pt_step (vm_root v) (vm_pmm v) st1 \<and> (\<forall>t. r1 = Some t \<longrightarrow> tab (pt_entry st1) 0 (vm_root v) ([] @ ?is) = Some t)"
    using inv w by (intro walk_levels_create) (auto simp: vm_inv_def index_less)
  have v': "v' = v\<lparr>vm_pmm := st1\<rparr>" "r = map_option (\<lambda>t. (t, PT_INDEX virt)) r1"
    using walk w unfolding walk_pte_lvls by (auto split: option.splits)
  show "pt_step (vm_root v) (vm_pmm v) (vm_pmm v')" "vm_root v' = vm_root v" "vm_kernel v' = vm_kernel v"
    using s v' by simp_all
  show "r = Some (t, i) \<Longrightarrow> i = PT_INDEX virt \<and> tab (pt_entry (vm_pmm v')) 0 (vm_root v) ?is = Some t"
    using s v' by auto
qed

lemma walk_pte_read:
  "walk_pte virt False v =
     (map_option (\<lambda>t. (t, PT_INDEX virt)) (tab (pt_entry (vm_pmm v)) 0 (vm_root v) [PML4_INDEX virt, PDPT_INDEX virt, PD_INDEX virt]), v)"
  unfolding walk_pte_lvls by (subst walk_levels_read) (auto split: option.splits)

section \<open>Writing a leaf\<close>

lemma set_leaf_step:
  assumes inv: "pt_inv st root" and p: "set p \<subseteq> {..<512}" "tab (pt_entry st) 0 root p = Some a" "i < 512"
    and lf: "down (length p) (pt_entry st a i) = None" "down (length p) e = None" "large_at (length p) e"
  defines "st' \<equiv> set_entry a i e st"
  shows "pt_inv st' root" "tables (pt_entry st') root = tables (pt_entry st) root"
    "\<not> below (p @ [i]) w \<Longrightarrow> set w \<subseteq> {..<512} \<Longrightarrow> mmu (pt_entry st') 0 root w = mmu (pt_entry st) 0 root w"
    "mmu (pt_entry st') 0 root (p @ [i] @ u) = (if on e PAGE_FLAG_PRESENT then Some (leaf_map e u) else None)"
    "set q \<subseteq> {..<512} \<Longrightarrow> tab (pt_entry st') 0 root q = tab (pt_entry st) 0 root q"
proof -
  let ?R = "pt_entry st" and ?R' = "pt_entry st'"
  have aT: "a \<in> tables ?R root" by (rule tab_in_tables [OF p(1,2)])
  have al: "4096 dvd b" if "b \<in> tables ?R root" for b by (rule pt_inv_table(1) [OF inv that])
  have ent: "?R' b j = (if b = a \<and> j = i then e else ?R b j)" if "b \<in> tables ?R root" "j < 512" for b j
    unfolding st'_def by (rule pt_entry_set_entry [OF al [OF aT] al [OF that(1)] p(3) that(2)])
  have e: "?R' a i = e" using ent [OF aT p(3)] by simp
  have at: "at_entry ?R root p a i ?R'"
    unfolding at_entry_def entry_changed_def
  proof (intro conjI ballI allI impI)
    fix b j assume "b \<in> tables ?R root" "j < 512" "(b, j) \<noteq> (a, i)"
    then show "?R' b j = ?R b j" using ent [of b j] by auto
  qed (use inv p in \<open>auto simp: pt_inv_def\<close>)
  have lf': "down (length p) (?R' a i) = None" using lf(2) e by simp
  note s = set_leaf [OF at lf(1) lf']
  show T: "tables ?R' root = tables ?R root" by (rule s(2))
  show "set q \<subseteq> {..<512} \<Longrightarrow> tab ?R' 0 root q = tab ?R 0 root q" by (rule s(3))
  show "\<not> below (p @ [i]) w \<Longrightarrow> set w \<subseteq> {..<512} \<Longrightarrow> mmu ?R' 0 root w = mmu ?R 0 root w" by (rule mmu_elsewhere [OF at])
  have "mmu ?R' 0 root (p @ [i] @ u) = mmu ?R' (length p) a (i # u)" by (rule mmu_below [OF at])
  also have "\<dots> = (if on e PAGE_FLAG_PRESENT then Some (leaf_map e u) else None)"
    using lf(2) e by (auto simp: down_def split: if_splits)
  finally show "mmu ?R' 0 root (p @ [i] @ u) = (if on e PAGE_FLAG_PRESENT then Some (leaf_map e u) else None)" .
  have "large_ok ?R' root"
    unfolding large_ok_def
  proof (intro allI impI)
    fix q c and j :: nat assume q: "set q \<subseteq> {..<512}" "tab ?R' 0 root q = Some c" "j < 512"
    then have t: "tab ?R 0 root q = Some c" using s(3) [OF q(1)] by simp
    then have c: "c \<in> tables ?R root" by (rule tab_in_tables [OF q(1)])
    show "large_at (length q) (?R' c j)"
    proof (cases "c = a \<and> j = i")
      case True
      then have "q = p" using inv t p(1,2) q(1) unfolding pt_inv_def pt_tree_def by blast
      then show ?thesis using True e lf(3) by simp
    next
      case False
      then have "?R' c j = ?R c j" using ent [OF c q(3)] by auto
      then show ?thesis using inv t q(1,3) unfolding pt_inv_def large_ok_def by metis
    qed
  qed
  then show "pt_inv st' root" using inv s(1) T by (simp add: pt_inv_def st'_def)
qed

lemma below_page: "length w = 4 \<Longrightarrow> length p = 3 \<Longrightarrow> below (p @ [i]) w \<longleftrightarrow> w = p @ [i]"
  by (auto simp: below_def)

text \<open>The leaf entry of a 4 KiB page.\<close>

lemma wr_pte_translate:
  fixes e :: u64
  assumes inv: "vm_inv v" and t: "tab (pt_entry (vm_pmm v)) 0 (vm_root v) [PML4_INDEX virt, PDPT_INDEX virt, PD_INDEX virt] = Some t"
  defines "v' \<equiv> wr_pte (t, PT_INDEX virt) e v"
  shows "vm_inv v'" "translate v' virt = (if on e PAGE_FLAG_PRESENT then Some (e AND PAGE_ADDR_MASK, e AND NOT PAGE_ADDR_MASK) else None)"
    "page_of va \<noteq> page_of virt \<Longrightarrow> translate v' va = translate v va"
    "tables (pt_entry (vm_pmm v')) (vm_root v) = tables (pt_entry (vm_pmm v)) (vm_root v)"
    "set q \<subseteq> {..<512} \<Longrightarrow> tab (pt_entry (vm_pmm v')) 0 (vm_root v) q = tab (pt_entry (vm_pmm v)) 0 (vm_root v) q"
proof -
  let ?p = "[PML4_INDEX virt, PDPT_INDEX virt, PD_INDEX virt]"
  have d: "down (length ?p) x = None" "large_at (length ?p) x" for x by (auto simp: down_def is_leaf_def large_at_def)
  have p: "set ?p \<subseteq> {..<512}" by (simp add: index_less)
  note s = set_leaf_step [where e = e, OF inv [unfolded vm_inv_def] p t index_less(4) [of virt] d(1) d(1) d(2)]
  have v': "vm_pmm v' = set_entry t (PT_INDEX virt) e (vm_pmm v)" "vm_root v' = vm_root v" by (simp_all add: v'_def wr_pte_def)
  show "vm_inv v'" using s(1) by (simp add: vm_inv_def v')
  show "tables (pt_entry (vm_pmm v')) (vm_root v) = tables (pt_entry (vm_pmm v)) (vm_root v)" using s(2) by (simp add: v')
  show "set q \<subseteq> {..<512} \<Longrightarrow> tab (pt_entry (vm_pmm v')) 0 (vm_root v) q = tab (pt_entry (vm_pmm v)) 0 (vm_root v) q" using s(5) by (simp add: v')
  show "translate v' virt = (if on e PAGE_FLAG_PRESENT then Some (e AND PAGE_ADDR_MASK, e AND NOT PAGE_ADDR_MASK) else None)"
    using s(4) [of "[]"] by (simp add: translate_def v' page_of_def leaf_map_def)
  assume "page_of va \<noteq> page_of virt"
  then have "\<not> below (?p @ [PT_INDEX virt]) (page_of va)" using below_page [OF page_of(1), of ?p] by (simp add: page_of_def)
  then show "translate v' va = translate v va" using s(3) page_of(2) by (simp add: translate_def v')
qed

section \<open>Mapping a page\<close>

lemma pt_step_vm:
  assumes "pt_step (vm_root v) (vm_pmm v) (vm_pmm v')" "vm_root v' = vm_root v"
  shows "vm_inv v'" "translate v' va = translate v va"
  using pt_stepD(1,2) [OF assms(1)] assms(2) page_of [of va] by (simp_all add: vm_inv_def translate_def)

text \<open>A creating walk takes at most one frame per level.\<close>

lemma alloc_free_frames:
  assumes "pmm_inv st" "0 < free_frames st" "pmm_alloc_frame st = (p, st')"
  shows "p \<noteq> 0" "free_frames st' = free_frames st - 1" "pmm_inv st'"
proof -
  have "p \<noteq> 0 \<and> free_frames st' = free_frames st - 1 \<and> pmm_inv st'"
    using assms(1)
  proof (rule pmm_alloc_frame_cases)
    assume "free_frames st = 0"
    then show ?thesis using assms(2) by simp
  next
    fix i assume i: "0 < i" "pmm_alloc_frame st = (i * 4096, st\<lparr>bitmap := bm_set (bitmap st) i, refcount := (refcount st)[i := 1],
      free_frames := sub64 (free_frames st) 1, phys_mem := mem_fill (i * 4096) 4096 0 (phys_mem st)\<rparr>)"
    have "sub64 (free_frames st) 1 = free_frames st - 1"
      using pmm_inv_free_frames_less [OF assms(1)] assms(2) by (intro sub64_id) auto
    then show ?thesis using i assms(3) pmm_alloc_frame_inv [OF assms(1)] by auto
  qed
  then show "p \<noteq> 0" "free_frames st' = free_frames st - 1" "pmm_inv st'" by auto
qed

lemma set_entry_free [simp]: "free_frames (set_entry a i e st) = free_frames st"
  by (simp add: set_entry_def)

lemma fold_entries_free: "free_frames (fold (\<lambda>j st. set_entry np j (g j) st) js st) = free_frames st"
  "pmm_inv (fold (\<lambda>j st. set_entry np j (g j) st) js st) = pmm_inv st"
  by (induction js arbitrary: st) simp_all

lemma walk_level_frames:
  assumes "pmm_inv st" "0 < free_frames st" "walk_level True level i a st = (r, st')"
  shows "r \<noteq> None" "free_frames st - 1 \<le> free_frames st'" "pmm_inv st'"
proof -
  obtain np st1 where al: "pmm_alloc_frame st = (np, st1)" by fastforce
  note f = alloc_free_frames [OF assms(1,2) al]
  have z: "free_frames (zero_page np st1) = free_frames st1" "pmm_inv (zero_page np st1) = pmm_inv st1"
    by (simp_all add: zero_page_def)
  have "r \<noteq> None \<and> free_frames st - 1 \<le> free_frames st' \<and> pmm_inv st'"
    using assms f al z by (auto simp: walk_level_def split_huge_page_def Let_def fold_entries_free split: if_splits)
  then show "r \<noteq> None" "free_frames st - 1 \<le> free_frames st'" "pmm_inv st'" by auto
qed

lemma walk_levels_frames:
  assumes "pmm_inv st" "length ls \<le> free_frames st" "walk_levels True ls a st = (r, st')"
  shows "r \<noteq> None \<and> free_frames st - length ls \<le> free_frames st'"
  using assms
proof (induction ls arbitrary: a st)
  case (Cons l ls)
  obtain level i where l: "l = (level, i)" by fastforce
  obtain r1 st1 where w: "walk_level True level i a st = (r1, st1)" by fastforce
  have "0 < free_frames st" using Cons.prems(2) by simp
  note f = walk_level_frames [OF Cons.prems(1) this w]
  then obtain b where b: "r1 = Some b" by auto
  have "r \<noteq> None \<and> free_frames st1 - length ls \<le> free_frames st'"
    using Cons.prems(2,3) l w b f by (intro Cons.IH [of st1 b]) auto
  then show ?case using f(2) by auto
qed auto

lemma walk_pte_succeeds:
  assumes "vm_inv v" "3 \<le> free_frames (vm_pmm v)"
  obtains pte v' where "walk_pte virt True v = (Some pte, v')" "free_frames (vm_pmm v) - 3 \<le> free_frames (vm_pmm v')"
proof -
  let ?ls = "lvls 0 [PML4_INDEX virt, PDPT_INDEX virt, PD_INDEX virt]"
  obtain r st where w: "walk_levels True ?ls (vm_root v) (vm_pmm v) = (r, st)" by fastforce
  have "r \<noteq> None \<and> free_frames (vm_pmm v) - length ?ls \<le> free_frames st"
    using assms by (intro walk_levels_frames [OF _ _ w]) (auto simp: vm_inv_def pt_inv_def)
  then show thesis using that w unfolding walk_pte_lvls by auto
qed

lemma paging_map_effect:
  fixes virt phys flags :: u64
  assumes "vm_inv v" "3 \<le> free_frames (vm_pmm v)" "flags AND PAGE_ADDR_MASK = 0" "on flags PAGE_FLAG_PRESENT"
  defines "v' \<equiv> paging_map virt phys flags v"
  shows "vm_inv v'" "translate v' virt = Some (phys AND PAGE_ADDR_MASK, flags)"
    "page_of va \<noteq> page_of virt \<Longrightarrow> translate v' va = translate v va"
    "0 < frame_refs (vm_pmm v) q \<Longrightarrow> q \<notin> tables (pt_entry (vm_pmm v)) (vm_root v) \<Longrightarrow> q \<le> x \<Longrightarrow> x < q + 4096 \<Longrightarrow>
       phys_mem (vm_pmm v') x = phys_mem (vm_pmm v) x"
    "tab (pt_entry (vm_pmm v')) 0 (vm_root v') [PML4_INDEX virt, PDPT_INDEX virt, PD_INDEX virt] \<noteq> None"
    "0 < frame_refs (vm_pmm v) q \<Longrightarrow> frame_refs (vm_pmm v') q = frame_refs (vm_pmm v) q"
    "0 < frame_refs (vm_pmm v) q \<Longrightarrow> q \<notin> tables (pt_entry (vm_pmm v)) (vm_root v) \<Longrightarrow> q \<notin> tables (pt_entry (vm_pmm v')) (vm_root v')"
    "free_frames (vm_pmm v) - 3 \<le> free_frames (vm_pmm v')"
proof -
  obtain pte v1 where w: "walk_pte virt True v = (Some pte, v1)" "free_frames (vm_pmm v) - 3 \<le> free_frames (vm_pmm v1)" by (rule walk_pte_succeeds [OF assms(1,2)])
  obtain t i where pte: "pte = (t, i)" by fastforce
  note s = walk_pte_create [OF assms(1) w(1)]
  note vm = pt_step_vm [OF s(1,2)]
  have t: "i = PT_INDEX virt" "tab (pt_entry (vm_pmm v1)) 0 (vm_root v1) [PML4_INDEX virt, PDPT_INDEX virt, PD_INDEX virt] = Some t"
    using s(4) [of t i] s(2) pte by auto
  let ?e = "(phys AND PAGE_ADDR_MASK) OR flags"
  note wr = wr_pte_translate [OF vm(1) t(2), where e = ?e]
  note parts = entry_parts [OF addr_word_and [of phys] assms(3)]
  have v': "v' = wr_pte (t, PT_INDEX virt) ?e v1" using w(1) t(1) pte by (simp add: v'_def paging_map_def)
  have "on ?e PAGE_FLAG_PRESENT" using parts(4) [of 0] assms(4) by (simp add: on_flags)
  then show "translate v' virt = Some (phys AND PAGE_ADDR_MASK, flags)" using wr(2) parts(1,2) by (simp add: v')
  show "vm_inv v'" "page_of va \<noteq> page_of virt \<Longrightarrow> translate v' va = translate v va" using wr(1,3) vm(2) by (simp_all add: v')
  have r: "vm_root v' = vm_root v" "frame_refs (vm_pmm v') = frame_refs (vm_pmm v1)" "free_frames (vm_pmm v') = free_frames (vm_pmm v1)"
    using s(2) by (simp_all add: v' wr_pte_def)
  show "free_frames (vm_pmm v) - 3 \<le> free_frames (vm_pmm v')" using w(2) r by simp
  show "0 < frame_refs (vm_pmm v) q \<Longrightarrow> frame_refs (vm_pmm v') q = frame_refs (vm_pmm v) q" using pt_stepD(3) [OF s(1)] r by simp
  show "q \<notin> tables (pt_entry (vm_pmm v')) (vm_root v')"
    if "0 < frame_refs (vm_pmm v) q" "q \<notin> tables (pt_entry (vm_pmm v)) (vm_root v)"
    using pt_stepD(5) [OF s(1) that(1)] that(2) wr(4) r s(2) by (auto simp: v')
  show "tab (pt_entry (vm_pmm v')) 0 (vm_root v') [PML4_INDEX virt, PDPT_INDEX virt, PD_INDEX virt] \<noteq> None"
    using wr(5) [of "[PML4_INDEX virt, PDPT_INDEX virt, PD_INDEX virt]"] t(2) r s(2) by (simp add: v' index_less)
  show "phys_mem (vm_pmm v') x = phys_mem (vm_pmm v) x"
    if q: "0 < frame_refs (vm_pmm v) q" "q \<notin> tables (pt_entry (vm_pmm v)) (vm_root v)" "q \<le> x" "x < q + 4096"
  proof -
    have tT: "t \<in> tables (pt_entry (vm_pmm v1)) (vm_root v)"
      using t(2) s(2) by (intro tab_in_tables [of "[PML4_INDEX virt, PDPT_INDEX virt, PD_INDEX virt]"]) (simp_all add: index_less)
    then have "q \<noteq> t" using pt_stepD(5) [OF s(1) q(1)] q(2) by blast
    moreover have "4096 dvd t" using vm(1) s(2) tT by (intro pt_inv_table(1)) (auto simp: vm_inv_def)
    moreover have "4096 dvd q" using frame_refs_pos [OF q(1)] by auto
    ultimately have "x < t \<or> t + 4096 \<le> x" using page_apart [of q t] q(3,4) by auto
    then have "phys_mem (vm_pmm v') x = phys_mem (vm_pmm v1) x"
      using index_less(4) [of virt] by (auto simp: v' wr_pte_def set_entry_other)
    then show ?thesis using pt_stepD(4) [OF s(1) q] by simp
  qed
qed

text \<open>C1: \<open>paging_map\<close> changes the translation of its own page and of no other.  With tables that form a
  tree in frames of their own, and at least three free frames, mapping a page makes exactly this
  page translate to the given frame and flags; every other address translates as before, also when
  the walk had to create tables or to split a 1 GiB or 2 MiB page, and no byte of a held frame that
  is not a page table changes.
\<close>

theorem paging_map_exact:
  fixes virt phys flags :: u64
  assumes "vm_inv v" "3 \<le> free_frames (vm_pmm v)" "flags AND PAGE_ADDR_MASK = 0" "on flags PAGE_FLAG_PRESENT"
  defines "v' \<equiv> paging_map virt phys flags v"
  shows "vm_inv v' \<and> translate v' virt = Some (phys AND PAGE_ADDR_MASK, flags) \<and>
    (\<forall>va. page_of va \<noteq> page_of virt \<longrightarrow> translate v' va = translate v va) \<and>
    (\<forall>q x. 0 < frame_refs (vm_pmm v) q \<longrightarrow> q \<notin> tables (pt_entry (vm_pmm v)) (vm_root v) \<longrightarrow> q \<le> x \<longrightarrow> x < q + 4096 \<longrightarrow>
       phys_mem (vm_pmm v') x = phys_mem (vm_pmm v) x)"
  unfolding v'_def using paging_map_effect [OF assms(1-4)] by blast

section \<open>An example\<close>

lemma alloc_many:
  assumes "pmm_inv st"
  defines "st' n \<equiv> ((\<lambda>s. snd (pmm_alloc_frame s)) ^^ n) st"
  shows "pmm_inv (st' n) \<and> nframes (st' n) = nframes st \<and> free_frames (st' n) = free_frames st - n \<and>
    (\<forall>q. 0 < frame_refs st q \<longrightarrow> frame_refs (st' n) q = frame_refs st q) \<and>
    (\<forall>q x. 0 < frame_refs st q \<longrightarrow> q \<le> x \<longrightarrow> x < q + 4096 \<longrightarrow> phys_mem (st' n) x = phys_mem st x)"
proof (induction n)
  case (Suc n)
  obtain p s where al: "pmm_alloc_frame (st' n) = (p, s)" by fastforce
  have s: "st' (Suc n) = s" using al by (simp add: st'_def)
  note IH = Suc [THEN conjunct1] Suc [THEN conjunct2]
  show ?case
  proof (cases "free_frames (st' n) = 0")
    case True
    have "p = 0" using IH(1)
    proof (rule pmm_alloc_frame_cases)
      fix i assume i: "i < nframes (st' n)" "\<not> bm_test (bitmap (st' n)) i"
      have "0 < count_upto (\<lambda>i. \<not> bm_test (bitmap (st' n)) i) (nframes (st' n))" by (rule count_upto_pos) (use i in auto)
      then show ?thesis using IH(1) True by (simp add: pmm_inv_def)
    qed (use al in simp)
    then have "s = st' n" using pmm.alloc_oom [OF IH(1)] al by simp
    then show ?thesis using Suc True s by simp
  next
    case False
    then have "0 < free_frames (st' n)" by simp
    note f = alloc_free_frames [OF IH(1) this al]
    note a = alloc_page [OF IH(1) al f(1)]
    have "phys_mem s x = phys_mem st x" if q: "0 < frame_refs st q" "q \<le> x" "x < q + 4096" for q x
    proof -
      have "0 < frame_refs (st' n) q" using IH(2) q(1) by simp
      then have "q \<noteq> p" "4096 dvd q" using a(3) frame_refs_pos [OF q(1)] by auto
      then have "phys_mem s x = phys_mem (st' n) x" using page_apart [OF _ a(1), of q] q(2,3) a(7) by auto
      then show ?thesis using IH(2) q by simp
    qed
    moreover have "frame_refs s q = frame_refs st q" if "0 < frame_refs st q" for q
    proof -
      have "0 < frame_refs (st' n) q" using IH(2) that by simp
      then have "q \<noteq> p" using a(3) by auto
      then show ?thesis using a(4) IH(2) that by simp
    qed
    ultimately show ?thesis unfolding s using f(2,3) a(6) IH(2) by simp
  qed
qed (use assms(1) in \<open>simp add: st'_def\<close>)

lemma zero_tables:
  assumes "pmm_inv st" "nframes st \<le> 2 ^ 40" "0 < frame_refs st root" "\<And>x. phys_mem st x = 0"
  shows "pt_inv st root" "tables (pt_entry st) root = {root}"
proof -
  have m: "phys_mem st = (\<lambda>_. 0)" using assms(4) by (simp add: fun_eq_iff)
  have e: "pt_entry st a i = 0" for a i by (simp add: pt_entry_def m load64_zero)
  have n: "\<not> on 0 PAGE_FLAG_PRESENT" by (simp add: on_def)
  have t: "tab (pt_entry st) 0 root p = (if p = [] then Some root else None)" for p
    by (cases p) (simp_all add: e down_def n)
  show T: "tables (pt_entry st) root = {root}" by (auto simp: tables_def t)
  show "pt_inv st root" using assms(1-3) by (auto simp: pt_inv_def pt_tree_def large_ok_def large_at_def t e n T)
qed

text \<open>An empty page table; the frame \<open>demo_page\<close> is held twice.\<close>

definition demo_pmm1 :: pmm_state where "demo_pmm1 = snd (pmm_alloc_frame demo_pmm)"
definition demo_root :: nat where "demo_root = fst (pmm_alloc_frame demo_pmm)"
definition demo_page :: nat where "demo_page = fst (pmm_alloc_frame demo_pmm1)"
definition demo_vm :: vm_state where
  "demo_vm = \<lparr>vm_pmm = snd (pmm_inc_frame_ref demo_page (snd (pmm_alloc_frame demo_pmm1))), vm_root = demo_root, vm_kernel = demo_root\<rparr>"

lemma demo_vm:
  "vm_inv demo_vm" "tables (pt_entry (vm_pmm demo_vm)) (vm_root demo_vm) = {demo_root}" "free_frames (vm_pmm demo_vm) = 2045"
  "frame_refs (vm_pmm demo_vm) demo_page = 2" "demo_page \<noteq> demo_root" "4096 dvd demo_page" "demo_page < 2 ^ 52" "demo_page \<noteq> 0"
proof -
  have d: "free_frames demo_pmm = 2047" "nframes demo_pmm = 2048" "\<And>x. phys_mem demo_pmm x = 0" by (simp_all add: demo_pmm_def)
  have a1: "pmm_alloc_frame demo_pmm = (demo_root, demo_pmm1)" by (simp add: demo_root_def demo_pmm1_def)
  note f1 = alloc_free_frames [OF demo_pmm_inv _ a1, simplified d]
  note p1 = alloc_page [OF demo_pmm_inv a1]
  define s2 where "s2 = snd (pmm_alloc_frame demo_pmm1)"
  have a2: "pmm_alloc_frame demo_pmm1 = (demo_page, s2)" by (simp add: demo_page_def s2_def)
  have fr1: "free_frames demo_pmm1 = 2046" "demo_root \<noteq> 0" "pmm_inv demo_pmm1" using f1 by simp_all
  note f2 = alloc_free_frames [OF fr1(3) _ a2, simplified fr1(1)]
  have dp: "demo_page \<noteq> 0" "free_frames s2 = 2045" "pmm_inv s2" using f2 by simp_all
  show "demo_page \<noteq> 0" by (rule dp(1))
  note p2 = alloc_page [OF fr1(3) a2 dp(1)]
  have rr: "frame_refs demo_pmm1 demo_root = 1" using p1(4) [OF fr1(2)] by simp
  then show ne: "demo_page \<noteq> demo_root" using p2(3) by auto
  have n: "nframes s2 = 2048" using p2(6) p1(6) [OF fr1(2)] d(2) by simp
  show "4096 dvd demo_page" by (rule p2(1))
  show "demo_page < 2 ^ 52" using p2(2) p1(6) [OF fr1(2)] d(2) by simp
  have z: "phys_mem s2 x = 0" for x using p2(7) p1(7) [OF fr1(2)] d(3) by simp
  have r2: "frame_refs s2 demo_page = 1" "frame_refs s2 demo_root = 1" using p2(4) rr ne by simp_all
  define s3 where "s3 = snd (pmm_inc_frame_ref demo_page s2)"
  have i: "fst (pmm_inc_frame_ref demo_page s2) = 0 \<and> frame_refs s3 = (frame_refs s2)(demo_page := frame_refs s2 demo_page + 1)"
    unfolding s3_def using r2 by (intro pmm.inc_held [OF dp(3)]) auto
  have s3: "pmm_inv s3"
    using pmm.inc_inv [OF dp(3), of demo_page "fst (pmm_inc_frame_ref demo_page s2)" s3] r2 p2(1)
    by (simp add: s3_def mod_eq_0_iff_dvd)
  have s3f: "free_frames s3 = free_frames s2" "nframes s3 = nframes s2" "phys_mem s3 = phys_mem s2"
    by (simp_all add: s3_def pmm_inc_frame_ref_def Let_def)
  have vm: "vm_pmm demo_vm = s3" "vm_root demo_vm = demo_root" by (simp_all add: demo_vm_def s3_def s2_def)
  have rs: "0 < frame_refs s3 demo_root" using i r2 ne by simp
  have zz: "\<And>x. phys_mem s3 x = 0" using z s3f by simp
  have nn: "nframes s3 \<le> 2 ^ 40" using n s3f by simp
  note zt = zero_tables [OF s3 nn rs zz]
  show "vm_inv demo_vm" using zt(1) by (simp add: vm_inv_def vm)
  show "tables (pt_entry (vm_pmm demo_vm)) (vm_root demo_vm) = {demo_root}" using zt(2) by (simp add: vm)
  show "free_frames (vm_pmm demo_vm) = 2045" using s3f dp(2) by (simp add: vm)
  show "frame_refs (vm_pmm demo_vm) demo_page = 2" using i r2 by (simp add: vm)
qed

lemma paging_map_exact_witness:
  "translate (paging_map 0x400000 (of_nat demo_page) (PAGE_FLAG_PRESENT OR PAGE_FLAG_USER) demo_vm) 0x400000 =
     Some (of_nat demo_page AND PAGE_ADDR_MASK, PAGE_FLAG_PRESENT OR PAGE_FLAG_USER)"
proof -
  have "(PAGE_FLAG_PRESENT OR PAGE_FLAG_USER) AND PAGE_ADDR_MASK = 0" "on (PAGE_FLAG_PRESENT OR PAGE_FLAG_USER) PAGE_FLAG_PRESENT"
    by (simp_all add: on_def PAGE_FLAG_PRESENT_def PAGE_FLAG_USER_def PAGE_ADDR_MASK_def)
  then show ?thesis using paging_map_exact [OF demo_vm(1), of "PAGE_FLAG_PRESENT OR PAGE_FLAG_USER"] demo_vm(3) by simp
qed

end
