(* ===== verification/Paging_Cow.thy ===== *)
theory Paging_Cow
  imports Paging_Props
begin

text \<open>
  Pages mapped by 4 KiB entries: lookup, removal and protection, and the resolution of
  copy-on-write faults.
\<close>

section \<open>Lookup\<close>

text \<open>The page has an entry in a leaf table, so that no large page covers it.\<close>

definition pt_of :: "vm_state \<Rightarrow> u64 \<Rightarrow> nat option" where
  "pt_of v virt = tab (pt_entry (vm_pmm v)) 0 (vm_root v) [PML4_INDEX virt, PDPT_INDEX virt, PD_INDEX virt]"

lemma walk_pte_pt_of: "walk_pte virt False v = (map_option (\<lambda>t. (t, PT_INDEX virt)) (pt_of v virt), v)"
  by (simp add: walk_pte_read pt_of_def)

lemma translate_pt_of:
  assumes "pt_of v virt = Some t"
  defines "e \<equiv> rd_pte (t, PT_INDEX virt) v"
  shows "translate v virt = (if on e PAGE_FLAG_PRESENT then Some (e AND PAGE_ADDR_MASK, e AND NOT PAGE_ADDR_MASK) else None)"
proof -
  let ?p = "[PML4_INDEX virt, PDPT_INDEX virt, PD_INDEX virt]"
  have "translate v virt = mmu (pt_entry (vm_pmm v)) 0 (vm_root v) (?p @ [PT_INDEX virt])"
    by (simp add: translate_def page_of_def)
  also have "\<dots> = mmu (pt_entry (vm_pmm v)) (0 + length ?p) t [PT_INDEX virt]"
    using assms(1) by (intro mmu_append) (simp add: pt_of_def)
  finally show ?thesis by (simp add: is_leaf_def leaf_map_def e_def rd_pte_def)
qed

lemma paging_get_translate:
  "paging_get_phys virt v = (if pt_of v virt = None then 0 else case translate v virt of None \<Rightarrow> 0 | Some (a, f) \<Rightarrow> a)"
  "paging_get_flags virt v = (if pt_of v virt = None then 0 else case translate v virt of None \<Rightarrow> 0 | Some (a, f) \<Rightarrow> f)"
  using translate_pt_of [of v virt]
  by (auto simp: paging_get_phys_def paging_get_flags_def walk_pte_pt_of split: option.splits)

lemma wr_pte_pt_of:
  assumes "vm_inv v" "pt_of v virt = Some t"
  shows "pt_of (wr_pte (t, PT_INDEX virt) e v) va = pt_of v va"
  using wr_pte_translate(5) [OF assms(1) assms(2) [unfolded pt_of_def], of "[PML4_INDEX va, PDPT_INDEX va, PD_INDEX va]" e]
  by (simp add: pt_of_def index_less) (simp add: wr_pte_def)

section \<open>Removal and protection\<close>

text \<open>Unmapping a page removes exactly its translation, and protecting it changes exactly its flags.
  Both act on pages with a 4 KiB entry only: a page inside a 2 MiB or 1 GiB mapping stays mapped,
  and \<open>paging_protect\<close> reports -1 for it.
\<close>

theorem paging_unmap_protect_exact:
  assumes inv: "vm_inv v" and fl: "flags AND PAGE_ADDR_MASK = 0" "on flags PAGE_FLAG_PRESENT"
  shows "vm_inv (paging_unmap virt v) \<and>
    (\<forall>va. translate (paging_unmap virt v) va =
       (if page_of va = page_of virt \<and> pt_of v virt \<noteq> None then None else translate v va)) \<and>
    (case paging_protect virt flags v of (rc, v') \<Rightarrow> vm_inv v' \<and>
       (if pt_of v virt = None \<or> translate v virt = None then rc = -1 \<and> v' = v
        else rc = 0 \<and> (\<forall>va. translate v' va =
          (if page_of va = page_of virt then map_option (\<lambda>(a, f). (a, flags)) (translate v virt) else translate v va))))"
proof (cases "pt_of v virt")
  case None
  then show ?thesis using inv by (simp add: paging_unmap_def paging_protect_def walk_pte_pt_of)
next
  case (Some t)
  define e where "e = rd_pte (t, PT_INDEX virt) v"
  have same: "translate v va = translate v virt" if "page_of va = page_of virt" for va v using that by (simp add: translate_def)
  note tr = translate_pt_of [OF Some, folded e_def]
  note t = Some [unfolded pt_of_def]
  show ?thesis
  proof (cases "on e PAGE_FLAG_PRESENT")
    case False
    then have u: "paging_unmap virt v = v" "paging_protect virt flags v = (-1, v)"
      using Some by (simp_all add: paging_unmap_def paging_protect_def walk_pte_pt_of e_def)
    have n: "translate v virt = None" using tr False by simp
    have "translate v va = (if page_of va = page_of virt \<and> pt_of v virt \<noteq> None then None else translate v va)" for va
      using same [of va v] n by (cases "page_of va = page_of virt") simp_all
    then show ?thesis unfolding u using inv n by simp
  next
    case True
    let ?e = "(e AND PAGE_ADDR_MASK) OR flags"
    have u: "paging_unmap virt v = wr_pte (t, PT_INDEX virt) 0 v"
      and q: "paging_protect virt flags v = (0, wr_pte (t, PT_INDEX virt) ?e v)"
      using True Some by (simp_all add: paging_unmap_def paging_protect_def walk_pte_pt_of e_def)
    note w0 = wr_pte_translate [OF inv t, where e = 0]
    note w1 = wr_pte_translate [OF inv t, where e = ?e]
    note parts = entry_parts [OF addr_word_and [of e] fl(1)]
    have n0: "\<not> on 0 PAGE_FLAG_PRESENT" by (simp add: on_def)
    have n1: "on ?e PAGE_FLAG_PRESENT" using parts(4) [of 0] fl(2) by (simp add: on_flags)
    have a: "translate (wr_pte (t, PT_INDEX virt) 0 v) va = (if page_of va = page_of virt then None else translate v va)" for va
    proof (cases "page_of va = page_of virt")
      case True
      from same [OF this, of "wr_pte (t, PT_INDEX virt) 0 v"] show ?thesis using w0(2) n0 True by simp
    qed (use w0(3) in simp)
    have b: "translate (wr_pte (t, PT_INDEX virt) ?e v) va =
        (if page_of va = page_of virt then Some (e AND PAGE_ADDR_MASK, flags) else translate v va)" for va
    proof (cases "page_of va = page_of virt")
      case True
      from same [OF this, of "wr_pte (t, PT_INDEX virt) ?e v"] show ?thesis using w1(2) n1 True parts(1,2) by simp
    qed (use w1(3) in simp)
    show ?thesis unfolding u q using w0(1) w1(1) a b Some True tr by simp
  qed
qed

section \<open>Copy on write\<close>

lemma page_of_align: "page_of (a AND NOT (mask 12)) = page_of a"
proof -
  have "drop_bit k (a AND NOT (mask 12)) = drop_bit k a" if "12 \<le> k" for k
    by (rule bit_word_eqI) (use that in \<open>auto simp: bit_simps dest: bit_imp_le_length\<close>)
  then show ?thesis by (simp add: page_of_def PML4_INDEX_def PDPT_INDEX_def PD_INDEX_def PT_INDEX_def)
qed

lemma same_page:
  assumes "page_of a = page_of b"
  shows "PML4_INDEX a = PML4_INDEX b" "PT_INDEX a = PT_INDEX b" "pt_of v a = pt_of v b" "translate v a = translate v b"
  using assms by (simp_all add: page_of_def pt_of_def translate_def)

text \<open>Changes of the memory outside the tables.\<close>

lemma same_tables:
  assumes same: "\<And>b j. b \<in> tables R root \<Longrightarrow> j < 512 \<Longrightarrow> R' b j = R b j"
  shows "set q \<subseteq> {..<512} \<Longrightarrow> tab R' 0 root q = tab R 0 root q" "set q \<subseteq> {..<512} \<Longrightarrow> mmu R' 0 root q = mmu R 0 root q"
    "tables R' root = tables R root" "pt_tree R' root = pt_tree R root" "large_ok R root \<Longrightarrow> large_ok R' root"
proof -
  have e: "R' b (q ! k) = R b (q ! k)" if "set q \<subseteq> {..<512}" "k < length q" "tab R 0 root (take k q) = Some b" for q k b
  proof (rule same)
    have "set (take k q) \<subseteq> {..<512}" by (rule order.trans [OF set_take_subset that(1)])
    then show "b \<in> tables R root" using that(3) by (rule tab_in_tables)
    have "q ! k \<in> set q" using that(2) by simp
    then show "q ! k < 512" using that(1) by (simp add: subset_iff)
  qed
  show t: "set q \<subseteq> {..<512} \<Longrightarrow> tab R' 0 root q = tab R 0 root q" for q by (rule tab_cong) (rule e)
  show "set q \<subseteq> {..<512} \<Longrightarrow> mmu R' 0 root q = mmu R 0 root q" by (rule mmu_cong) (rule e)
  show "tables R' root = tables R root" using t by (auto simp: tables_def)
  show "pt_tree R' root = pt_tree R root" using t by (simp add: pt_tree_def)
  assume l: "large_ok R root"
  show "large_ok R' root"
    unfolding large_ok_def
  proof (intro allI impI)
    fix q a and i :: nat assume q: "set q \<subseteq> {..<512}" "tab R' 0 root q = Some a" "i < 512"
    then have "tab R 0 root q = Some a" using t by simp
    then have "a \<in> tables R root" "large_at (length q) (R a i)" using l q tab_in_tables unfolding large_ok_def by blast+
    then show "large_at (length q) (R' a i)" using same [of a i] q(3) by simp
  qed
qed

lemma pt_inv_outside:
  assumes inv: "pt_inv st root" and st': "pmm_inv st'" "nframes st' = nframes st"
    and tab: "\<forall>a \<in> tables (pt_entry st) root. \<forall>x. a \<le> x \<and> x < a + 4096 \<longrightarrow> phys_mem st' x = phys_mem st x"
      "\<forall>a \<in> tables (pt_entry st) root. 0 < frame_refs st' a"
  shows "pt_inv st' root" "tables (pt_entry st') root = tables (pt_entry st) root"
    "set q \<subseteq> {..<512} \<Longrightarrow> tab (pt_entry st') 0 root q = tab (pt_entry st) 0 root q"
    "set q \<subseteq> {..<512} \<Longrightarrow> mmu (pt_entry st') 0 root q = mmu (pt_entry st) 0 root q"
    "b \<in> tables (pt_entry st) root \<Longrightarrow> j < 512 \<Longrightarrow> pt_entry st' b j = pt_entry st b j"
proof -
  have e: "pt_entry st' b j = pt_entry st b j" if "b \<in> tables (pt_entry st) root" "j < 512" for b j
    using that tab(1) by (intro pt_entry_mem) auto
  then show "b \<in> tables (pt_entry st) root \<Longrightarrow> j < 512 \<Longrightarrow> pt_entry st' b j = pt_entry st b j" .
  note s = same_tables [of "pt_entry st" root "pt_entry st'", OF e]
  show t: "tables (pt_entry st') root = tables (pt_entry st) root" by (rule s(3))
  show "set q \<subseteq> {..<512} \<Longrightarrow> tab (pt_entry st') 0 root q = tab (pt_entry st) 0 root q"
    "set q \<subseteq> {..<512} \<Longrightarrow> mmu (pt_entry st') 0 root q = mmu (pt_entry st) 0 root q" by (rule s; assumption)+
  show "pt_inv st' root" using inv st' tab(2) s(4,5) t by (simp add: pt_inv_def)
qed

lemma held_refcount:
  assumes inv: "pmm_inv st" and "0 < frame_refs st p"
  shows "pmm_get_frame_refcount p st = frame_refs st p"
proof -
  have i: "p mod 4096 = 0" "p div 4096 < nframes st" "0 < refcount st ! (p div 4096)" "frame_refs st p = refcount st ! (p div 4096)"
    using assms(2) by (auto simp: frame_refs_def frame_count_def split: if_splits)
  then have "p div 4096 \<noteq> 0" using inv by (auto simp: pmm_inv_def)
  then show ?thesis using i by (simp add: pmm_get_frame_refcount_def pmm_consts Let_def)
qed

lemma pmm_free_mem [simp]: "phys_mem (pmm_free_frame p st) = phys_mem st" "nframes (pmm_free_frame p st) = nframes st"
  by (simp_all add: pmm_free_frame_def Let_def)

text \<open>The entry of a page that is marked for copying.\<close>

definition cow_page :: "vm_state \<Rightarrow> u64 \<Rightarrow> u64 \<Rightarrow> u64 \<Rightarrow> bool" where
  "cow_page v virt old f \<longleftrightarrow> pt_of v virt \<noteq> None \<and> translate v virt = Some (old, f) \<and> on f PAGE_FLAG_USER \<and> on f PAGE_FLAG_COW \<and>
     PML4_INDEX virt < PML4_USER_TOP \<and> 0 < frame_refs (vm_pmm v) (unat old) \<and>
     unat old \<notin> tables (pt_entry (vm_pmm v)) (vm_root v)"

lemma cow_page_entry:
  assumes cow: "cow_page v fault_addr old f"
  defines "virt \<equiv> fault_addr AND NOT (mask 12)"
  obtains t e where "pt_of v virt = Some t" "e = rd_pte (t, PT_INDEX virt) v" "on e PAGE_FLAG_PRESENT" "on e PAGE_FLAG_USER"
    "on e PAGE_FLAG_COW" "e AND PAGE_ADDR_MASK = old" "e AND NOT PAGE_ADDR_MASK = f" "PML4_INDEX virt < PML4_USER_TOP"
    "walk_pte virt False v = (Some (t, PT_INDEX virt), v)" "page_of virt = page_of fault_addr"
proof -
  have pg: "page_of virt = page_of fault_addr" by (simp add: virt_def page_of_align)
  note sp = same_page [OF pg]
  obtain t where t: "pt_of v virt = Some t" using cow sp(3) [of v] by (auto simp: cow_page_def)
  define e where "e = rd_pte (t, PT_INDEX virt) v"
  have tr: "translate v virt = Some (old, f)" using cow sp(4) [of v] by (simp add: cow_page_def)
  with translate_pt_of [OF t, folded e_def] have p: "on e PAGE_FLAG_PRESENT" "e AND PAGE_ADDR_MASK = old" "e AND NOT PAGE_ADDR_MASK = f"
    by (auto split: if_splits)
  have b: "bit f n \<longleftrightarrow> bit e n" if "n < 12" for n
    unfolding p(3) [symmetric] using that by (auto simp: bit_simps PAGE_ADDR_MASK_bit dest: bit_imp_le_length)
  have "on e PAGE_FLAG_USER" "on e PAGE_FLAG_COW" using cow b [of 2] b [of 9] by (simp_all add: cow_page_def on_flags)
  moreover have "walk_pte virt False v = (Some (t, PT_INDEX virt), v)" by (simp add: walk_pte_pt_of t)
  moreover have "PML4_INDEX virt < PML4_USER_TOP" using cow sp(1) by (simp add: cow_page_def)
  ultimately show thesis using that [OF t e_def p(1)] p(2,3) pg by blast
qed

definition cow_flags :: "u64 \<Rightarrow> u64" where
  "cow_flags f = (f AND NOT PAGE_FLAG_COW) OR PAGE_FLAG_WRITABLE"

lemma cow_flags:
  assumes "f AND PAGE_ADDR_MASK = 0" "on f PAGE_FLAG_PRESENT"
  shows "cow_flags f AND PAGE_ADDR_MASK = 0" "bit (cow_flags f) 0" "on (cow_flags f) PAGE_FLAG_WRITABLE" "\<not> on (cow_flags f) PAGE_FLAG_COW"
proof -
  have n: "n < 12 \<or> 52 \<le> n" if "bit f n" for n
  proof -
    have "\<not> bit (f AND PAGE_ADDR_MASK) n" using assms(1) by simp
    then show ?thesis using that by (auto simp: bit_and_iff PAGE_ADDR_MASK_bit)
  qed
  have b: "bit (cow_flags f) n \<longleftrightarrow> n = 1 \<or> bit f n \<and> n \<noteq> 9" for n
    by (auto simp: cow_flags_def bit_simps flag_bits dest: bit_imp_le_length)
  show "cow_flags f AND PAGE_ADDR_MASK = 0" by (rule small_flags) (use n b in fastforce)
  show "bit (cow_flags f) 0" "on (cow_flags f) PAGE_FLAG_WRITABLE" "\<not> on (cow_flags f) PAGE_FLAG_COW"
    using assms(2) by (simp_all add: b on_flags)
qed

lemma wr_pte_mem:
  assumes inv: "vm_inv v" and t: "pt_of v virt = Some t"
    and q: "0 < frame_refs (vm_pmm v) q" "q \<notin> tables (pt_entry (vm_pmm v)) (vm_root v)" "q \<le> x" "x < q + 4096"
  shows "phys_mem (vm_pmm (wr_pte (t, PT_INDEX virt) e v)) x = phys_mem (vm_pmm v) x"
proof -
  have tT: "t \<in> tables (pt_entry (vm_pmm v)) (vm_root v)"
    by (rule tab_in_tables [OF _ t [unfolded pt_of_def]]) (simp add: index_less)
  then have "4096 dvd t" using inv by (intro pt_inv_table(1)) (auto simp: vm_inv_def)
  moreover have "4096 dvd q" using frame_refs_pos [OF q(1)] by auto
  moreover have "q \<noteq> t" using q(2) tT by auto
  ultimately have "x < t \<or> t + 4096 \<le> x" using page_apart [of q t] q(3,4) by auto
  then show ?thesis using index_less(4) [of virt] by (auto simp: wr_pte_def set_entry_other)
qed

text \<open>The frame is held once: the page becomes writable in place.\<close>

lemma cow_fault_last:
  assumes inv: "vm_inv v" and cow: "cow_page v fault_addr old f" and err: "err_code AND 3 = 3"
    and one: "frame_refs (vm_pmm v) (unat old) = 1"
  obtains v' where "paging_handle_cow_fault fault_addr err_code v = (1, v')" "vm_inv v'"
    "translate v' fault_addr = Some (old, cow_flags f)"
    "\<And>va. page_of va \<noteq> page_of fault_addr \<Longrightarrow> translate v' va = translate v va"
    "frame_refs (vm_pmm v') = frame_refs (vm_pmm v)"
    "\<And>q x. 0 < frame_refs (vm_pmm v) q \<Longrightarrow> q \<notin> tables (pt_entry (vm_pmm v)) (vm_root v) \<Longrightarrow> q \<le> x \<Longrightarrow> x < q + 4096 \<Longrightarrow>
       phys_mem (vm_pmm v') x = phys_mem (vm_pmm v) x"
proof -
  define virt where "virt = fault_addr AND NOT (mask 12)"
  obtain t e where e: "pt_of v virt = Some t" "e = rd_pte (t, PT_INDEX virt) v" "on e PAGE_FLAG_PRESENT" "on e PAGE_FLAG_USER"
    "on e PAGE_FLAG_COW" "e AND PAGE_ADDR_MASK = old" "e AND NOT PAGE_ADDR_MASK = f" "PML4_INDEX virt < PML4_USER_TOP"
    "walk_pte virt False v = (Some (t, PT_INDEX virt), v)" "page_of virt = page_of fault_addr"
    unfolding virt_def by (rule cow_page_entry [OF cow])
  have pmm: "pmm_inv (vm_pmm v)" using inv by (simp add: vm_inv_def pt_inv_def)
  have rc: "pmm_get_frame_refcount (unat old) (vm_pmm v) = 1" using held_refcount [OF pmm] one by simp
  have fm: "f AND PAGE_ADDR_MASK = 0" using flags_clear(2) [of e] e(7) by simp
  have f0: "on f PAGE_FLAG_PRESENT" using e(3) unfolding e(7) [symmetric]
    by (simp add: on_flags bit_simps PAGE_ADDR_MASK_bit)
  note cf = cow_flags [OF fm f0]
  let ?v = "wr_pte (t, PT_INDEX virt) (old OR cow_flags f) v"
  have fl: "(e AND NOT PAGE_ADDR_MASK AND NOT PAGE_FLAG_COW) OR PAGE_FLAG_WRITABLE = cow_flags f"
    by (simp add: cow_flags_def e(7) [symmetric] and.assoc)
  have res: "paging_handle_cow_fault fault_addr err_code v = (1, ?v)"
    using err e rc fl by (simp add: paging_handle_cow_fault_def virt_def [symmetric] Let_def)
  have ow: "addr_word old" using addr_word_and [of e] e(6) by simp
  note parts = entry_parts [OF ow cf(1)]
  note w = wr_pte_translate [OF inv e(1) [unfolded pt_of_def], where e = "old OR cow_flags f"]
  have "on (old OR cow_flags f) PAGE_FLAG_PRESENT" using parts(4) [of 0] cf(2) by (simp add: on_flags)
  then have tr: "translate ?v fault_addr = Some (old, cow_flags f)"
    using w(2) parts(1,2) same_page(4) [OF e(10), of ?v] by simp
  show thesis
  proof (rule that [OF res w(1) tr])
    show "translate ?v va = translate v va" if "page_of va \<noteq> page_of fault_addr" for va using w(3) that e(10) by simp
    show "frame_refs (vm_pmm ?v) = frame_refs (vm_pmm v)" by (simp add: wr_pte_def)
    show "phys_mem (vm_pmm ?v) x = phys_mem (vm_pmm v) x"
      if "0 < frame_refs (vm_pmm v) q" "q \<notin> tables (pt_entry (vm_pmm v)) (vm_root v)" "q \<le> x" "x < q + 4096" for q x
      by (rule wr_pte_mem [OF inv e(1) that])
  qed
qed

text \<open>The frame is shared: the page moves to a copy.\<close>

lemma cow_fault_copy:
  assumes inv: "vm_inv v" and cow: "cow_page v fault_addr old f" and err: "err_code AND 3 = 3"
    and more: "1 < frame_refs (vm_pmm v) (unat old)" and free: "0 < free_frames (vm_pmm v)"
  obtains v' new where "paging_handle_cow_fault fault_addr err_code v = (1, v')" "vm_inv v'"
    "translate v' fault_addr = Some (new, cow_flags f)"
    "\<And>va. page_of va \<noteq> page_of fault_addr \<Longrightarrow> translate v' va = translate v va"
    "frame_refs (vm_pmm v) (unat new) = 0"
    "frame_refs (vm_pmm v') = (frame_refs (vm_pmm v))(unat new := 1, unat old := frame_refs (vm_pmm v) (unat old) - 1)"
    "\<And>k. k < 4096 \<Longrightarrow> phys_mem (vm_pmm v') (unat new + k) = phys_mem (vm_pmm v) (unat old + k)"
    "\<And>q x. 0 < frame_refs (vm_pmm v) q \<Longrightarrow> q \<notin> tables (pt_entry (vm_pmm v)) (vm_root v) \<Longrightarrow> q \<le> x \<Longrightarrow> x < q + 4096 \<Longrightarrow>
       phys_mem (vm_pmm v') x = phys_mem (vm_pmm v) x"
proof -
  define virt where "virt = fault_addr AND NOT (mask 12)"
  obtain t e where e: "pt_of v virt = Some t" "e = rd_pte (t, PT_INDEX virt) v" "on e PAGE_FLAG_PRESENT" "on e PAGE_FLAG_USER"
    "on e PAGE_FLAG_COW" "e AND PAGE_ADDR_MASK = old" "e AND NOT PAGE_ADDR_MASK = f" "PML4_INDEX virt < PML4_USER_TOP"
    "walk_pte virt False v = (Some (t, PT_INDEX virt), v)" "page_of virt = page_of fault_addr"
    unfolding virt_def by (rule cow_page_entry [OF cow])
  let ?st = "vm_pmm v" and ?root = "vm_root v"
  let ?T = "tables (pt_entry ?st) ?root"
  have pinv: "pt_inv ?st ?root" and pmm: "pmm_inv ?st" using inv by (simp_all add: vm_inv_def pt_inv_def)
  have oldT: "unat old \<notin> ?T" using cow by (simp add: cow_page_def)
  have held: "0 < frame_refs ?st (unat old)" using more by simp
  have rc: "\<not> pmm_get_frame_refcount (unat old) ?st \<le> 1" using held_refcount [OF pmm held] more by simp
  obtain np st1 where al: "pmm_alloc_frame ?st = (np, st1)" by fastforce
  have np0: "np \<noteq> 0" by (rule alloc_free_frames(1) [OF pmm free al])
  note a = alloc_page [OF pmm al np0]
  have npT: "np \<notin> ?T" using a(3) pinv by (auto simp: pt_inv_def)
  have nplt: "np < 2 ^ 52" using a(2) pinv by (auto simp: pt_inv_def)
  have nw: "addr_word (word_of_nat np)" "unat (word_of_nat np :: u64) = np" using addr_word_of_nat [OF a(1) nplt] by auto
  have od: "4096 dvd unat old" using frame_refs_pos [OF held] by auto
  have on: "unat old \<noteq> np" using a(3) held by auto
  define st2 where "st2 = copy_page np (unat old) st1"
  have m2: "phys_mem st2 x = (if np \<le> x \<and> x < np + 4096 then phys_mem ?st (unat old + (x - np)) else phys_mem ?st x)" for x
    using page_apart [OF od a(1) on] by (auto simp: st2_def copy_page_def PAGE_SIZE_BYTES_def a(7))
  have f2: "pmm_inv st2" "nframes st2 = nframes ?st" "frame_refs st2 = (frame_refs ?st)(np := 1)"
    using a(4,5,6) by (simp_all add: st2_def copy_page_def)
  have keep: "phys_mem st2 x = phys_mem ?st x" if "q \<le> x" "x < q + 4096" "0 < frame_refs ?st q" for q x
  proof -
    have "4096 dvd q" "q \<noteq> np" using frame_refs_pos [OF that(3)] that(3) a(3) by auto
    then show ?thesis using page_apart [of q np] a(1) that(1,2) m2 by auto
  qed
  have tT: "t \<in> ?T" by (rule tab_in_tables [OF _ e(1) [unfolded pt_of_def]]) (simp add: index_less)
  have hT: "0 < frame_refs ?st b" if "b \<in> ?T" for b by (rule pt_inv_table(2) [OF pinv that])
  have tk: "\<forall>b \<in> ?T. \<forall>x. b \<le> x \<and> x < b + 4096 \<longrightarrow> phys_mem st2 x = phys_mem ?st x" using keep hT by blast
  have th: "\<forall>b \<in> ?T. 0 < frame_refs st2 b" using hT f2(3) by simp
  note out = pt_inv_outside [OF pinv f2(1,2) tk th]
  define v2 where "v2 = v\<lparr>vm_pmm := st2\<rparr>"
  have v2: "vm_inv v2" "pt_of v2 va = pt_of v va" "translate v2 va = translate v va" for va
    using out(1) out(3) [of "[PML4_INDEX va, PDPT_INDEX va, PD_INDEX va]"] out(4) [OF page_of(2) [of va]] index_less
    by (simp_all only: vm_inv_def v2_def pt_of_def translate_def vm_state.simps) simp_all
  have e2: "rd_pte (t, PT_INDEX virt) v2 = e" using out(5) [OF tT index_less(4)] e(2) by (simp add: rd_pte_def v2_def)
  have fm: "f AND PAGE_ADDR_MASK = 0" using flags_clear(2) [of e] e(7) by simp
  have f0: "on f PAGE_FLAG_PRESENT" using e(3) unfolding e(7) [symmetric] by (simp add: on_flags bit_simps PAGE_ADDR_MASK_bit)
  note cf = cow_flags [OF fm f0]
  have fl: "(e AND NOT PAGE_ADDR_MASK AND NOT PAGE_FLAG_COW) OR PAGE_FLAG_WRITABLE = cow_flags f"
    by (simp add: cow_flags_def e(7) [symmetric] and.assoc)
  let ?e = "word_of_nat np OR cow_flags f"
  define v3 where "v3 = wr_pte (t, PT_INDEX virt) ?e v2"
  let ?v = "v3\<lparr>vm_pmm := pmm_free_frame (unat old) (vm_pmm v3)\<rparr>"
  have res: "paging_handle_cow_fault fault_addr err_code v = (1, ?v)"
    using err e rc fl al np0
    by (simp add: paging_handle_cow_fault_def virt_def [symmetric] Let_def v3_def v2_def st2_def)
  note w = wr_pte_translate [OF v2(1) v2(2) [of virt, unfolded e(1), unfolded pt_of_def], where e = ?e, folded v3_def]
  note parts = entry_parts [OF nw(1) cf(1)]
  have pe: "on ?e PAGE_FLAG_PRESENT" using parts(4) [of 0] cf(2) by (simp add: on_flags)
  have r3: "frame_refs (vm_pmm v3) = (frame_refs ?st)(np := 1)" "pmm_inv (vm_pmm v3)" "nframes (vm_pmm v3) = nframes ?st" "vm_root v3 = ?root"
    using f2 by (simp_all add: v3_def v2_def wr_pte_def)
  have rf: "frame_refs (vm_pmm ?v) = (frame_refs ?st)(np := 1, unat old := frame_refs ?st (unat old) - 1)"
    using pmm.free_refs [OF r3(2), of "unat old"] held on by (simp add: r3(1))
  have R: "pt_entry (vm_pmm ?v) = pt_entry (vm_pmm v3)" by (simp add: pt_entry_def fun_eq_iff)
  then have tr: "translate ?v va = translate v3 va" for va by (simp add: translate_def)
  have T3: "tables (pt_entry (vm_pmm v3)) ?root = ?T" using w(4) out(2) by (simp add: v2_def)
  have "\<forall>b \<in> ?T. 0 < frame_refs (vm_pmm ?v) b" unfolding rf using hT npT oldT by auto
  then have inv': "vm_inv ?v"
    using w(1) pmm.free_inv [OF r3(2)] T3 R r3(4) by (simp add: vm_inv_def pt_inv_def)
  have tf: "translate ?v fault_addr = Some (word_of_nat np, cow_flags f)"
    using w(2) pe parts(1,2) same_page(4) [OF e(10), of v3] by (simp add: tr)
  have mem: "phys_mem (vm_pmm ?v) x = phys_mem st2 x" if "x < t \<or> t + 4096 \<le> x" for x
    using that index_less(4) [of virt] by (auto simp: v3_def v2_def wr_pte_def set_entry_other)
  have td: "4096 dvd t" by (rule pt_inv_table(1) [OF pinv tT])
  show thesis
  proof (rule that [OF res inv' tf])
    show "translate ?v va = translate v va" if "page_of va \<noteq> page_of fault_addr" for va
      using w(3) [of va] that e(10) v2(3) by (simp add: tr)
    show "frame_refs ?st (unat (word_of_nat np :: u64)) = 0" using a(3) nw(2) by simp
    show "frame_refs (vm_pmm ?v) = (frame_refs ?st)(unat (word_of_nat np :: u64) := 1, unat old := frame_refs ?st (unat old) - 1)"
      using rf nw(2) by simp
    show "phys_mem (vm_pmm ?v) (unat (word_of_nat np :: u64) + k) = phys_mem ?st (unat old + k)" if "k < 4096" for k
    proof -
      have "t \<noteq> np" using tT npT by auto
      then have "phys_mem (vm_pmm ?v) (np + k) = phys_mem st2 (np + k)"
        using page_apart [OF td a(1)] that by (intro mem) auto
      then show ?thesis using that nw(2) by (simp add: m2)
    qed
    fix q x assume q: "0 < frame_refs ?st q" "q \<notin> ?T" "q \<le> x" "x < q + 4096"
    have "q \<noteq> t" "4096 dvd q" using q(2) tT frame_refs_pos [OF q(1)] by auto
    then have "phys_mem (vm_pmm ?v) x = phys_mem st2 x" using page_apart [OF _ td, of q] q(3,4) by (intro mem) auto
    then show "phys_mem (vm_pmm ?v) x = phys_mem ?st x" using keep [OF q(3,4,1)] by simp
  qed
qed

text \<open>A copy-on-write fault ends with a private page.  If the page is marked for copying and a frame
  is free (or nobody else holds the frame), \<open>paging_handle_cow_fault\<close> reports success, and afterwards
  the page is writable, no longer marked, and translates to a frame that is held exactly once and
  has the old contents.  A copied frame loses exactly one reference.  Every other page translates as
  before and no byte of a held frame outside the page tables changes, so the other owners of the
  frame see nothing.
\<close>

theorem cow_fault_private:
  assumes "vm_inv v" "cow_page v fault_addr old f" "err_code AND 3 = 3"
    "frame_refs (vm_pmm v) (unat old) = 1 \<or> 0 < free_frames (vm_pmm v)"
  shows "\<exists>v' new. paging_handle_cow_fault fault_addr err_code v = (1, v') \<and> vm_inv v' \<and>
    translate v' fault_addr = Some (new, cow_flags f) \<and>
    (\<forall>va. page_of va \<noteq> page_of fault_addr \<longrightarrow> translate v' va = translate v va) \<and>
    frame_refs (vm_pmm v') (unat new) = 1 \<and>
    (new \<noteq> old \<longrightarrow> frame_refs (vm_pmm v') (unat old) = frame_refs (vm_pmm v) (unat old) - 1) \<and>
    (\<forall>k < 4096. phys_mem (vm_pmm v') (unat new + k) = phys_mem (vm_pmm v) (unat old + k)) \<and>
    (\<forall>q x. 0 < frame_refs (vm_pmm v) q \<longrightarrow> q \<notin> tables (pt_entry (vm_pmm v)) (vm_root v) \<longrightarrow> q \<le> x \<longrightarrow> x < q + 4096 \<longrightarrow>
       phys_mem (vm_pmm v') x = phys_mem (vm_pmm v) x)"
proof (cases "frame_refs (vm_pmm v) (unat old) = 1")
  case True
  have c: "0 < frame_refs (vm_pmm v) (unat old)" "unat old \<notin> tables (pt_entry (vm_pmm v)) (vm_root v)"
    using assms(2) by (auto simp: cow_page_def)
  show ?thesis
  proof (rule cow_fault_last [OF assms(1-3) True], goal_cases)
    case (1 v')
    then have "\<forall>k < 4096. phys_mem (vm_pmm v') (unat old + k) = phys_mem (vm_pmm v) (unat old + k)" using c by simp
    with 1 True show ?case by (intro exI [of _ v'] exI [of _ old]) simp
  qed
next
  case False
  have m: "1 < frame_refs (vm_pmm v) (unat old)" using assms(2) False by (auto simp: cow_page_def)
  have fr: "0 < free_frames (vm_pmm v)" using assms(4) False by simp
  show ?thesis
  proof (rule cow_fault_copy [OF assms(1-3) m fr], goal_cases)
    case (1 v' new)
    have "unat new \<noteq> unat old" using 1(5) m by auto
    with 1 show ?case by (intro exI [of _ v'] exI [of _ new]) simp
  qed
qed

text \<open>Out of memory makes a copy-on-write fault repeat for ever.  If the frame is shared and no frame
  is free, \<open>paging_handle_cow_fault\<close> reports failure and leaves everything as it was; the exception
  handler then asks \<open>paging_user_fault_resolved\<close>, which takes the mark for a permission to write and
  answers that the access is already allowed, so the handler returns to the same instruction with
  the same tables.
\<close>

theorem cow_fault_oom_repeats:
  assumes inv: "vm_inv v" and cow: "cow_page v fault_addr old f" and err: "err_code AND 3 = 3" "\<not> on err_code 0x10"
    and more: "1 < frame_refs (vm_pmm v) (unat old)" and oom: "free_frames (vm_pmm v) = 0"
  shows "paging_handle_cow_fault fault_addr err_code v = (0, v) \<and> paging_user_fault_resolved fault_addr err_code v = 1"
proof -
  define virt where "virt = fault_addr AND NOT (mask 12)"
  obtain t e where e: "pt_of v virt = Some t" "e = rd_pte (t, PT_INDEX virt) v" "on e PAGE_FLAG_PRESENT" "on e PAGE_FLAG_USER"
    "on e PAGE_FLAG_COW" "e AND PAGE_ADDR_MASK = old" "e AND NOT PAGE_ADDR_MASK = f" "PML4_INDEX virt < PML4_USER_TOP"
    "walk_pte virt False v = (Some (t, PT_INDEX virt), v)" "page_of virt = page_of fault_addr"
    unfolding virt_def by (rule cow_page_entry [OF cow])
  have pmm: "pmm_inv (vm_pmm v)" using inv by (simp add: vm_inv_def pt_inv_def)
  have rc: "\<not> pmm_get_frame_refcount (unat old) (vm_pmm v) \<le> 1" using held_refcount [OF pmm, of "unat old"] more by simp
  have al: "pmm_alloc_frame (vm_pmm v) = (0, vm_pmm v)"
    using pmm
  proof (rule pmm_alloc_frame_cases)
    fix i assume i: "i < nframes (vm_pmm v)" "\<not> bm_test (bitmap (vm_pmm v)) i"
    have "0 < count_upto (\<lambda>i. \<not> bm_test (bitmap (vm_pmm v)) i) (nframes (vm_pmm v))" by (rule count_upto_pos) (use i in auto)
    then show ?thesis using pmm oom by (simp add: pmm_inv_def)
  qed
  have "bit (e AND (PAGE_FLAG_WRITABLE OR PAGE_FLAG_COW)) 9" using e(5) by (simp add: on_flags bit_simps flag_bits)
  then have wc: "on e (PAGE_FLAG_WRITABLE OR PAGE_FLAG_COW)" by (auto simp: on_def)
  have "paging_handle_cow_fault fault_addr err_code v = (0, v)"
    using err e rc al by (simp add: paging_handle_cow_fault_def virt_def [symmetric] Let_def)
  moreover have "paging_user_fault_resolved fault_addr err_code v = 1"
    using err(2) e wc by (simp add: paging_user_fault_resolved_def virt_def [symmetric] Let_def)
  ultimately show ?thesis by simp
qed

section \<open>Examples\<close>

text \<open>The shared frame of \<open>demo_vm\<close>, mapped at 0x400000 for copying on write.\<close>

definition demo_cow :: u64 where
  "demo_cow = PAGE_FLAG_PRESENT OR PAGE_FLAG_USER OR PAGE_FLAG_COW"

definition demo_vm_cow :: vm_state where
  "demo_vm_cow = paging_map 0x400000 (of_nat demo_page) demo_cow demo_vm"

definition demo_vm_full :: vm_state where
  "demo_vm_full = demo_vm_cow\<lparr>vm_pmm := ((\<lambda>s. snd (pmm_alloc_frame s)) ^^ free_frames (vm_pmm demo_vm_cow)) (vm_pmm demo_vm_cow)\<rparr>"

lemma demo_cow: "demo_cow AND PAGE_ADDR_MASK = 0" "on demo_cow PAGE_FLAG_PRESENT" "on demo_cow PAGE_FLAG_USER" "on demo_cow PAGE_FLAG_COW"
  by (simp_all add: demo_cow_def on_def PAGE_FLAG_PRESENT_def PAGE_FLAG_USER_def PAGE_FLAG_COW_def PAGE_ADDR_MASK_def)

lemma demo_page_word: "of_nat demo_page AND PAGE_ADDR_MASK = (of_nat demo_page :: u64)" "unat (of_nat demo_page :: u64) = demo_page"
proof -
  show u: "unat (of_nat demo_page :: u64) = demo_page"
    using demo_vm(7) by (simp add: unat_of_nat take_bit_nat_eq_self)
  show "of_nat demo_page AND PAGE_ADDR_MASK = (of_nat demo_page :: u64)"
    using addr_word_of_nat [OF demo_vm(6,7)] by (simp add: addr_word_def)
qed

lemma demo_vm_cow:
  "vm_inv demo_vm_cow" "cow_page demo_vm_cow 0x400000 (of_nat demo_page) demo_cow"
  "frame_refs (vm_pmm demo_vm_cow) demo_page = 2" "0 < free_frames (vm_pmm demo_vm_cow)"
proof -
  have n: "3 \<le> free_frames (vm_pmm demo_vm)" "demo_page \<notin> tables (pt_entry (vm_pmm demo_vm)) (vm_root demo_vm)"
    "0 < frame_refs (vm_pmm demo_vm) demo_page" using demo_vm(2-5) by simp_all
  note e = paging_map_effect [OF demo_vm(1) n(1) demo_cow(1,2), where virt = "0x400000" and phys = "of_nat demo_page", folded demo_vm_cow_def]
  show "vm_inv demo_vm_cow" by (rule e(1))
  show r: "frame_refs (vm_pmm demo_vm_cow) demo_page = 2" using e(6) [OF n(3)] demo_vm(4) by simp
  show "0 < free_frames (vm_pmm demo_vm_cow)" using e(8) demo_vm(3) by simp
  have "PML4_INDEX 0x400000 < PML4_USER_TOP" by (simp add: PML4_INDEX_def PML4_USER_TOP_def)
  then show "cow_page demo_vm_cow 0x400000 (of_nat demo_page) demo_cow"
    using e(2,5) e(7) [OF n(3,2)] r demo_cow demo_page_word unfolding cow_page_def pt_of_def by simp
qed

lemma demo_vm_full:
  "vm_inv demo_vm_full" "cow_page demo_vm_full 0x400000 (of_nat demo_page) demo_cow"
  "frame_refs (vm_pmm demo_vm_full) demo_page = 2" "free_frames (vm_pmm demo_vm_full) = 0"
proof -
  let ?st = "vm_pmm demo_vm_cow" and ?root = "vm_root demo_vm_cow"
  have inv: "pt_inv ?st ?root" using demo_vm_cow(1) by (simp add: vm_inv_def)
  then have "pmm_inv ?st" by (simp add: pt_inv_def)
  note a = alloc_many [OF this, of "free_frames ?st"]
  let ?st' = "vm_pmm demo_vm_full"
  have r: "vm_root demo_vm_full = ?root" "?st' = ((\<lambda>s. snd (pmm_alloc_frame s)) ^^ free_frames ?st) ?st" by (simp_all add: demo_vm_full_def)
  have t: "0 < frame_refs ?st b" if "b \<in> tables (pt_entry ?st) ?root" for b by (rule pt_inv_table(2) [OF inv that])
  have o: "pmm_inv ?st'" "nframes ?st' = nframes ?st"
    "\<forall>b \<in> tables (pt_entry ?st) ?root. \<forall>x. b \<le> x \<and> x < b + 4096 \<longrightarrow> phys_mem ?st' x = phys_mem ?st x"
    "\<forall>b \<in> tables (pt_entry ?st) ?root. 0 < frame_refs ?st' b"
    using a t unfolding r by auto
  note p = pt_inv_outside [OF inv o]
  show "vm_inv demo_vm_full" using p(1) by (simp add: vm_inv_def r(1))
  show rr: "frame_refs ?st' demo_page = 2" using a demo_vm_cow(3) unfolding r by simp
  show "free_frames ?st' = 0" using a unfolding r by simp
  have "translate demo_vm_full va = translate demo_vm_cow va" "pt_of demo_vm_full va = pt_of demo_vm_cow va" for va
    using p(4) [OF page_of(2)] p(3) [of "[PML4_INDEX va, PDPT_INDEX va, PD_INDEX va]"]
    unfolding translate_def pt_of_def r(1) by (auto simp: index_less simp del: tab.simps)
  then show "cow_page demo_vm_full 0x400000 (of_nat demo_page) demo_cow"
    using demo_vm_cow(2) p(2) rr demo_page_word by (simp add: cow_page_def r(1))
qed

lemma paging_unmap_protect_exact_witness:
  "translate (paging_unmap 0x400000 demo_vm_cow) 0x400000 = None \<and> fst (paging_protect 0x400000 PAGE_FLAG_PRESENT demo_vm_cow) = 0"
proof -
  have "PAGE_FLAG_PRESENT AND PAGE_ADDR_MASK = 0" "on PAGE_FLAG_PRESENT PAGE_FLAG_PRESENT"
    by (simp_all add: on_def PAGE_FLAG_PRESENT_def PAGE_ADDR_MASK_def)
  note t = paging_unmap_protect_exact [OF demo_vm_cow(1) this, of "0x400000"]
  have "pt_of demo_vm_cow 0x400000 \<noteq> None" "translate demo_vm_cow 0x400000 \<noteq> None" using demo_vm_cow(2) by (auto simp: cow_page_def)
  then show ?thesis using t by (auto split: prod.splits)
qed

lemma cow_fault_private_witness: "fst (paging_handle_cow_fault 0x400000 7 demo_vm_cow) = 1"
  using cow_fault_private [OF demo_vm_cow(1,2), of 7] demo_vm_cow(4) by auto

lemma cow_fault_oom_repeats_witness:
  "paging_handle_cow_fault 0x400000 7 demo_vm_full = (0, demo_vm_full) \<and> paging_user_fault_resolved 0x400000 7 demo_vm_full = 1"
  using cow_fault_oom_repeats [OF demo_vm_full(1,2), of 7] demo_vm_full(3,4) demo_page_word by (simp add: on_def)

end
