(* ===== verification/Mprotect.thy ===== *)
theory Mprotect
  imports Vma Paging_Cow "HOL-Library.Monad_Syntax"
begin

text \<open>
  \<open>kernel/arch/x86_64/mprotect.c\<close> and the system call in \<open>kernel/arch/x86_64/syscall.c\<close>: changing the
  protection of a range, first in the list of areas and then in the page tables.  The lemmas say
  which areas and which pages are changed, and what happens to a page that is shared for copying.
\<close>

section \<open>Definitions\<close>

definition PROT_READ :: u64 where "PROT_READ = 1"
definition PROT_WRITE :: u64 where "PROT_WRITE = 2"
definition PROT_EXEC :: u64 where "PROT_EXEC = 4"
definition EINVAL :: u64 where "EINVAL = 22"
definition ENOMEM :: u64 where "ENOMEM = 12"

definition mprotect_build_vma_flags :: "u32 \<Rightarrow> u64 \<Rightarrow> u32" where
  "mprotect_build_vma_flags old_flags prot =
     (let vflags = old_flags AND NOT (VMA_READ OR VMA_WRITE OR VMA_EXEC);
          vflags = (if on prot PROT_READ then vflags OR VMA_READ else vflags);
          vflags = (if on prot PROT_WRITE then vflags OR VMA_WRITE else vflags)
      in if on prot PROT_EXEC then vflags OR VMA_EXEC else vflags)"

definition mprotect_build_pte_flags :: "u64 \<Rightarrow> u64" where
  "mprotect_build_pte_flags prot =
     (let pte_flags = PAGE_FLAG_PRESENT OR PAGE_FLAG_USER;
          pte_flags = (if on prot PROT_WRITE then pte_flags OR PAGE_FLAG_WRITABLE else pte_flags)
      in if \<not> on prot PROT_EXEC then pte_flags OR PAGE_FLAG_NO_EXEC else pte_flags)"

text \<open>The first loop: the end of what the areas cover without a gap; None for the early return.\<close>

fun covered_to :: "nat \<Rightarrow> nat \<Rightarrow> vma list \<Rightarrow> nat option" where
  "covered_to hi covered [] = Some covered"
| "covered_to hi covered (v # vs) =
     (if covered < hi then if va_start v > covered then None else covered_to hi (va_end v) vs
      else Some covered)"

fun set_prot :: "nat \<Rightarrow> u64 \<Rightarrow> vma list \<Rightarrow> vma list" where
  "set_prot hi prot [] = []"
| "set_prot hi prot (v # vs) =
     (if va_start v < hi then v\<lparr>v_flags := mprotect_build_vma_flags (v_flags v) prot\<rparr> # set_prot hi prot vs
      else v # vs)"

definition mprotect_update_vma_range :: "vma list \<Rightarrow> nat \<Rightarrow> nat \<Rightarrow> u64 \<Rightarrow> int \<times> vma list" where
  "mprotect_update_vma_range vs addr len prot =
     (let hi = add64 addr len;
          inside = (\<lambda>v. va_start v \<le> addr \<and> addr < va_end v);
          before = takeWhile (\<lambda>v. \<not> inside v) vs;
          found = dropWhile (\<lambda>v. \<not> inside v) vs
      in case covered_to hi addr found of
           None \<Rightarrow> (-1, vs)
         | Some covered \<Rightarrow> if covered < hi then (-1, vs) else (0, before @ set_prot hi prot found))"

partial_function (option) remap_loop :: "u64 \<Rightarrow> u64 \<Rightarrow> u64 \<Rightarrow> bool \<Rightarrow> vm_state \<Rightarrow> (bool \<times> vm_state) option" where
  "remap_loop va hi pte_flags changed v =
     (if \<not> va < hi then Some (changed, v)
      else let phys = paging_get_phys va v in
        if phys = 0 then remap_loop (va + word_of_nat PAGE_SIZE_BYTES) hi pte_flags changed v
        else remap_loop (va + word_of_nat PAGE_SIZE_BYTES) hi pte_flags True (paging_map va phys pte_flags v))"

text \<open>The second result is the range handed to \<open>tlb_shootdown_range\<close>, if it is called.\<close>

definition mprotect_remap_present_pages :: "u64 \<Rightarrow> u64 \<Rightarrow> u64 \<Rightarrow> vm_state \<Rightarrow> ((u64 \<times> u32) option \<times> vm_state) option" where
  "mprotect_remap_present_pages addr len prot v =
     do {
       let hi = addr + len;
       (changed, v) \<leftarrow> remap_loop addr hi (mprotect_build_pte_flags prot) False v;
       let np = (hi - addr + word_of_nat PAGE_SIZE_BYTES - 1) div word_of_nat PAGE_SIZE_BYTES;
       let np = (if np > 0xFFFFFFFF then 0 else np);
       Some (if changed then Some (addr, ucast np) else None, v)
     }"

definition align_up_u64 :: "u64 \<Rightarrow> u64 \<Rightarrow> u64" where
  "align_up_u64 v a = (v + a - 1) AND NOT (a - 1)"

text \<open>The areas are those of the current thread; None when there is no current thread.\<close>

definition syscall_mprotect ::
  "u64 \<Rightarrow> u64 \<Rightarrow> u64 \<Rightarrow> vma list option \<Rightarrow> vm_state \<Rightarrow> (u64 \<times> vma list option \<times> vm_state) option" where
  "syscall_mprotect addr len prot cur v =
     (case cur of
        None \<Rightarrow> Some (- EINVAL, cur, v)
      | Some vs \<Rightarrow>
          if len = 0 then Some (- EINVAL, cur, v)
          else if addr AND (word_of_nat PAGE_SIZE_BYTES - 1) \<noteq> 0 then Some (- EINVAL, cur, v)
          else let len = align_up_u64 len (word_of_nat PAGE_SIZE_BYTES) in
            if prot AND NOT (PROT_READ OR PROT_WRITE OR PROT_EXEC) \<noteq> 0 then Some (- EINVAL, cur, v)
            else case mprotect_update_vma_range vs (unat addr) (unat len) prot of (rc, vs) \<Rightarrow>
              if rc \<noteq> 0 then Some (- ENOMEM, Some vs, v)
              else do {
                (tlb, v) \<leftarrow> mprotect_remap_present_pages addr len prot v;
                Some (0, Some vs, v)
              })"

declare remap_loop.simps [simp del]

section \<open>Areas\<close>

lemma covered_to:
  assumes "vma_wf vs" "\<forall>v \<in> set vs. c \<le> va_start v" "c < hi"
  shows "(case covered_to hi c vs of None \<Rightarrow> False | Some d \<Rightarrow> hi \<le> d) \<longleftrightarrow> (\<forall>x. c \<le> x \<longrightarrow> x < hi \<longrightarrow> vma_find vs x \<noteq> None)"
  using assms
proof (induction vs arbitrary: c)
  case Nil
  then show ?case by (auto simp: vma_find_def)
next
  case (Cons v vs)
  have w: "va_start v < va_end v" "\<forall>u \<in> set vs. va_end v \<le> va_start u" "vma_wf vs" using Cons.prems(1) by (simp_all add: vma_wf_Cons)
  show ?case
  proof (cases "va_start v > c")
    case True
    then have "vma_find (v # vs) c = None"
      using Cons.prems(2) w by (fastforce simp: vma_find_def find_None_iff)
    then show ?thesis using True Cons.prems(3) by auto
  next
    case False
    have out: "vma_find vs x = None" if "x < va_end v" for x using w(2) that by (fastforce simp: vma_find_def find_None_iff)
    have st: "va_start v = c" using False Cons.prems(2) by simp
    show ?thesis
    proof (cases "va_end v < hi")
      case True
      have "(\<forall>x. c \<le> x \<longrightarrow> x < hi \<longrightarrow> vma_find (v # vs) x \<noteq> None) \<longleftrightarrow> (\<forall>x. va_end v \<le> x \<longrightarrow> x < hi \<longrightarrow> vma_find vs x \<noteq> None)"
        using st w(1) by (auto simp: vma_find_def)
      then show ?thesis using Cons.IH [OF w(3,2) True] Cons.prems(3) st by simp
    next
      case False
      then have "covered_to hi c (v # vs) = Some (va_end v)" using Cons.prems(3) st by (cases vs) simp_all
      then show ?thesis using False st by (auto simp: vma_find_def)
    qed
  qed
qed

text \<open>The change of one area: all of it, if any part of it lies in the range.\<close>

definition reprotect :: "nat \<Rightarrow> nat \<Rightarrow> u64 \<Rightarrow> vma \<Rightarrow> vma" where
  "reprotect lo hi prot v = (if lo < va_end v \<and> va_start v < hi then v\<lparr>v_flags := mprotect_build_vma_flags (v_flags v) prot\<rparr> else v)"

lemma reprotect_bounds [simp]: "va_start (reprotect lo hi prot v) = va_start v" "va_end (reprotect lo hi prot v) = va_end v"
  by (simp_all add: reprotect_def)

lemma vma_find_reprotect: "vma_find (map (reprotect lo hi prot) vs) x = map_option (reprotect lo hi prot) (vma_find vs x)"
  by (induction vs) (auto simp: vma_find_def)

lemma vma_wf_reprotect: "vma_wf vs \<Longrightarrow> vma_wf (map (reprotect lo hi prot) vs)"
  by (simp add: vma_wf_def sorted_wrt_map)

lemma set_prot_map:
  assumes "vma_wf vs" "\<forall>v \<in> set vs. lo < va_end v"
  shows "set_prot hi prot vs = map (reprotect lo hi prot) vs"
  using assms
proof (induction vs)
  case (Cons v vs)
  have "map (reprotect lo hi prot) vs = vs" if "\<not> va_start v < hi"
    using Cons.prems(1) that by (intro map_idI) (fastforce simp: reprotect_def vma_wf_Cons)
  then show ?case using Cons by (auto simp: vma_wf_Cons reprotect_def [of _ _ _ v])
qed simp

text \<open>The areas before the one that holds the start of the range end before it.\<close>

lemma split_at_inside:
  assumes "vma_wf (us @ v # vs)" "va_start v \<le> addr" "addr < va_end v"
  shows "\<forall>u \<in> set us. va_end u \<le> addr" "\<forall>u \<in> set (v # vs). addr < va_end u" "vma_wf (v # vs)"
    "addr \<le> x \<Longrightarrow> vma_find (us @ v # vs) x = vma_find (v # vs) x"
proof -
  have s: "sorted_wrt (\<lambda>a b. va_end a \<le> va_start b) us" "sorted_wrt (\<lambda>a b. va_end a \<le> va_start b) (v # vs)"
    "\<forall>u \<in> set us. \<forall>w \<in> set (v # vs). va_end u \<le> va_start w" "\<forall>u \<in> set (us @ v # vs). va_start u < va_end u"
    using assms(1) by (auto simp: vma_wf_def sorted_wrt_append)
  show us: "\<forall>u \<in> set us. va_end u \<le> addr" using s(3) assms(2) by fastforce
  show "vma_wf (v # vs)" using s(2,4) by (auto simp: vma_wf_def)
  show "\<forall>u \<in> set (v # vs). addr < va_end u" 
  proof
    fix u assume "u \<in> set (v # vs)"
    then have "u = v \<or> va_end v \<le> va_start u \<and> va_start u < va_end u" using s(2,4) by auto
    then show "addr < va_end u" using assms(3) by auto
  qed
  show "vma_find (us @ v # vs) x = vma_find (v # vs) x" if "addr \<le> x"
    using us that by (induction us) (auto simp: vma_find_def)
qed

lemma mprotect_update_vma_range_spec:
  assumes wf: "vma_wf vs" and len: "0 < len" "addr + len < 2 ^ 64"
  shows "mprotect_update_vma_range vs addr len prot =
    (if \<forall>x. addr \<le> x \<longrightarrow> x < addr + len \<longrightarrow> vma_find vs x \<noteq> None
     then (0, map (reprotect addr (addr + len) prot) vs) else (-1, vs))"
proof -
  let ?hi = "addr + len" and ?in = "\<lambda>v. va_start v \<le> addr \<and> addr < va_end v"
  have hi: "add64 addr len = ?hi" using len(2) by (simp add: add64_def)
  define P where "P = (\<lambda>v :: vma. \<not> ?in v)"
  define us where "us = takeWhile P vs"
  have vs: "vs = us @ dropWhile P vs" by (simp add: us_def)
  have def: "mprotect_update_vma_range vs addr len prot =
     (case covered_to ?hi addr (dropWhile P vs) of None \<Rightarrow> (-1, vs)
      | Some covered \<Rightarrow> if covered < ?hi then (-1, vs) else (0, us @ set_prot ?hi prot (dropWhile P vs)))"
    by (simp only: mprotect_update_vma_range_def hi Let_def us_def P_def)
  show ?thesis
  proof (cases "dropWhile P vs")
    case Nil
    then have "vma_find vs addr = None" by (auto simp: vma_find_def find_None_iff dropWhile_eq_Nil_conv P_def)
    then have "\<not> (\<forall>x. addr \<le> x \<longrightarrow> x < ?hi \<longrightarrow> vma_find vs x \<noteq> None)" using len(1) by force
    then show ?thesis using Nil len(1) by (simp only: def) simp
  next
    case (Cons v ws)
    have v: "?in v" using Cons by (auto simp: dropWhile_eq_Cons_conv P_def)
    note vs' = vs [unfolded Cons]
    note sp = split_at_inside [OF wf [unfolded vs'] conjunct1 [OF v] conjunct2 [OF v]]
    have ws: "\<forall>u \<in> set ws. va_end v \<le> va_start u" "vma_wf ws" using sp(3) by (auto simp: vma_wf_Cons)
    have "(case covered_to ?hi addr (v # ws) of None \<Rightarrow> False | Some d \<Rightarrow> ?hi \<le> d) \<longleftrightarrow>
      (\<forall>x. addr \<le> x \<longrightarrow> x < ?hi \<longrightarrow> vma_find vs x \<noteq> None)"
    proof (cases "va_end v < ?hi")
      case True
      have "vma_find vs x = (if x < va_end v then Some v else vma_find ws x)" if "addr \<le> x" for x
        using sp(4) [OF that] v that vs' by (auto simp: vma_find_def)
      then have "(\<forall>x. addr \<le> x \<longrightarrow> x < ?hi \<longrightarrow> vma_find vs x \<noteq> None) \<longleftrightarrow> (\<forall>x. va_end v \<le> x \<longrightarrow> x < ?hi \<longrightarrow> vma_find ws x \<noteq> None)"
        using v by (auto split: if_splits)
      then show ?thesis using covered_to [OF ws(2,1) True] v len(1) by simp
    next
      case False
      then have "covered_to ?hi addr (v # ws) = Some (va_end v)" using v len(1) by (cases ws) simp_all
      moreover have "vma_find vs x \<noteq> None" if "addr \<le> x" "x < ?hi" for x
        using sp(4) [OF that(1)] v that False vs' by (simp add: vma_find_def)
      ultimately show ?thesis using False by simp
    qed
    moreover have "us @ set_prot ?hi prot (v # ws) = map (reprotect addr ?hi prot) vs"
    proof -
      have "map (reprotect addr ?hi prot) us = us" using sp(1) by (intro map_idI) (fastforce simp: reprotect_def)
      then show ?thesis using set_prot_map [OF sp(3,2)] vs' by (metis map_append)
    qed
    ultimately show ?thesis
      unfolding def Cons by (auto simp: not_less simp del: covered_to.simps set_prot.simps split: option.splits)
  qed
qed

text \<open>C1: the list of areas is changed only if the whole range is covered, and then area by area.  If every
  address of the range lies in an area, \<open>mprotect_update_vma_range\<close> returns 0 and gives the new
  protection to each area that has an address in the range; otherwise it returns -1 and changes
  nothing.  An area is never split, so its addresses outside the range change with it.\<close>

theorem mprotect_update_vma_range_exact:
  assumes "vma_wf vs" "0 < len" "addr + len < 2 ^ 64"
  shows "if \<forall>x. addr \<le> x \<longrightarrow> x < addr + len \<longrightarrow> vma_find vs x \<noteq> None
    then \<exists>vs'. mprotect_update_vma_range vs addr len prot = (0, vs') \<and> vma_wf vs' \<and>
      (\<forall>x. vma_find vs' x = map_option (reprotect addr (addr + len) prot) (vma_find vs x))
    else mprotect_update_vma_range vs addr len prot = (-1, vs)"
  unfolding mprotect_update_vma_range_spec [OF assms]
  using vma_find_reprotect vma_wf_reprotect [OF assms(1)] by auto

lemma mprotect_update_vma_range_exact_witness:
  "\<exists>vs'. mprotect_update_vma_range [demo_vma] 0x2000 0x1000 PROT_READ = (0, vs') \<and>
     vma_find vs' 0x4000 = Some (reprotect 0x2000 0x3000 PROT_READ demo_vma)"
proof -
  have "vma_wf [demo_vma]" by (simp add: vma_wf_def demo_vma_def)
  moreover have f: "vma_find [demo_vma] x = Some demo_vma" if "0x1000 \<le> x" "x < 0x5000" for x
    using that by (simp add: vma_find_def demo_vma_def)
  ultimately show ?thesis using mprotect_update_vma_range_exact [of "[demo_vma]" "0x1000" "0x2000" PROT_READ] by fastforce
qed

section \<open>Pages\<close>

lemma walk_levels_present:
  "tab (pt_entry st) n a is = Some t \<Longrightarrow> n + length is \<le> 3 \<Longrightarrow> walk_levels True (lvls n is) a st = (Some t, st)"
proof (induction "is" arbitrary: n a)
  case (Cons i "is")
  then obtain b where b: "down n (pt_entry st a i) = Some b" "tab (pt_entry st) (Suc n) b is = Some t"
    by (auto split: option.splits)
  then have "walk_level True n i a st = (Some b, st)"
    using Cons.prems(2) by (auto simp: walk_level_def Let_def down_def is_leaf_def split: if_splits)
  then show ?case using Cons.IH [OF b(2)] Cons.prems(2) by simp
qed simp

lemma paging_map_present:
  assumes "pt_of v virt = Some t"
  shows "paging_map virt phys flags v = wr_pte (t, PT_INDEX virt) ((phys AND PAGE_ADDR_MASK) OR flags) v"
  using walk_levels_present [OF assms [unfolded pt_of_def]]
  by (simp add: paging_map_def walk_pte_lvls del: lvls.simps tab.simps)

lemma pte_flags:
  "mprotect_build_pte_flags prot AND PAGE_ADDR_MASK = 0" "on (mprotect_build_pte_flags prot) PAGE_FLAG_PRESENT"
  "on (mprotect_build_pte_flags prot) PAGE_FLAG_USER" "\<not> on (mprotect_build_pte_flags prot) PAGE_FLAG_COW"
  "on (mprotect_build_pte_flags prot) PAGE_FLAG_WRITABLE \<longleftrightarrow> on prot PROT_WRITE"
  by (auto simp: mprotect_build_pte_flags_def Let_def on_def PAGE_FLAG_PRESENT_def PAGE_FLAG_USER_def PAGE_FLAG_COW_def
      PAGE_FLAG_WRITABLE_def PAGE_FLAG_NO_EXEC_def PAGE_ADDR_MASK_def)

text \<open>What the loop does to the translation of one page.\<close>

definition remapped :: "vm_state \<Rightarrow> u64 \<Rightarrow> u64 \<Rightarrow> (u64 \<times> u64) option" where
  "remapped v flags va = (case translate v va of
     Some (a, f) \<Rightarrow> Some (a, if pt_of v va \<noteq> None \<and> a \<noteq> 0 then flags else f) | None \<Rightarrow> None)"

text \<open>The state differs in the entries of pages only.\<close>

definition same_frames :: "vm_state \<Rightarrow> vm_state \<Rightarrow> bool" where
  "same_frames v v' \<longleftrightarrow> vm_root v' = vm_root v \<and> vm_kernel v' = vm_kernel v \<and>
     frame_refs (vm_pmm v') = frame_refs (vm_pmm v) \<and> free_frames (vm_pmm v') = free_frames (vm_pmm v) \<and>
     tables (pt_entry (vm_pmm v')) (vm_root v) = tables (pt_entry (vm_pmm v)) (vm_root v) \<and> (\<forall>va. pt_of v' va = pt_of v va) \<and>
     (\<forall>q x. 0 < frame_refs (vm_pmm v) q \<longrightarrow> q \<notin> tables (pt_entry (vm_pmm v)) (vm_root v) \<longrightarrow> q \<le> x \<longrightarrow> x < q + 4096 \<longrightarrow>
       phys_mem (vm_pmm v') x = phys_mem (vm_pmm v) x)"

lemma wr_pte_fields:
  "vm_root (wr_pte p e v) = vm_root v" "vm_kernel (wr_pte p e v) = vm_kernel v"
  "frame_refs (vm_pmm (wr_pte p e v)) = frame_refs (vm_pmm v)" "free_frames (vm_pmm (wr_pte p e v)) = free_frames (vm_pmm v)"
  by (simp_all add: wr_pte_def split: prod.splits)

lemma remap_one:
  fixes va flags :: u64
  assumes inv: "vm_inv v" and fl: "flags AND PAGE_ADDR_MASK = 0" "on flags PAGE_FLAG_PRESENT"
  defines "v' \<equiv> if paging_get_phys va v = 0 then v else paging_map va (paging_get_phys va v) flags v"
  shows "vm_inv v'" "same_frames v v'" "translate v' w = (if page_of w = page_of va then remapped v flags w else translate v w)"
proof -
  have pg: "translate v w = translate v va \<and> pt_of v w = pt_of v va" if "page_of w = page_of va"
    using that by (simp add: translate_def pt_of_def page_of_def)
  have "vm_inv v' \<and> same_frames v v' \<and> translate v' w = (if page_of w = page_of va then remapped v flags w else translate v w)"
  proof (cases "paging_get_phys va v = 0")
    case True
    then have "translate v va = None \<or> pt_of v va = None \<or> (\<exists>f. translate v va = Some (0, f))"
      by (auto simp: paging_get_translate split: option.splits)
    then have "remapped v flags va = translate v va" by (auto simp: remapped_def split: option.splits)
    moreover have "remapped v flags w = remapped v flags va" if "page_of w = page_of va" using pg [OF that] by (auto simp: remapped_def split: option.splits)
    ultimately show ?thesis using True inv pg by (auto simp: v'_def same_frames_def)
  next
    case False
    then obtain t a f where t: "pt_of v va = Some t" "translate v va = Some (a, f)" "paging_get_phys va v = a" "a \<noteq> 0"
      by (auto simp: paging_get_translate split: option.splits if_splits)
    let ?e = "(a AND PAGE_ADDR_MASK) OR flags"
    have v': "v' = wr_pte (t, PT_INDEX va) ?e v" using False t(1,3) by (simp add: v'_def paging_map_present)
    have aw: "a AND PAGE_ADDR_MASK = a" using translate_pt_of [OF t(1)] t(2) by (auto simp: and.assoc split: if_splits)
    note parts = entry_parts [OF addr_word_and [of a] fl(1)]
    have "on ?e PAGE_FLAG_PRESENT" using parts(4) [of 0] fl(2) by (simp add: on_flags)
    moreover note wr = wr_pte_translate [OF inv t(1) [unfolded pt_of_def], where e = ?e]
    ultimately have tr: "translate v' va = Some (a, flags)" using parts(1,2) aw by (simp add: v')
    have "translate v' w = translate v' va" if "page_of w = page_of va" using that by (simp add: translate_def)
    moreover have "remapped v flags w = Some (a, flags)" if "page_of w = page_of va" using pg [OF that] t by (simp add: remapped_def)
    moreover have "same_frames v v'" using wr(4) wr_pte_pt_of [OF inv t(1)] wr_pte_mem [OF inv t(1)]
      unfolding same_frames_def v' by (intro conjI allI impI) (simp_all add: wr_pte_fields)
    ultimately show ?thesis using tr wr(1,3) by (auto simp: v')
  qed
  then show "vm_inv v'" "same_frames v v'" "translate v' w = (if page_of w = page_of va then remapped v flags w else translate v w)" by auto
qed

lemma same_frames_trans: "same_frames v v1 \<Longrightarrow> same_frames v1 v2 \<Longrightarrow> same_frames v v2"
  by (simp add: same_frames_def)

lemma page_word: "word_of_nat PAGE_SIZE_BYTES = (4096 :: u64)"
  by (simp add: PAGE_SIZE_BYTES_def)

lemma remap_loop_returns:
  assumes "unat va + 4096 * n = unat hi" "vm_inv v" "flags AND PAGE_ADDR_MASK = 0" "on flags PAGE_FLAG_PRESENT"
  shows "\<exists>c v'. remap_loop va hi flags changed v = Some (c, v') \<and> vm_inv v' \<and> same_frames v v' \<and>
    (\<forall>w. translate v' w = (if \<exists>k < n. page_of w = page_of (va + 4096 * of_nat k) then remapped v flags w else translate v w))"
  using assms
proof (induction n arbitrary: va v changed)
  case 0
  then have "\<not> va < hi" by (simp add: word_less_nat_alt)
  then show ?case using 0(2) by (subst remap_loop.simps) (simp add: same_frames_def)
next
  case (Suc n)
  have lt: "va < hi" using Suc.prems(1) by (simp add: word_less_nat_alt)
  have "unat hi < 2 ^ 64" using unsigned_less [of hi] by simp
  then have nx: "unat (va + 4096) + 4096 * n = unat hi" using Suc.prems(1) by (simp add: unat_word_ariths)
  let ?p = "paging_get_phys va v"
  let ?v = "if ?p = 0 then v else paging_map va ?p flags v"
  note o = remap_one [OF Suc.prems(2-4)]
  obtain c v' where r: "remap_loop (va + 4096) hi flags (changed \<or> ?p \<noteq> 0) ?v = Some (c, v')" "vm_inv v'" "same_frames ?v v'"
    "\<And>w. translate v' w = (if \<exists>k < n. page_of w = page_of (va + 4096 + 4096 * of_nat k) then remapped ?v flags w else translate ?v w)"
    using Suc.IH [OF nx o(1) Suc.prems(3,4)] by blast
  have "remap_loop va hi flags changed v = Some (c, v')"
    using r(1) lt by (subst remap_loop.simps) (auto simp: page_word Let_def split: if_splits)
  moreover have "same_frames v v'" by (rule same_frames_trans [OF o(2) r(3)])
  moreover have "translate v' w = (if \<exists>k < Suc n. page_of w = page_of (va + 4096 * of_nat k) then remapped v flags w else translate v w)" for w
  proof -
    have "(\<exists>k < Suc n. page_of w = page_of (va + 4096 * of_nat k)) \<longleftrightarrow>
      page_of w = page_of va \<or> (\<exists>k < n. page_of w = page_of (va + 4096 + 4096 * of_nat k))"
      by (auto simp: less_Suc_eq_0_disj distrib_left add.assoc)
    moreover have "pt_of ?v w = pt_of v w" using o(2) by (simp add: same_frames_def)
    then have "remapped ?v flags w = remapped v flags w"
      using o(3) [of va w] by (auto simp: remapped_def split: option.splits if_splits)
    ultimately show ?thesis using r(4) [of w] o(3) [of va w] by auto
  qed
  ultimately show ?case using r(2) by blast
qed

text \<open>C1: remapping a range returns and changes exactly the protection of its present 4 KiB pages.  For a
  range of whole pages below the end of the address space, \<open>mprotect_remap_present_pages\<close> ends; every
  page of the range that has a 4 KiB entry keeps its frame and gets the new flags, every other
  address translates as before, and no reference count, free frame or byte of a held frame outside
  the page tables changes.\<close>

theorem mprotect_remap_exact:
  assumes "vm_inv v" "unat len = 4096 * n" "unat addr + unat len < 2 ^ 64"
  shows "\<exists>req v'. mprotect_remap_present_pages addr len prot v = Some (req, v') \<and> vm_inv v' \<and> same_frames v v' \<and>
    (\<forall>w. translate v' w = (if \<exists>k < n. page_of w = page_of (addr + 4096 * of_nat k)
       then remapped v (mprotect_build_pte_flags prot) w else translate v w))"
proof -
  have "unat addr + 4096 * n = unat (addr + len)" using assms(2,3) by (simp add: unat_word_ariths)
  from remap_loop_returns [OF this assms(1) pte_flags(1,2), of prot False] show ?thesis
    by (auto simp: mprotect_remap_present_pages_def Let_def)
qed

section \<open>The system call\<close>

lemma cow_fault_unmarked:
  assumes t: "translate v addr = Some (a, g)" "\<not> on g PAGE_FLAG_COW"
  shows "paging_handle_cow_fault addr e v = (0, v)"
proof -
  define virt where "virt = addr AND NOT (mask 12)"
  have pg: "page_of virt = page_of addr" unfolding virt_def by (rule page_of_align)
  have "translate v virt = Some (a, g)" using same_page(4) [OF pg] t(1) by simp
  moreover have "on e PAGE_FLAG_COW \<longleftrightarrow> on (e AND NOT PAGE_ADDR_MASK) PAGE_FLAG_COW" for e
    by (simp add: on_flags bit_simps PAGE_ADDR_MASK_bit)
  ultimately have "\<not> on (rd_pte (p, PT_INDEX virt) v) PAGE_FLAG_PRESENT \<or> \<not> on (rd_pte (p, PT_INDEX virt) v) PAGE_FLAG_COW"
    if "pt_of v virt = Some p" for p
    using translate_pt_of [OF that] t(2) by (auto split: if_splits)
  then show ?thesis
    by (auto simp: paging_handle_cow_fault_def Let_def virt_def [symmetric] walk_pte_pt_of split: option.splits)
qed

lemma remap_page:
  assumes "vm_inv v" "unat addr + 4096 < 2 ^ 64"
  obtains req v' where "mprotect_remap_present_pages addr 4096 prot v = Some (req, v')" "vm_inv v'" "same_frames v v'"
    "translate v' addr = remapped v (mprotect_build_pte_flags prot) addr"
proof -
  have "unat addr + 4096 * 1 = unat (addr + 4096)" using assms(2) by (simp add: unat_word_ariths)
  from remap_loop_returns [OF this assms(1) pte_flags(1,2), of prot False] show thesis
    by (auto simp: mprotect_remap_present_pages_def Let_def intro!: that)
qed

text \<open>C1: making a page writable with \<open>mprotect\<close> ends its copy-on-write protection.  If the page shares its
  frame with another address space, the system call succeeds, and afterwards the page maps the same
  shared frame, writable and no longer marked, with the reference count unchanged; a write goes to
  the frame of the other owner, and the fault handler sees nothing to copy.\<close>

theorem mprotect_breaks_cow:
  assumes inv: "vm_inv v" and cow: "cow_page v addr old f" "old \<noteq> 0" "1 < frame_refs (vm_pmm v) (unat old)"
    and addr: "addr AND 0xFFF = 0" "unat addr + 4096 < 2 ^ 64"
    and vs: "vma_wf vs" "\<forall>x. unat addr \<le> x \<longrightarrow> x < unat addr + 4096 \<longrightarrow> vma_find vs x \<noteq> None"
  shows "\<exists>v' g. syscall_mprotect addr 4096 (PROT_READ OR PROT_WRITE) (Some vs) v =
      Some (0, Some (map (reprotect (unat addr) (unat addr + 4096) (PROT_READ OR PROT_WRITE)) vs), v') \<and>
    translate v' addr = Some (old, g) \<and> on g PAGE_FLAG_WRITABLE \<and> \<not> on g PAGE_FLAG_COW \<and>
    1 < frame_refs (vm_pmm v') (unat old) \<and> paging_handle_cow_fault addr 7 v' = (0, v')"
proof -
  let ?prot = "PROT_READ OR PROT_WRITE"
  let ?g = "mprotect_build_pte_flags ?prot"
  obtain req v' where r: "mprotect_remap_present_pages addr 4096 ?prot v = Some (req, v')" "vm_inv v'" "same_frames v v'"
    "translate v' addr = remapped v ?g addr" by (rule remap_page [OF inv addr(2)])
  have w: "on ?prot PROT_WRITE" by (simp add: on_def PROT_READ_def PROT_WRITE_def)
  have c: "pt_of v addr \<noteq> None" "translate v addr = Some (old, f)" using cow(1) by (auto simp: cow_page_def)
  then have t: "translate v' addr = Some (old, ?g)" using r(4) cow(2) by (auto simp: remapped_def)
  have pt: "pt_of v' addr \<noteq> None" using r(3) c(1) by (simp add: same_frames_def)
  have "4096 = (mask 12 + 1 :: u64)" by (simp add: mask_eq_exp_minus_1)
  then have al: "align_up_u64 4096 4096 = 4096" by (simp add: align_up_u64_def)
  have pr: "?prot AND NOT (PROT_READ OR PROT_WRITE OR PROT_EXEC) = 0" by (simp add: PROT_READ_def PROT_WRITE_def PROT_EXEC_def)
  have up: "mprotect_update_vma_range vs (unat addr) 4096 ?prot = (0, map (reprotect (unat addr) (unat addr + 4096) ?prot) vs)"
    using mprotect_update_vma_range_spec [OF vs(1), of 4096 "unat addr" ?prot] addr(2) vs(2) by simp
  have "syscall_mprotect addr 4096 ?prot (Some vs) v = Some (0, Some (map (reprotect (unat addr) (unat addr + 4096) ?prot) vs), v')"
    using addr(1) r(1) by (simp add: syscall_mprotect_def page_word Let_def al up pr del: bit.de_Morgan_disj)
  moreover have "paging_handle_cow_fault addr 7 v' = (0, v')"
    by (rule cow_fault_unmarked [OF t pte_flags(4)])
  ultimately show ?thesis
    using t pte_flags(4,5) w r(3) cow(3) by (auto simp: same_frames_def)
qed

section \<open>Examples\<close>

lemma mprotect_remap_exact_witness:
  "\<exists>req v'. mprotect_remap_present_pages 0x400000 0x1000 0 demo_vm_cow = Some (req, v') \<and>
     translate v' 0x400000 = Some (of_nat demo_page, mprotect_build_pte_flags 0)"
proof -
  have "translate demo_vm_cow 0x400000 = Some (of_nat demo_page, demo_cow)" "pt_of demo_vm_cow 0x400000 \<noteq> None"
    using demo_vm_cow(2) by (auto simp: cow_page_def)
  moreover have "of_nat demo_page \<noteq> (0 :: u64)" using demo_vm(8) demo_page_word(2) by force
  ultimately show ?thesis
    using mprotect_remap_exact [OF demo_vm_cow(1), of "0x1000" 1 "0x400000" 0] by (force simp: remapped_def)
qed

lemma mprotect_breaks_cow_witness:
  "\<exists>vs v'. syscall_mprotect 0x400000 4096 (PROT_READ OR PROT_WRITE) (Some [demo_vma\<lparr>va_start := 0x400000, va_end := 0x402000\<rparr>]) demo_vm_cow =
     Some (0, Some vs, v') \<and> 1 < frame_refs (vm_pmm v') demo_page"
proof -
  let ?a = "demo_vma\<lparr>va_start := 0x400000, va_end := 0x402000\<rparr>"
  have "vma_wf [?a]" "\<forall>x. 0x400000 \<le> x \<longrightarrow> x < 0x401000 \<longrightarrow> vma_find [?a] x \<noteq> None"
    by (simp_all add: vma_wf_def vma_find_def)
  moreover have "of_nat demo_page \<noteq> (0 :: u64)" using demo_vm(8) demo_page_word(2) by force
  ultimately show ?thesis
    using mprotect_breaks_cow [OF demo_vm_cow(1,2), of "[?a]"] demo_vm_cow(3) demo_page_word(2) by force
qed

end
