(* ===== verification/KHeap.thy ===== *)
theory KHeap
  imports Heap_Realloc SizeClass Paging
begin

text \<open>
  The kernel heap, \<open>kernel/mm/kheap.c\<close>: \<open>kmalloc\<close>, \<open>kfree\<close> and \<open>krealloc\<close> over the first-fit heap and the
  size-class cache, and the expansion callback that backs the heap with frames of the physical
  memory manager.  The environment of the heap is the state of the page tables and the frame
  allocator; its memory is what the kernel sees at virtual addresses, and mapping a page makes it
  show the bytes of the frame.  A page that \<open>paging_map\<close> could not map shows nothing new (an access
  would fault).  The heap lock makes each operation one step.  The counters printed by \<open>kheap_dump\<close>
  are part of the state, its console output and the self test are not.
\<close>

section \<open>State\<close>

record kheap_state =
  kheap :: "vm_state heap_state"
  kclass :: sizeclass_cache

definition KHEAP_BASE :: nat where "KHEAP_BASE = 0xFFFFFFFF88000000"
definition KHEAP_LIMIT :: nat where "KHEAP_LIMIT = 0x04000000"
definition PAGE_SIZE :: nat where "PAGE_SIZE = 4096"
definition EXPAND_MIN :: nat where "EXPAND_MIN = 2 * 1024 * 1024"
definition KHEAP_P2M :: nat where "KHEAP_P2M = 0x200000"

definition heap_page_flags :: u64 where
  "heap_page_flags = PAGE_FLAG_PRESENT OR PAGE_FLAG_WRITABLE OR PAGE_FLAG_NO_EXEC"

section \<open>Expansion\<close>

definition set_pmm :: "pmm_state \<Rightarrow> vm_state heap_state \<Rightarrow> vm_state heap_state" where
  "set_pmm st h = h\<lparr>h_env := (h_env h)\<lparr>vm_pmm := st\<rparr>\<rparr>"

text \<open>The bytes of the frames from \<open>phys\<close> on appear at \<open>va\<close>.\<close>

definition show_frames :: "nat \<Rightarrow> nat \<Rightarrow> nat \<Rightarrow> vm_state heap_state \<Rightarrow> vm_state heap_state" where
  "show_frames va n phys h =
     h\<lparr>h_mem := (\<lambda>x. if va \<le> x \<and> x < va + n then phys_mem (vm_pmm (h_env h)) (phys + (x - va)) else h_mem h x)\<rparr>"

definition map_page :: "nat \<Rightarrow> nat \<Rightarrow> vm_state heap_state \<Rightarrow> vm_state heap_state" where
  "map_page va phys h =
     (let h = h\<lparr>h_env := paging_map (word_of_nat va) (word_of_nat phys) heap_page_flags (h_env h)\<rparr>
      in if paging_get_phys (word_of_nat va) (h_env h) = 0 then h else show_frames va PAGE_SIZE phys h)"

definition map_large :: "nat \<Rightarrow> nat \<Rightarrow> vm_state heap_state \<Rightarrow> int \<times> vm_state heap_state" where
  "map_large va phys h =
     (case paging_map_2m (word_of_nat va) (word_of_nat phys) heap_page_flags (h_env h) of (rc, v) \<Rightarrow>
        let h = h\<lparr>h_env := v\<rparr> in (rc, if rc = 0 then show_frames va KHEAP_P2M phys h else h))"

text \<open>
  The 4 KiB loops: map frames at \<open>va_abs + mapped\<close> until \<open>lim\<close> bytes are mapped; the flag says
  whether the loop ran to its end or stopped because no frame was left.
\<close>

function map_4k :: "nat \<Rightarrow> nat \<Rightarrow> nat \<Rightarrow> vm_state heap_state \<Rightarrow> bool \<times> nat \<times> vm_state heap_state" where
  "map_4k va_abs lim mapped h =
     (if mapped < lim
      then case pmm_alloc_frame (vm_pmm (h_env h)) of (phys, st) \<Rightarrow>
        let h = set_pmm st h in
        if phys = 0 then (False, mapped, h)
        else map_4k va_abs lim (mapped + PAGE_SIZE) (map_page (va_abs + mapped) phys h)
      else (True, mapped, h))"
  by pat_completeness auto
termination
  by (relation "measure (\<lambda>(va_abs, lim, mapped, h). lim - mapped)") (auto simp: PAGE_SIZE_def)

text \<open>The 2 MiB loop; \<open>mapped\<close> never exceeds \<open>want\<close>, so the subtraction in its condition does not wrap.\<close>

function map_2m :: "nat \<Rightarrow> nat \<Rightarrow> nat \<Rightarrow> vm_state heap_state \<Rightarrow> nat \<times> vm_state heap_state" where
  "map_2m va_abs want mapped h =
     (if mapped + KHEAP_P2M \<le> want
      then case pmm_alloc_2m (vm_pmm (h_env h)) of (phys, st) \<Rightarrow>
        let h = set_pmm st h in
        if phys = 0 then (mapped, h)
        else case map_large (va_abs + mapped) phys h of (rc, h) \<Rightarrow>
          if rc = 0 then map_2m va_abs want (mapped + KHEAP_P2M) h
          else (mapped, set_pmm (fold (\<lambda>i st. pmm_free_frame (phys + i * PAGE_SIZE) st)
                  [0..<KHEAP_P2M div PAGE_SIZE] (vm_pmm (h_env h))) h)
      else (mapped, h))"
  by pat_completeness auto
termination
  by (relation "measure (\<lambda>(va_abs, want, mapped, h). want - mapped)") (auto simp: KHEAP_P2M_def)

declare map_4k.simps [simp del] map_2m.simps [simp del]

text \<open>The label \<open>committed\<close>: the mapped span becomes one free block at the head of the list.\<close>

definition kheap_commit :: "nat \<Rightarrow> 'e heap_state \<Rightarrow> 'e heap_state" where
  "kheap_commit mapped h =
     (let old_brk = h_brk h;
          b = add64 (h_base h) old_brk;
          h = set_magic b HEAP_MAGIC_FREE h;
          h = set_size b mapped h;
          foot = sub64 (add64 b mapped) 16;
          h = put64 foot HEAP_MAGIC_FREE h;
          h = put64 (foot + 8) mapped h;
          h = set_next b (h_free_list h) h;
          h = set_prev b 0 h;
          h = (if h_free_list h \<noteq> 0 then set_prev (h_free_list h) b h else h);
          h = h\<lparr>h_free_list := b\<rparr>
      in h\<lparr>h_brk := add64 old_brk mapped\<rparr>)"

definition kheap_expand :: "vm_state expand_fn" where
  "kheap_expand want h =
     (let want = (if want < EXPAND_MIN then EXPAND_MIN else want);
          want = ALIGN_UP want PAGE_SIZE in
      if add64 (h_brk h) want > h_limit h then (1, h)
      else let va_abs = add64 (h_base h) (h_brk h);
               head = (KHEAP_P2M - va_abs mod KHEAP_P2M) mod KHEAP_P2M;
               head = (if head > want then want else head) in
        case map_4k va_abs head 0 h of (done_head, mapped, h) \<Rightarrow>
        if \<not> done_head
        then (if mapped = 0 then (1, h) else (0, kheap_commit mapped h))
        else case map_2m va_abs want mapped h of (mapped, h) \<Rightarrow>
          case map_4k va_abs want mapped h of (done_tail, mapped, h) \<Rightarrow>
          if \<not> done_tail \<and> mapped = 0 then (1, h) else (0, kheap_commit mapped h))"

section \<open>The allocation interface\<close>

definition kheap_init :: "kheap_state \<Rightarrow> kheap_state" where
  "kheap_init k = k\<lparr>kheap := heap_init KHEAP_BASE KHEAP_LIMIT (kheap k)\<rparr>"

text \<open>The cache operations on the memory of the heap.\<close>

definition kclass_pop :: "nat \<Rightarrow> kheap_state \<Rightarrow> nat \<times> kheap_state" where
  "kclass_pop ci k = (case sizeclass_pop ci (kclass k, h_mem (kheap k)) of (p, c, m) \<Rightarrow>
     (p, k\<lparr>kclass := c, kheap := (kheap k)\<lparr>h_mem := m\<rparr>\<rparr>))"

definition kclass_push :: "nat \<Rightarrow> nat \<Rightarrow> kheap_state \<Rightarrow> kheap_state" where
  "kclass_push ci p k = (case sizeclass_push ci p (kclass k, h_mem (kheap k)) of (c, m) \<Rightarrow>
     k\<lparr>kclass := c, kheap := (kheap k)\<lparr>h_mem := m\<rparr>\<rparr>)"

definition kheap_alloc :: "nat \<Rightarrow> kheap_state \<Rightarrow> (nat \<times> kheap_state) option" where
  "kheap_alloc sz k = do {
     (p, h) \<leftarrow> heap_alloc (Some (kheap_expand)) sz (kheap k);
     Some (p, k\<lparr>kheap := h\<rparr>)
   }"

definition kmalloc :: "nat \<Rightarrow> kheap_state \<Rightarrow> (nat \<times> kheap_state) option" where
  "kmalloc sz k =
     (case sizeclass_for_request sz of
        Some ci \<Rightarrow>
          (case kclass_pop ci k of (p, k) \<Rightarrow>
             if p \<noteq> 0 then Some (p, k\<lparr>kclass := (kclass k)\<lparr>sc_hits := add64 (sc_hits (kclass k)) 1\<rparr>\<rparr>)
             else kheap_alloc sz (k\<lparr>kclass := (kclass k)\<lparr>sc_misses := add64 (sc_misses (kclass k)) 1\<rparr>\<rparr>))
      | None \<Rightarrow> kheap_alloc sz k)"

definition kfree :: "nat \<Rightarrow> kheap_state \<Rightarrow> kheap_state" where
  "kfree ptr k =
     (let b = sub64 ptr HEADER_SIZE; h = kheap k in
      if ptr \<noteq> 0 \<and> b_magic h b = HEAP_MAGIC_USED \<and> b_size h b > HEADER_SIZE + FOOTER_SIZE
      then let payload = b_size h b - HEADER_SIZE - FOOTER_SIZE;
               k = k\<lparr>kheap := h\<lparr>h_mem := mem_fill ptr payload 0 (h_mem h)\<rparr>\<rparr> in
        case sizeclass_for_payload payload of
          Some ci \<Rightarrow>
            if sc_count (kclass k) ! ci < SIZECLASS_CAP then kclass_push ci ptr k
            else let k = k\<lparr>kclass := (kclass k)\<lparr>sc_spills := add64 (sc_spills (kclass k)) 1\<rparr>\<rparr>
                 in k\<lparr>kheap := heap_free ptr (kheap k)\<rparr>
        | None \<Rightarrow> k\<lparr>kheap := heap_free ptr (kheap k)\<rparr>
      else k\<lparr>kheap := heap_free ptr (kheap k)\<rparr>)"

partial_function (option) drain_class :: "nat \<Rightarrow> kheap_state \<Rightarrow> kheap_state option" where
  "drain_class ci k = (case kclass_pop ci k of (p, k) \<Rightarrow>
     if p \<noteq> 0 then drain_class ci (k\<lparr>kheap := heap_free p (kheap k)\<rparr>) else Some k)"

definition kheap_class_drain :: "kheap_state \<Rightarrow> kheap_state option" where
  "kheap_class_drain k = fold (\<lambda>ci s. s \<bind> drain_class ci) [0..<SIZECLASS_COUNT] (Some k)"

definition krealloc :: "nat \<Rightarrow> nat \<Rightarrow> kheap_state \<Rightarrow> (nat \<times> kheap_state) option" where
  "krealloc ptr sz k = do {
     (p, h) \<leftarrow> heap_realloc (Some (kheap_expand)) ptr sz (kheap k);
     Some (p, k\<lparr>kheap := h\<rparr>)
   }"

text \<open>The walk over the blocks in address order that \<open>kheap_dump\<close> and the self test take.\<close>

partial_function (option) kheap_walk :: "'e heap_state \<Rightarrow> nat \<Rightarrow> nat \<Rightarrow> nat \<Rightarrow> (nat \<times> nat) option" where
  "kheap_walk h b used_b free_b =
     (if b < add64 (h_base h) (h_brk h)
      then if b_magic h b = HEAP_MAGIC_USED
           then kheap_walk h (add64 b (b_size h b)) (add64 used_b (b_size h b)) free_b
           else if b_magic h b = HEAP_MAGIC_FREE
           then kheap_walk h (add64 b (b_size h b)) used_b (add64 free_b (b_size h b))
           else Some (used_b, free_b)
      else Some (used_b, free_b))"

definition kheap_dump :: "kheap_state \<Rightarrow> (nat \<times> nat) option" where
  "kheap_dump k = kheap_walk (kheap k) (h_base (kheap k)) 0 0"

end
