(* ===== verification/KHeap_Props.thy ===== *)
theory KHeap_Props
  imports KHeap Paging_Props
begin

text \<open>
  The kernel heap: the expansion callback fulfils the contract of the first-fit heap, so that
  \<open>kmalloc\<close>, \<open>kfree\<close> and \<open>krealloc\<close> return and keep the heap, the cache and the live objects intact.
\<close>

section \<open>Page tables and frames\<close>

lemma split_huge_page_pmm: "pmm_inv st \<Longrightarrow> pmm_inv (snd (split_huge_page a i e level st))"
  using pmm_alloc_frame_inv [of st]
  by (cases "pmm_alloc_frame st") (simp add: split_huge_page_def Let_def fold_entries_free)

lemma walk_level_pmm: "pmm_inv st \<Longrightarrow> pmm_inv (snd (walk_level create level i a st))"
  using pmm_alloc_frame_inv [of st] split_huge_page_pmm [of st a i "pt_entry st a i" level]
  by (cases "pmm_alloc_frame st"; cases "split_huge_page a i (pt_entry st a i) level st")
    (simp add: walk_level_def zero_page_def Let_def)

lemma walk_levels_pmm: "pmm_inv st \<Longrightarrow> pmm_inv (snd (walk_levels create ls a st))"
proof (induction create ls a st rule: walk_levels.induct)
  case (2 create level i ls a st)
  obtain r1 st1 where w: "walk_level create level i a st = (r1, st1)" by fastforce
  show ?case using 2 w walk_level_pmm [OF 2(2), of create level i a] by (auto split: option.splits)
qed simp

lemma walk_pte_pmm: "pmm_inv (vm_pmm v) \<Longrightarrow> pmm_inv (vm_pmm (snd (walk_pte virt create v)))"
  using walk_levels_pmm [of "vm_pmm v" create "[(0, PML4_INDEX virt), (1, PDPT_INDEX virt), (2, PD_INDEX virt)]" "vm_root v"]
  by (auto simp: walk_pte_def simp del: walk_levels.simps split: prod.splits option.splits)

lemma wr_pte_pmm [simp]: "pmm_inv (vm_pmm (wr_pte pte e v)) = pmm_inv (vm_pmm v)"
  by (simp add: wr_pte_def set_entry_def)

lemma paging_map_pmm: "pmm_inv (vm_pmm v) \<Longrightarrow> pmm_inv (vm_pmm (paging_map virt phys flags v))"
  using walk_pte_pmm [of v virt True] by (auto simp: paging_map_def split: prod.splits option.splits)

lemma paging_map_2m_pmm:
  assumes "pmm_inv (vm_pmm v)"
  shows "pmm_inv (vm_pmm (snd (paging_map_2m virt phys flags v)))"
proof -
  define p3 where "p3 = entry_addr (pt_entry (vm_pmm v) (vm_root v) (PML4_INDEX virt))"
  define e3 where "e3 = pt_entry (vm_pmm v) p3 (PDPT_INDEX virt)"
  define r where "r = (if on e3 PAGE_FLAG_PS then split_huge_page p3 (PDPT_INDEX virt) e3 1 (vm_pmm v) else (1, vm_pmm v))"
  have "pmm_inv (snd r)" using assms split_huge_page_pmm by (simp add: r_def)
  then show ?thesis
    unfolding paging_map_2m_def Let_def p3_def [symmetric] e3_def [symmetric] r_def [symmetric]
    using assms by (cases r) simp
qed

section \<open>Growing the heap\<close>

text \<open>Only the environment and the memory from \<open>lo\<close> up to \<open>hi\<close> change.\<close>

definition grown :: "nat \<Rightarrow> nat \<Rightarrow> vm_state heap_state \<Rightarrow> vm_state heap_state \<Rightarrow> bool" where
  "grown lo hi h h' \<longleftrightarrow> h_base h' = h_base h \<and> h_limit h' = h_limit h \<and> h_brk h' = h_brk h \<and> h_free_list h' = h_free_list h \<and>
     pmm_inv (vm_pmm (h_env h')) \<and> same_outside {lo..<hi} h h'"

lemma grown_trans: "grown lo mid h h1 \<Longrightarrow> grown mid hi h1 h2 \<Longrightarrow> lo \<le> mid \<Longrightarrow> mid \<le> hi \<Longrightarrow> grown lo hi h h2"
  by (auto simp: grown_def same_outside_def)

lemma grown_empty: "grown lo lo h h' \<Longrightarrow> h' = h\<lparr>h_env := h_env h'\<rparr>"
  by (auto simp: grown_def same_outside_def intro!: heap_state.equality)

lemma map_page_grown: "pmm_inv (vm_pmm (h_env h)) \<Longrightarrow> grown va (va + 4096) h (map_page va phys h)"
  using paging_map_pmm [of "h_env h"]
  by (simp add: map_page_def grown_def same_outside_def show_frames_def Let_def PAGE_SIZE_def)

lemma map_large_grown:
  assumes "pmm_inv (vm_pmm (h_env h))" "map_large va phys h = (rc, h')"
  shows "grown va (if rc = 0 then va + 0x200000 else va) h h'"
  using assms paging_map_2m_pmm [OF assms(1), of "word_of_nat va" "word_of_nat phys" heap_page_flags]
  by (auto simp: map_large_def grown_def same_outside_def show_frames_def Let_def KHEAP_P2M_def split: prod.splits if_splits)

lemma map_4k_grown:
  assumes "pmm_inv (vm_pmm (h_env h))" "4096 dvd lim" "4096 dvd mapped" "mapped \<le> lim"
    "map_4k va lim mapped h = (ok, n, h')"
  shows "grown (va + mapped) (va + n) h h' \<and> mapped \<le> n \<and> n \<le> lim \<and> 4096 dvd n \<and> (ok \<longrightarrow> n = lim)"
  using assms
proof (induction va lim mapped h rule: map_4k.induct)
  case (1 va lim mapped h)
  show ?case
  proof (cases "mapped < lim")
    case False
    then show ?thesis using 1(2-) by (simp add: map_4k.simps grown_def same_outside_def)
  next
    case True
    obtain phys st where al: "pmm_alloc_frame (vm_pmm (h_env h)) = (phys, st)" by fastforce
    let ?h = "set_pmm st h"
    have g: "grown (va + mapped) (va + mapped) h ?h"
      using pmm_alloc_frame_inv [OF 1(2)] al by (simp add: grown_def same_outside_def set_pmm_def)
    show ?thesis
    proof (cases "phys = 0")
      case True
      then show ?thesis using \<open>mapped < lim\<close> 1(2-6) al g by (simp add: map_4k.simps [of va lim mapped h])
    next
      case False
      have st: "4096 dvd mapped + 4096" "mapped + 4096 \<le> lim" using 1(3,4) True by (auto elim!: dvdE)
      have p: "pmm_inv (vm_pmm (h_env ?h))" using g by (simp add: grown_def)
      note m = map_page_grown [OF p, of "va + mapped" phys]
      have "map_4k va lim (mapped + 4096) (map_page (va + mapped) phys ?h) = (ok, n, h')"
        using True False 1(6) al by (subst (asm) map_4k.simps) (simp add: PAGE_SIZE_def)
      moreover have "pmm_inv (vm_pmm (h_env (map_page (va + mapped) phys ?h)))" using m by (simp add: grown_def)
      ultimately have "grown (va + (mapped + 4096)) (va + n) (map_page (va + mapped) phys ?h) h' \<and> mapped + 4096 \<le> n \<and> n \<le> lim \<and> 4096 dvd n \<and> (ok \<longrightarrow> n = lim)"
        using 1(1) [OF True al [symmetric] refl False] st 1(3) by (simp add: PAGE_SIZE_def)
      moreover have "grown (va + mapped) (va + (mapped + 4096)) h (map_page (va + mapped) phys ?h)"
        using grown_trans [OF g m] by (simp add: add.assoc)
      ultimately show ?thesis using grown_trans by (meson add_le_mono le_add1 le_refl order.trans)
    qed
  qed
qed

lemma map_2m_grown:
  assumes "pmm_inv (vm_pmm (h_env h))" "4096 dvd mapped" "mapped \<le> want" "map_2m va want mapped h = (n, h')"
  shows "grown (va + mapped) (va + n) h h' \<and> mapped \<le> n \<and> n \<le> want \<and> 4096 dvd n"
  using assms
proof (induction va want mapped h rule: map_2m.induct)
  case (1 va want mapped h)
  show ?case
  proof (cases "mapped + 0x200000 \<le> want")
    case False
    then show ?thesis using 1(2-) by (simp add: map_2m.simps KHEAP_P2M_def grown_def same_outside_def)
  next
    case True
    then have c: "mapped + KHEAP_P2M \<le> want" by (simp add: KHEAP_P2M_def)
    obtain phys st where al: "pmm_alloc_2m (vm_pmm (h_env h)) = (phys, st)" by fastforce
    let ?h = "set_pmm st h"
    have g: "grown (va + mapped) (va + mapped) h ?h"
      using pmm_alloc_2m_inv [OF 1(2)] al by (simp add: grown_def same_outside_def set_pmm_def)
    show ?thesis
    proof (cases "phys = 0")
      case True
      then show ?thesis using c 1(2-5) al g by (simp add: map_2m.simps [of va want mapped h])
    next
      case False
      obtain rc h1 where l: "map_large (va + mapped) phys ?h = (rc, h1)" by fastforce
      have p: "pmm_inv (vm_pmm (h_env ?h))" using g by (simp add: grown_def)
      note m = map_large_grown [OF p l]
      show ?thesis
      proof (cases "rc = 0")
        case True
        have d: "4096 dvd mapped + 0x200000" using 1(3) by (rule dvd_add) simp
        have "map_2m va want (mapped + KHEAP_P2M) h1 = (n, h')"
          using True False 1(5) al l c by (simp add: map_2m.simps [of va want mapped h])
        moreover have "pmm_inv (vm_pmm (h_env h1))" using m by (simp add: grown_def)
        ultimately have r: "grown (va + (mapped + 0x200000)) (va + n) h1 h' \<and> mapped + 0x200000 \<le> n \<and> n \<le> want \<and> 4096 dvd n"
          using 1(1) [OF c al [symmetric] refl False l [symmetric] True] c d by (simp add: KHEAP_P2M_def)
        have "grown (va + mapped) (va + (mapped + 0x200000)) h h1"
          using grown_trans [OF g m] True by (simp add: add.assoc)
        then have "grown (va + mapped) (va + n) h h'" by (rule grown_trans) (use r in auto)
        then show ?thesis using r by simp
      next
        case nz: False
        let ?st = "fold (\<lambda>i st. pmm_free_frame (phys + i * PAGE_SIZE) st) [0..<KHEAP_P2M div PAGE_SIZE] (vm_pmm (h_env h1))"
        have "pmm_inv (fold (\<lambda>i st. pmm_free_frame (phys + i * PAGE_SIZE) st) is st)" if "pmm_inv st" for "is" st
          using that by (induction "is" arbitrary: st) (auto intro: pmm_free_frame_inv)
        then have "pmm_inv ?st" using m by (simp add: grown_def)
        then have "grown (va + mapped) (va + mapped) h1 (set_pmm ?st h1)" by (simp add: grown_def set_pmm_def same_outside_def)
        moreover have "grown (va + mapped) (va + mapped) h h1" using grown_trans [OF g m] nz by simp
        ultimately have "grown (va + mapped) (va + mapped) h (set_pmm ?st h1)" using grown_trans by blast
        moreover have "n = mapped" "h' = set_pmm ?st h1"
          using nz False 1(5) al l c by (simp_all add: map_2m.simps [of va want mapped h])
        ultimately show ?thesis using 1(3,4) by simp
      qed
    qed
  qed
qed

section \<open>Committing the new span\<close>

lemma grown_inv:
  assumes inv: "heap_inv h B fl" and g: "grown (h_base h + h_brk h) hi h h'"
  shows "heap_inv h' B fl"
proof -
  have w: "wv h' x = wv h x" if "x + 8 \<le> h_base h + h_brk h" for x
    using g that by (intro same_outside_wv) (auto simp: grown_def)
  have "blk_ok (wv h') (a, s, u)" if b: "(a, s, u) \<in> set B" for a s u
    using inv_blk(3,5,9) [OF inv b] by (simp add: w)
  moreover have "dlist (wv h') fl (h_free_list h) = dlist (wv h) fl (h_free_list h)"
  proof (rule dlist_cong)
    fix c assume "c \<in> set fl"
    then obtain t where t: "(c, t, False) \<in> set B" using inv_free [OF inv] by metis
    show "wv h' (c + 16) = wv h (c + 16) \<and> wv h' (c + 24) = wv h (c + 24)" using inv_blk(3,5) [OF inv t] by (simp add: w)
  qed
  ultimately show ?thesis using inv g by (auto simp: heap_inv0_def grown_def)
qed

lemma append_block:
  assumes inv: "heap_inv h B fl" and n: "16 dvd n" "64 \<le> n" "h_brk h + n \<le> h_limit h"
  defines "b \<equiv> h_base h + h_brk h"
  assumes w: "wv h' b = HEAP_MAGIC_FREE" "wv h' (b + 8) = n" "wv h' (b + n - 8) = n"
    and same: "\<And>x. x + 8 \<le> b \<Longrightarrow> wv h' x = wv h x"
    and f: "h_base h' = h_base h" "h_limit h' = h_limit h" "h_brk h' = h_brk h + n" "h_free_list h' = h_free_list h"
  shows "heap_inv0 {b} h' (B @ [(b, n, False)]) fl"
proof -
  have nb: "b \<notin> fst ` set B" using inv_blk(3,5) [OF inv] by (force simp: b_def)
  have "blk_ok (wv h') (a, s, u)" if "(a, s, u) \<in> set B" for a s u
    using inv_blk(3,5,9) [OF inv that] by (simp add: same b_def)
  moreover have "dlist (wv h') fl (h_free_list h) = dlist (wv h) fl (h_free_list h)"
  proof (rule dlist_cong)
    fix c assume "c \<in> set fl"
    then obtain t where t: "(c, t, False) \<in> set B" using inv_free [OF inv] by metis
    show "wv h' (c + 16) = wv h (c + 16) \<and> wv h' (c + 24) = wv h (c + 24)" using inv_blk(3,5) [OF inv t] by (simp add: same b_def)
  qed
  moreover have "free_addrs (B @ [(b, n, False)]) - {b} = free_addrs B" using nb by (force simp: free_addrs_def)
  ultimately show ?thesis using inv n w f by (auto simp: heap_inv0_def laid_append b_def add.assoc)
qed

lemma wv_brk [simp]: "wv (h\<lparr>h_brk := x\<rparr>) = wv h"
  by (simp add: wv_def fun_eq_iff)

lemma kheap_commit_effect:
  assumes inv: "heap_inv h B fl" and n: "16 dvd n" "64 \<le> n" "h_brk h + n \<le> h_limit h"
  defines "b \<equiv> h_base h + h_brk h"
  shows "heap_inv (kheap_commit n h) (B @ [(b, n, False)]) (b # fl)"
    "h_base (kheap_commit n h) = h_base h" "h_limit (kheap_commit n h) = h_limit h" "h_brk (kheap_commit n h) = h_brk h + n"
    "h_env (kheap_commit n h) = h_env h" "same_outside ({b..<b + n} \<union> links (set fl)) h (kheap_commit n h)"
proof -
  have reg: "16 dvd h_base h" "h_base h + h_limit h < 2 ^ 64" "laid (h_base h) B b" using inv by (auto simp: heap_inv0_def b_def)
  have b: "16 dvd b" "b + n < 2 ^ 64" using laid_dvd [OF reg(3,1)] reg(2) n by (auto simp: b_def)
  have m8: "8 dvd b + n - 8" "8 dvd b + n - 16" "8 dvd b" "8 dvd n" using b n by (auto intro: dvd_diff_nat)
  define t where "t = put64 (b + n - 8) n (put64 (b + n - 16) HEAP_MAGIC_FREE (put64 (b + 8) n (put64 b HEAP_MAGIC_FREE h)))"
  define h1 where "h1 = t\<lparr>h_brk := h_brk h + n\<rparr>"
  have wt: "wv t = (wv h)(b := HEAP_MAGIC_FREE, b + 8 := n, b + n - 16 := HEAP_MAGIC_FREE, b + n - 8 := n)"
    using b m8 n by (simp add: t_def wv_put64)
  have w1: "wv h1 = wv t" by (simp add: h1_def wv_def fun_eq_iff)
  have eq: "kheap_commit n h = (let h2 = set_prev b 0 (set_next b (h_free_list h) t)
      in (if h_free_list h \<noteq> 0 then set_prev (h_free_list h) b h2 else h2)\<lparr>h_free_list := b, h_brk := h_brk h + n\<rparr>)"
  proof -
    have "add64 (h_base h) (h_brk h) = b" "sub64 (add64 b n) 16 = b + n - 16" "add64 (h_brk h) n = h_brk h + n" "b + n - 16 + 8 = b + n - 8"
      using b n reg(2) by (auto simp: b_def add64_id sub64_id)
    then show ?thesis by (simp add: kheap_commit_def Let_def set_fields t_def)
  qed
  have i1: "heap_inv0 {b} h1 (B @ [(b, n, False)]) fl"
  proof (rule append_block [OF inv n, folded b_def])
    show "wv h1 b = HEAP_MAGIC_FREE" "wv h1 (b + 8) = n" "wv h1 (b + n - 8) = n" using n by (auto simp: w1 wt)
    show "wv h1 x = wv h x" if "x + 8 \<le> b" for x using that n by (auto simp: w1 wt)
  qed (simp_all add: h1_def t_def)
  have fx: "h_free_list h1 = h_free_list h" "h_free_list t = h_free_list h" by (simp_all add: h1_def t_def)
  note x = inv_fl(4,5) [OF inv]
  have "wv (kheap_commit n h) = wv (fl_insert b h1)"
    unfolding eq using b m8 x by (subst wv_fl_insert) (auto simp: Let_def set_fields wv_put64 fx w1 fun_upd_twist)
  then show "heap_inv (kheap_commit n h) (B @ [(b, n, False)]) (b # fl)"
    by (intro heap_inv0_cong [OF fl_insert_inv [OF i1, of n]]) (auto simp: eq Let_def set_fields h1_def t_def)
  show "h_base (kheap_commit n h) = h_base h" "h_limit (kheap_commit n h) = h_limit h" "h_brk (kheap_commit n h) = h_brk h + n"
    "h_env (kheap_commit n h) = h_env h"
    by (auto simp: eq Let_def set_fields t_def)
  let ?Z = "{b..<b + n} \<union> links (set fl)"
  have "same_outside ?Z h t" unfolding t_def using n by (intro same_outside_put64) auto
  then have s2: "same_outside ?Z h (set_prev b 0 (set_next b (h_free_list h) t))"
    unfolding set_fields using n by (intro same_outside_put64) auto
  have "same_outside ?Z h (set_prev (h_free_list h) b (set_prev b 0 (set_next b (h_free_list h) t)))" if "h_free_list h \<noteq> 0"
    using inv_fl(3) [OF inv] that by (intro same_outside_link(2) [OF _ _ s2, of _ "set fl"]) auto
  then show "same_outside ?Z h (kheap_commit n h)"
    using s2 unfolding eq by (auto simp: Let_def same_outside_def)
qed

section \<open>The contract of the heap\<close>

definition kgood :: "vm_state heap_state \<Rightarrow> bool" where
  "kgood h \<longleftrightarrow> pmm_inv (vm_pmm (h_env h)) \<and> h_base h = KHEAP_BASE \<and> h_limit h = KHEAP_LIMIT \<and> 4096 dvd h_brk h"

lemma expand_head:
  assumes "4096 dvd va" "4096 dvd (want :: nat)"
  defines "head \<equiv> (KHEAP_P2M - va mod KHEAP_P2M) mod KHEAP_P2M"
  shows "4096 dvd (if head > want then want else head)"
proof -
  have "4096 dvd KHEAP_P2M - va mod KHEAP_P2M" using assms(1) by (intro dvd_diff_nat) (auto simp: KHEAP_P2M_def dvd_mod)
  then have "4096 dvd head" unfolding head_def by (intro dvd_mod) (auto simp: KHEAP_P2M_def)
  then show ?thesis using assms(2) by simp
qed

text \<open>An expansion maps a positive number of pages and commits them, or maps none and fails.\<close>

lemma kheap_expand_cases:
  assumes inv: "heap_inv h B fl" and good: "kgood h" and want: "want \<le> 2 ^ 63" and e: "kheap_expand want h = (rc, h')"
  obtains "rc = 1" "grown (h_base h + h_brk h) (h_base h + h_brk h) h h'"
    | n h1 where "rc = 0" "0 < n" "4096 dvd n" "h_brk h + n \<le> h_limit h" "grown (h_base h + h_brk h) (h_base h + h_brk h + n) h h1"
      "h' = kheap_commit n h1"
proof -
  note cases = that
  define W where "W = ALIGN_UP (if want < EXPAND_MIN then EXPAND_MIN else want) PAGE_SIZE"
  define va where "va = h_base h + h_brk h"
  have reg: "h_base h + h_limit h < 2 ^ 64" "h_brk h \<le> h_limit h" using inv by (auto simp: heap_inv0_def)
  have g: "pmm_inv (vm_pmm (h_env h))" "4096 dvd va" "h_limit h < 2 ^ 62" using good by (auto simp: kgood_def va_def KHEAP_BASE_def KHEAP_LIMIT_def)
  have W: "4096 dvd W" "W < 2 ^ 63 + 4096"
    using want by (auto simp: W_def PAGE_SIZE_def EXPAND_MIN_def ALIGN_UP_def add64_id)
  have sum: "add64 (h_brk h) W = h_brk h + W" "add64 (h_base h) (h_brk h) = va" using reg W(2) g(3) by (simp_all add: add64_id va_def)
  have W0: "0 < W" using want by (auto simp: W_def PAGE_SIZE_def EXPAND_MIN_def ALIGN_UP_def add64_id)
  define head0 where "head0 = (KHEAP_P2M - va mod KHEAP_P2M) mod KHEAP_P2M"
  define head where "head = (if head0 > W then W else head0)"
  have hd: "4096 dvd head" "head \<le> W" using expand_head [OF g(2) W(1)] by (auto simp: head_def head0_def)
  have eq: "kheap_expand want h =
     (if h_brk h + W > h_limit h then (1, h)
      else case map_4k va head 0 h of (done_head, mapped, h) \<Rightarrow>
        if \<not> done_head then (if mapped = 0 then (1, h) else (0, kheap_commit mapped h))
        else case map_2m va W mapped h of (mapped, h) \<Rightarrow>
          case map_4k va W mapped h of (done_tail, mapped, h) \<Rightarrow>
          if \<not> done_tail \<and> mapped = 0 then (1, h) else (0, kheap_commit mapped h))"
    unfolding kheap_expand_def Let_def W_def [symmetric] sum head0_def [symmetric] head_def [symmetric] ..
  have fin: thesis if "(rc, h') = (if n = 0 then (1, h2) else (0, kheap_commit n h2))" "grown va (va + n) h h2" "4096 dvd n" "n \<le> W"
      "h_brk h + W \<le> h_limit h" for n h2
    using that by (cases "n = 0") (auto intro: cases(1) cases(2) [of n h2] simp: va_def)
  show thesis
  proof (cases "h_brk h + W > h_limit h")
    case True
    then show thesis using e eq cases(1) g(1) by (simp add: grown_def same_outside_def)
  next
    case False
    obtain ok m h1 where k1: "map_4k va head 0 h = (ok, m, h1)" by (metis prod_cases3)
    note g1 = map_4k_grown [OF g(1) hd(1) dvd_0_right le0 k1]
    show thesis
    proof (cases ok)
      case nok: False
      show thesis by (rule fin [of m h1]) (use False nok k1 e eq g1 hd in auto)
    next
      case ok: True
      obtain m2 h2 where k2: "map_2m va W m h1 = (m2, h2)" by fastforce
      have p1: "pmm_inv (vm_pmm (h_env h1))" "4096 dvd m" "m \<le> W" using g1 hd by (auto simp: grown_def)
      note g2 = map_2m_grown [OF p1 k2]
      obtain ok3 m3 h3 where k3: "map_4k va W m2 h2 = (ok3, m3, h3)" by (metis prod_cases3)
      have p2: "pmm_inv (vm_pmm (h_env h2))" "4096 dvd m2" "m2 \<le> W" using g2 by (auto simp: grown_def)
      note g3 = map_4k_grown [OF p2(1) W(1) p2(2,3) k3]
      have "grown va (va + m2) h h2" using g1 g2 by (intro grown_trans [of va "va + m" h h1 "va + m2" h2]) auto
      then have "grown va (va + m3) h h3" using g3 by (intro grown_trans [of va "va + m2" h h2 "va + m3" h3]) auto
      then show thesis by (rule fin [rotated]) (use False ok k1 k2 k3 e eq g3 W0 in auto)
    qed
  qed
qed

lemma kheap_expand_grows:
  assumes inv: "heap_inv h B fl" and good: "kgood h" and n: "0 < n" "4096 dvd n" "h_brk h + n \<le> h_limit h"
    and g: "grown (h_base h + h_brk h) (h_base h + h_brk h + n) h h1"
  defines "h' \<equiv> kheap_commit n h1"
  shows "kgood h' \<and> h_base h' = h_base h \<and> h_limit h' = h_limit h \<and> h_brk h < h_brk h' \<and>
    heap_inv h' (B @ [(h_base h + h_brk h, h_brk h' - h_brk h, False)]) ((h_base h + h_brk h) # fl) \<and> same_outside (spare h B) h h'"
proof -
  have n16: "16 dvd n" "64 \<le> n" using n dvd_trans [of 16 4096 n] dvd_imp_le [of 4096 n] by auto
  have f: "h_base h1 = h_base h" "h_limit h1 = h_limit h" "h_brk h1 = h_brk h" "pmm_inv (vm_pmm (h_env h1))"
    using g by (auto simp: grown_def)
  have inv1: "heap_inv h1 B fl" by (rule grown_inv [OF inv g])
  note c = kheap_commit_effect [OF inv1 n16, unfolded f, OF n(3), folded h'_def]
  have "same_outside ({h_base h + h_brk h..<h_base h + h_brk h + n} \<union> links (set fl)) h h1"
    using g by (auto simp: grown_def intro: same_outside_mono)
  then have "same_outside ({h_base h + h_brk h..<h_base h + h_brk h + n} \<union> links (set fl)) h h'" using c(6) by (rule same_outside_trans)
  moreover have "{h_base h + h_brk h..<h_base h + h_brk h + n} \<subseteq> spare h B"
  proof
    fix x assume x: "x \<in> {h_base h + h_brk h..<h_base h + h_brk h + n}"
    have "x \<notin> uarea B" using inv_blk(5) [OF inv] x by (fastforce simp: uarea_def used_def)
    then show "x \<in> spare h B" using x n(3) by (auto simp: spare_def)
  qed
  moreover have "links (set fl) \<subseteq> spare h B"
    using links_farea [OF inv, of "set fl"] farea_spare [OF inv] inv by (auto simp: heap_inv0_def)
  ultimately have "same_outside (spare h B) h h'" by (auto intro: same_outside_mono)
  moreover have "kgood h'" using good c(2-5) f(4) n by (auto simp: kgood_def)
  ultimately show ?thesis using c(1-4) n by simp
qed

interpretation kh: heap_expander kheap_expand kgood "2 ^ 63"
proof
  show "kgood h'" if "kgood h" "h_base h' = h_base h" "h_limit h' = h_limit h" "h_brk h' = h_brk h" "h_env h' = h_env h" for h h'
    using that by (simp add: kgood_def)
  show "kgood h' \<and> (\<exists>e. h' = h\<lparr>h_env := e\<rparr>)"
    if "heap_inv h B fl" "kgood h" "want \<le> 2 ^ 63" "kheap_expand want h = (rc, h')" "rc \<noteq> 0" for h B fl want rc h'
    using that
  proof (cases rule: kheap_expand_cases)
    case 1
    then show ?thesis using that(2) grown_empty [OF 1(2)] by (auto simp: kgood_def grown_def)
  qed simp
  show "kgood h' \<and> h_base h' = h_base h \<and> h_limit h' = h_limit h \<and> h_brk h < h_brk h' \<and>
      heap_inv h' (B @ [(h_base h + h_brk h, h_brk h' - h_brk h, False)]) ((h_base h + h_brk h) # fl) \<and> same_outside (spare h B) h h'"
    if "heap_inv h B fl" "kgood h" "want \<le> 2 ^ 63" "kheap_expand want h = (0, h')" for h B fl want h'
    using that
  proof (cases rule: kheap_expand_cases)
    case (2 n h1)
    then show ?thesis using kheap_expand_grows [OF that(1,2)] by blast
  qed simp
qed

end
