(* ===== verification/KHeap_Live.thy ===== *)
theory KHeap_Live
  imports KHeap_Props
begin

text \<open>
  What clients of the kernel heap see: a set of live objects, each with its address and capacity.
  \<open>kmalloc\<close>, \<open>kfree\<close>, \<open>krealloc\<close> and \<open>kheap_class_drain\<close> return, change the set as they promise, and keep
  the contents of every other live object.
\<close>

section \<open>The invariant\<close>

text \<open>
  The heap and the cache are intact, and each cached object of a class is the payload of a used
  block that serves this class.
\<close>

definition kinv :: "kheap_state \<Rightarrow> blk list \<Rightarrow> nat list \<Rightarrow> (nat \<Rightarrow> nat list) \<Rightarrow> bool" where
  "kinv k B fl cs \<longleftrightarrow> heap_inv (kheap k) B fl \<and> kgood (kheap k) \<and> cache_inv (kclass k) (h_mem (kheap k)) cs \<and>
     (\<forall>ci < 9. \<forall>p \<in> set (cs ci). \<exists>b s. p = b + 32 \<and> (b, s) \<in> used B \<and> sizeclass_for_payload (s - 48) = Some ci)"

definition live :: "(nat \<times> nat) set \<Rightarrow> nat set \<Rightarrow> (nat \<times> nat) set" where
  "live U C = {(p, n). \<exists>b s. (b, s) \<in> U \<and> p = b + 32 \<and> n = s - 48 \<and> p \<notin> C}"

definition kheap_inv :: "kheap_state \<Rightarrow> (nat \<times> nat) set \<Rightarrow> bool" where
  "kheap_inv k L \<longleftrightarrow> (\<exists>B fl cs. kinv k B fl cs \<and> L = live (used B) (cached cs))"

text \<open>The contents of the objects are the same.\<close>

definition keeps :: "(nat \<times> nat) set \<Rightarrow> kheap_state \<Rightarrow> kheap_state \<Rightarrow> bool" where
  "keeps L k k' \<longleftrightarrow> (\<forall>(p, n) \<in> L. \<forall>i < n. h_mem (kheap k') (p + i) = h_mem (kheap k) (p + i))"

lemma kinvD:
  assumes "kinv k B fl cs"
  shows "heap_inv (kheap k) B fl" "kgood (kheap k)" "cache_inv (kclass k) (h_mem (kheap k)) cs"
    "ci < 9 \<Longrightarrow> p \<in> set (cs ci) \<Longrightarrow> \<exists>b s. p = b + 32 \<and> (b, s) \<in> used B \<and> sizeclass_for_payload (s - 48) = Some ci"
  using assms by (auto simp: kinv_def)

lemma kinv_cached: "kinv k B fl cs \<Longrightarrow> p \<in> cached cs \<Longrightarrow> \<exists>b s. p = b + 32 \<and> (b, s) \<in> used B"
  by (auto simp: cached_def dest!: kinvD(4))

lemma used_disjoint:
  assumes "heap_inv h B fl" "(b, s) \<in> used B" "(c, t) \<in> used B" "b \<noteq> c"
  shows "b + s \<le> c \<or> c + t \<le> b"
  using inv_disjoint [OF assms(1) used_blk(1) [OF assms(1,2)] used_blk(1) [OF assms(1,3)] assms(4)] .

text \<open>Live objects are aligned and do not overlap.\<close>

lemma kheap_inv_live:
  assumes "kheap_inv k L" "(p, n) \<in> L"
  shows "16 dvd p" "p \<noteq> 0" "16 \<le> n" "p + n < 2 ^ 64" "(q, m) \<in> L \<Longrightarrow> q \<noteq> p \<Longrightarrow> p + n \<le> q \<or> q + m \<le> p" "(p, m) \<in> L \<Longrightarrow> m = n"
proof -
  obtain B fl cs where k: "kinv k B fl cs" "L = live (used B) (cached cs)" using assms(1) by (auto simp: kheap_inv_def)
  note inv = kinvD(1) [OF k(1)]
  obtain b s where b: "(b, s) \<in> used B" "p = b + 32" "n = s - 48" using assms(2) k(2) by (auto simp: live_def)
  note u = used_blk [OF inv b(1)]
  have "16 dvd b + 32" using u(7) by (rule dvd_add) simp
  then show "16 dvd p" "p \<noteq> 0" "16 \<le> n" "p + n < 2 ^ 64" using u b by auto
  have l: "\<exists>c t. (c, t) \<in> used B \<and> q = c + 32 \<and> m = t - 48" if "(q, m) \<in> L" for q m using that k(2) by (auto simp: live_def)
  show "p + n \<le> q \<or> q + m \<le> p" if q: "(q, m) \<in> L" "q \<noteq> p"
  proof -
    obtain c t where c: "(c, t) \<in> used B" "q = c + 32" "m = t - 48" using l [OF q(1)] by blast
    then show ?thesis using used_disjoint [OF inv b(1) c(1)] q(2) b used_blk(5) [OF inv c(1)] u(5) by auto
  qed
  show "m = n" if m: "(p, m) \<in> L"
  proof -
    obtain c t where c: "(c, t) \<in> used B" "p = c + 32" "m = t - 48" using l [OF m] by blast
    then show ?thesis using used_same [OF inv b(1), of t] b by simp
  qed
qed

section \<open>Changes of the heap\<close>

lemma kinv_heap:
  assumes k: "kinv k B fl cs" and h': "heap_inv (kheap k') B' fl'" "kgood (kheap k')"
    and c': "sc_head (kclass k') = sc_head (kclass k)" "sc_count (kclass k') = sc_count (kclass k)"
    and stay: "\<And>b s. (b, s) \<in> used B \<Longrightarrow> b + 32 \<in> cached cs \<Longrightarrow>
      (b, s) \<in> used B' \<and> (\<forall>x. b \<le> x \<longrightarrow> x < b + s \<longrightarrow> h_mem (kheap k') x = h_mem (kheap k) x)"
  shows "kinv k' B' fl' cs"
proof -
  have "h_mem (kheap k') (p + i) = h_mem (kheap k) (p + i)" if p: "p \<in> cached cs" "i < 8" for p i
  proof -
    obtain b s where b: "p = b + 32" "(b, s) \<in> used B" using kinv_cached [OF k p(1)] by auto
    then show ?thesis using stay [of b s] p used_blk(5) [OF kinvD(1) [OF k] b(2)] by auto
  qed
  then have "cache_inv (kclass k') (h_mem (kheap k')) cs" using c' by (intro cache_inv_frame [OF kinvD(3) [OF k]]) auto
  moreover have "\<exists>b s. p = b + 32 \<and> (b, s) \<in> used B' \<and> sizeclass_for_payload (s - 48) = Some ci" if "ci < 9" "p \<in> set (cs ci)" for ci p
    using kinvD(4) [OF k that] stay cached_mem [of p cs ci, OF that(2,1)] by blast
  ultimately show ?thesis using h' by (simp add: kinv_def)
qed

text \<open>A write to the first word of a payload.\<close>

lemma payload_word:
  assumes inv: "heap_inv h B fl" and b: "(b, s) \<in> used B" and m: "\<And>x. x < b + 32 \<or> b + 40 \<le> x \<Longrightarrow> m x = h_mem h x"
  shows "heap_inv (h\<lparr>h_mem := m\<rparr>) B fl"
proof (rule heap_inv_payload [OF inv])
  have "{b + 32..<b + 40} \<subseteq> parea (used B)" using b used_blk(5) [OF inv b] by (auto simp: parea_def intro!: bexI [of _ "(b, s)"])
  then show "same_outside (parea (used B)) h (h\<lparr>h_mem := m\<rparr>)"
    unfolding same_outside_def
  proof (intro allI impI)
    fix x assume "x \<notin> parea (used B)"
    then have "\<not> (b + 32 \<le> x \<and> x < b + 40)" using \<open>_ \<subseteq> parea (used B)\<close> by auto
    then show "h_mem (h\<lparr>h_mem := m\<rparr>) x = h_mem h x" using m [of x] by auto
  qed
qed simp_all

lemma live_iff: "(p, n) \<in> live U C \<longleftrightarrow> 32 \<le> p \<and> p \<notin> C \<and> (\<exists>s. (p - 32, s) \<in> U \<and> n = s - 48)"
proof
  assume "(p, n) \<in> live U C"
  then obtain b s where b: "(b, s) \<in> U" "p = b + 32" "n = s - 48" "p \<notin> C" unfolding live_def by blast
  then have "(p - 32, s) \<in> U" by simp
  then show "32 \<le> p \<and> p \<notin> C \<and> (\<exists>s. (p - 32, s) \<in> U \<and> n = s - 48)" using b by (intro conjI exI [of _ s]) auto
next
  assume "32 \<le> p \<and> p \<notin> C \<and> (\<exists>s. (p - 32, s) \<in> U \<and> n = s - 48)"
  then obtain s where "32 \<le> p" "p \<notin> C" "(p - 32, s) \<in> U" "n = s - 48" by blast
  then show "(p, n) \<in> live U C" unfolding live_def by (intro CollectI case_prodI exI [of _ "p - 32"] exI [of _ s]) auto
qed

lemma live_add: "a + 32 \<notin> C \<Longrightarrow> live (insert (a, m) U) C = insert (a + 32, m - 48) (live U C)"
  by (auto simp: live_def)

lemma live_remove:
  assumes "\<And>t. (b, t) \<in> U \<longleftrightarrow> t = s"
  shows "live (U - {(b, s)}) C = live U C - {(b + 32, s - 48)}"
proof -
  have "(p, n) \<in> live (U - {(b, s)}) C \<longleftrightarrow> (p, n) \<in> live U C - {(b + 32, s - 48)}" for p n
    by (cases "p = b + 32") (auto simp: live_iff assms)
  then show ?thesis by auto
qed

lemma live_insert:
  assumes inv: "heap_inv h B fl" and b: "(b, s) \<in> used B"
  shows "live (used B) (C - {b + 32}) = insert (b + 32, s - 48) (live (used B) C)" "live (used B) (insert (b + 32) C) = live (used B) C - {(b + 32, s - 48)}"
proof -
  have u: "(b, t) \<in> used B \<longleftrightarrow> t = s" for t using used_same [OF inv b, of t] b by auto
  have "(p, n) \<in> live (used B) (C - {b + 32}) \<longleftrightarrow> (p, n) \<in> insert (b + 32, s - 48) (live (used B) C)" for p n
    by (cases "p = b + 32") (auto simp: live_iff u)
  then show "live (used B) (C - {b + 32}) = insert (b + 32, s - 48) (live (used B) C)" by auto
  have "(p, n) \<in> live (used B) (insert (b + 32) C) \<longleftrightarrow> (p, n) \<in> live (used B) C - {(b + 32, s - 48)}" for p n
    by (cases "p = b + 32") (auto simp: live_iff u)
  then show "live (used B) (insert (b + 32) C) = live (used B) C - {(b + 32, s - 48)}" by auto
qed

lemma kclass_pop_inv:
  assumes k: "kinv k B fl cs" and ci: "ci < 9" and q: "cs ci = q # qs" and pop: "kclass_pop ci k = (p, k')"
  obtains b s where "p = b + 32" "(b, s) \<in> used B" "sizeclass_for_payload (s - 48) = Some ci" "kinv k' B fl (cs(ci := qs))"
    "cached (cs(ci := qs)) = cached cs - {p}" "\<And>x. x < p \<or> p + 8 \<le> x \<Longrightarrow> h_mem (kheap k') x = h_mem (kheap k) x" "p \<in> cached cs"
proof -
  obtain c' m' where sp: "sizeclass_pop ci (kclass k, h_mem (kheap k)) = (p, c', m')" and
    k': "k' = k\<lparr>kclass := c', kheap := (kheap k)\<lparr>h_mem := m'\<rparr>\<rparr>"
    using pop by (auto simp: kclass_pop_def split: prod.splits)
  note s = sizeclass_pop_inv(2) [OF kinvD(3) [OF k] ci sp q]
  obtain b s where b: "q = b + 32" "(b, s) \<in> used B" "sizeclass_for_payload (s - 48) = Some ci"
    using kinvD(4) [OF k ci, of q] q by auto
  have "heap_inv ((kheap k)\<lparr>h_mem := m'\<rparr>) B fl" using s b by (intro payload_word [OF kinvD(1) [OF k] b(2)]) auto
  moreover have "kgood ((kheap k)\<lparr>h_mem := m'\<rparr>)" using kinvD(2) [OF k] by (simp add: kgood_def)
  moreover have "\<exists>b s. r = b + 32 \<and> (b, s) \<in> used B \<and> sizeclass_for_payload (s - 48) = Some cj"
    if "cj < 9" "r \<in> set ((cs(ci := qs)) cj)" for cj r
    using that q by (intro kinvD(4) [OF k]) (auto split: if_splits)
  ultimately have "kinv k' B fl (cs(ci := qs))" using s by (simp add: kinv_def k')
  moreover have "p \<in> cached cs" using s q ci by (auto intro!: cached_mem [of _ cs ci])
  ultimately show thesis using s b by (intro that [of b s]) (auto simp: k')
qed

lemma kclass_push_inv:
  assumes k: "kinv k B fl cs" and b: "(b, s) \<in> used B" "b + 32 \<notin> cached cs" "sizeclass_for_payload (s - 48) = Some ci" "length (cs ci) < 64"
  defines "k' \<equiv> kclass_push ci (b + 32) k"
  shows "kinv k' B fl (cs(ci := (b + 32) # cs ci))" "cached (cs(ci := (b + 32) # cs ci)) = insert (b + 32) (cached cs)"
    "\<And>x. x < b + 32 \<or> b + 40 \<le> x \<Longrightarrow> h_mem (kheap k') x = h_mem (kheap k) x"
proof -
  have ci: "ci < 9" using sizeclass_for_payload_Some [OF b(3)] by simp
  obtain c' m' where sp: "sizeclass_push ci (b + 32) (kclass k, h_mem (kheap k)) = (c', m')" by fastforce
  have k': "k' = k\<lparr>kclass := c', kheap := (kheap k)\<lparr>h_mem := m'\<rparr>\<rparr>" by (simp add: k'_def kclass_push_def sp)
  note u = used_blk [OF kinvD(1) [OF k] b(1)]
  have p: "8 dvd b + 32" "b + 32 < 2 ^ 64" "b + 32 \<noteq> 0" using u by auto
  note s = sizeclass_push_inv [OF kinvD(3) [OF k] ci b(4,2) p sp]
  show "cached (cs(ci := (b + 32) # cs ci)) = insert (b + 32) (cached cs)" by (rule s(3))
  show m: "h_mem (kheap k') x = h_mem (kheap k) x" if "x < b + 32 \<or> b + 40 \<le> x" for x using s(2) [of x] that by (auto simp: k')
  have "heap_inv ((kheap k)\<lparr>h_mem := m'\<rparr>) B fl" using s(2) by (intro payload_word [OF kinvD(1) [OF k] b(1)]) auto
  moreover have "kgood ((kheap k)\<lparr>h_mem := m'\<rparr>)" using kinvD(2) [OF k] by (simp add: kgood_def)
  moreover have "\<exists>b s. r = b + 32 \<and> (b, s) \<in> used B \<and> sizeclass_for_payload (s - 48) = Some cj"
    if "cj < 9" "r \<in> set ((cs(ci := (b + 32) # cs ci)) cj)" for cj r
    using that b kinvD(4) [OF k that(1), of r] by (auto split: if_splits)
  ultimately show "kinv k' B fl (cs(ci := (b + 32) # cs ci))" using s(1) by (simp add: kinv_def k')
qed

section \<open>Allocation\<close>

text \<open>NULL and nothing else, or a new live object of at least the size asked for.\<close>

definition allocated :: "nat \<Rightarrow> (nat \<times> nat) set \<Rightarrow> kheap_state \<Rightarrow> nat \<Rightarrow> kheap_state \<Rightarrow> bool" where
  "allocated sz L k p k' \<longleftrightarrow> keeps L k k' \<and>
     (if p = 0 then kheap_inv k' L else \<exists>n \<ge> sz. p \<notin> fst ` L \<and> kheap_inv k' (insert (p, n) L))"

lemma live_block: "(p, n) \<in> live U C \<Longrightarrow> \<exists>b s. (b, s) \<in> U \<and> p = b + 32 \<and> n = s - 48 \<and> p \<notin> C"
  by (auto simp: live_def)

lemma keeps_used:
  assumes inv: "heap_inv (kheap k) B fl" and same: "\<And>b s x. (b, s) \<in> used B \<Longrightarrow> b + 32 \<notin> C \<Longrightarrow> b \<le> x \<Longrightarrow> x < b + s \<Longrightarrow> h_mem (kheap k') x = h_mem (kheap k) x"
  shows "keeps (live (used B) C) k k'"
  unfolding keeps_def
proof clarify
  fix p n i assume l: "(p, n) \<in> live (used B) C" and i: "i < n"
  obtain b s where b: "(b, s) \<in> used B" "p = b + 32" "n = s - 48" "p \<notin> C" using live_block [OF l] by blast
  then show "h_mem (kheap k') (p + i) = h_mem (kheap k) (p + i)" using i used_blk(5) [OF inv b(1)] by (intro same [OF b(1)]) auto
qed

lemma keeps_word:
  assumes inv: "heap_inv (kheap k) B fl" and b: "(b, s) \<in> used B" "b + 32 \<in> C"
    and m: "\<And>x. x < b + 32 \<or> b + 40 \<le> x \<Longrightarrow> h_mem (kheap k') x = h_mem (kheap k) x"
  shows "keeps (live (used B) C) k k'"
proof (rule keeps_used [OF inv])
  fix c t x assume c: "(c, t) \<in> used B" "c + 32 \<notin> C" "c \<le> x" "x < c + t"
  then have "c \<noteq> b" using b(2) by auto
  then show "h_mem (kheap k') x = h_mem (kheap k) x"
    using used_disjoint [OF inv c(1) b(1)] c used_blk(5) [OF inv b(1)] by (intro m) auto
qed

lemma kheap_alloc_effect:
  assumes k: "kinv k B fl cs" and sz: "sz < 2 ^ 62"
  shows "\<exists>p k'. kheap_alloc sz k = Some (p, k') \<and> allocated sz (live (used B) (cached cs)) k p k'"
proof -
  note inv = kinvD(1) [OF k]
  note rb = required_block_size [OF sz]
  have "required_block_size sz \<le> 2 ^ 63" using rb(4) by simp
  then obtain p h' where a: "heap_alloc (Some kheap_expand) sz (kheap k) = Some (p, h')"
    "kh.alloc_post (required_block_size sz) (kheap k) B (p, h')"
    by (rule kh.heap_alloc_returns [OF inv kinvD(2) [OF k] sz])
  then obtain B' fl' where h': "kgood h'" "same_outside (spare (kheap k) B) (kheap k) h'" "heap_inv h' B' fl'"
    "if p = 0 then used B' = used B else \<exists>b n. p = b + 32 \<and> required_block_size sz \<le> n \<and> used B' = insert (b, n) (used B) \<and> {b..<b + n} \<inter> uarea B = {}"
    by (auto simp: kh.alloc_post_def)
  let ?k = "k\<lparr>kheap := h'\<rparr>"
  have sub: "used B \<subseteq> used B'" using h'(4) by (auto split: if_splits)
  have k': "kinv ?k B' fl' cs"
    using h'(1,3) sub same_spare [OF h'(2)] by (intro kinv_heap [OF k]) auto
  have keep: "keeps (live (used B) (cached cs)) k ?k" by (rule keeps_used [OF inv]) (simp add: same_spare [OF h'(2)])
  have "allocated sz (live (used B) (cached cs)) k p ?k"
  proof (cases "p = 0")
    case True
    then have "live (used B') (cached cs) = live (used B) (cached cs)" using h'(4) by (simp add: live_def)
    then show ?thesis using True k' keep by (auto simp: allocated_def kheap_inv_def)
  next
    case False
    then obtain b n where b: "p = b + 32" "required_block_size sz \<le> n" "used B' = insert (b, n) (used B)" "{b..<b + n} \<inter> uarea B = {}"
      using h'(4) by auto
    have nb: "(b, s) \<notin> used B" for s using b(2,4) rb(2) used_blk(5) [OF inv, of b s] uarea_memD [of b s B b] by fastforce
    have "p \<notin> cached cs" using kinv_cached [OF k] b(1) nb by force
    then have "live (used B') (cached cs) = insert (p, n - 48) (live (used B) (cached cs))" using b(1,3) by (auto simp: live_def)
    moreover have "p \<notin> fst ` live (used B) (cached cs)" using b(1) nb by (auto simp: live_def)
    moreover have "sz \<le> n - 48" using b(2) rb(3) by simp
    moreover from calculation(1) have "kheap_inv ?k (insert (p, n - 48) (live (used B) (cached cs)))" using k' unfolding kheap_inv_def by metis
    ultimately show ?thesis using False keep by (auto simp: allocated_def)
  qed
  then show ?thesis using a(1) by (auto simp: kheap_alloc_def)
qed

lemma kinv_counters:
  "sc_head c = sc_head (kclass k) \<Longrightarrow> sc_count c = sc_count (kclass k) \<Longrightarrow> kinv (k\<lparr>kclass := c\<rparr>) B fl cs = kinv k B fl cs"
  by (simp add: kinv_def cache_inv_def)

lemma kmalloc_effect:
  assumes "kheap_inv k L" "sz < 2 ^ 62"
  shows "\<exists>p k'. kmalloc sz k = Some (p, k') \<and> allocated sz L k p k'"
proof -
  obtain B fl cs where k: "kinv k B fl cs" "L = live (used B) (cached cs)" using assms(1) by (auto simp: kheap_inv_def)
  note inv = kinvD(1) [OF k(1)]
  show ?thesis
  proof (cases "sizeclass_for_request sz")
    case None
    then show ?thesis using kheap_alloc_effect [OF k(1) assms(2)] k(2) by (simp add: kmalloc_def)
  next
    case (Some ci)
    then have ci: "ci < 9" "sz \<le> sizeclass_bytes ci" by (auto simp: sizeclass_for_request_Some)
    obtain p k1 where pop: "kclass_pop ci k = (p, k1)" by fastforce
    show ?thesis
    proof (cases "cs ci")
      case Nil
      have "p = 0" "k1 = k" using pop sizeclass_pop_inv(1) [OF kinvD(3) [OF k(1)] ci(1) _ Nil] by (auto simp: kclass_pop_def split: prod.splits)
      moreover define k2 where "k2 = k\<lparr>kclass := (kclass k)\<lparr>sc_misses := add64 (sc_misses (kclass k)) 1\<rparr>\<rparr>"
      ultimately have "kmalloc sz k = kheap_alloc sz k2" using Some pop by (simp add: kmalloc_def)
      moreover have "kinv k2 B fl cs" using k(1) kinv_counters [of "(kclass k)\<lparr>sc_misses := add64 (sc_misses (kclass k)) 1\<rparr>" k] by (simp add: k2_def)
      moreover have "allocated sz L k2 p k' = allocated sz L k p k'" for p k' by (simp add: allocated_def keeps_def k2_def)
      ultimately show ?thesis using kheap_alloc_effect [of k2 B fl cs sz] assms(2) k(2) by simp
    next
      case (Cons q qs)
      obtain b s where b: "p = b + 32" "(b, s) \<in> used B" "sizeclass_for_payload (s - 48) = Some ci" "kinv k1 B fl (cs(ci := qs))"
        "cached (cs(ci := qs)) = cached cs - {p}" "\<And>x. x < p \<or> p + 8 \<le> x \<Longrightarrow> h_mem (kheap k1) x = h_mem (kheap k) x" "p \<in> cached cs"
        by (rule kclass_pop_inv [OF k(1) ci(1) Cons pop]) blast
      define k2 where "k2 = k1\<lparr>kclass := (kclass k1)\<lparr>sc_hits := add64 (sc_hits (kclass k1)) 1\<rparr>\<rparr>"
      have "kinv k2 B fl (cs(ci := qs))" using b(4) kinv_counters [of "(kclass k1)\<lparr>sc_hits := add64 (sc_hits (kclass k1)) 1\<rparr>" k1] by (simp add: k2_def)
      moreover have "live (used B) (cached (cs(ci := qs))) = insert (p, s - 48) L" using live_insert(1) [OF inv b(2)] b(1,5) k(2) by simp
      moreover have "keeps L k k2" unfolding k(2) using b(1,6,7) by (intro keeps_word [OF inv b(2)]) (auto simp: k2_def)
      moreover have "p \<notin> fst ` L" using b(7) k(2) by (auto simp: live_def)
      moreover have "sz \<le> s - 48" using ci(2) sizeclass_for_payload_Some [OF b(3)] by simp
      moreover from calculation(1,2) have "kheap_inv k2 (insert (p, s - 48) L)" unfolding kheap_inv_def by metis
      ultimately have "allocated sz L k p k2" using b(1) by (auto simp: allocated_def)
      then show ?thesis using Some pop b(1) by (simp add: kmalloc_def k2_def)
    qed
  qed
qed

section \<open>Release\<close>

lemma heap_free_live:
  assumes k: "kinv k B fl cs" and b: "(b, s) \<in> used B" "b + 32 \<notin> cached cs"
  defines "k' \<equiv> k\<lparr>kheap := heap_free (b + 32) (kheap k)\<rparr>"
  shows "\<exists>B' fl'. kinv k' B' fl' cs \<and> live (used B') (cached cs) = live (used B) (cached cs) - {(b + 32, s - 48)} \<and>
    keeps (live (used B) (cached cs) - {(b + 32, s - 48)}) k k'"
proof -
  note inv = kinvD(1) [OF k]
  obtain B' fl' where f: "heap_inv (heap_free (b + 32) (kheap k)) B' fl'" "used B' = used B - {(b, s)}"
    "same_outside (spare (kheap k) B') (kheap k) (heap_free (b + 32) (kheap k))"
    "h_base (heap_free (b + 32) (kheap k)) = h_base (kheap k)" "h_limit (heap_free (b + 32) (kheap k)) = h_limit (kheap k)"
    "h_brk (heap_free (b + 32) (kheap k)) = h_brk (kheap k)" "h_env (heap_free (b + 32) (kheap k)) = h_env (kheap k)"
    by (rule heap_free_effect [OF inv b(1)])
  have good: "kgood (heap_free (b + 32) (kheap k))" using kinvD(2) [OF k] f(4-7) by (simp add: kgood_def)
  have same: "h_mem (kheap k') x = h_mem (kheap k) x" if "(c, t) \<in> used B'" "c \<le> x" "x < c + t" for c t x
    using same_spare [of "kheap k" B' "heap_free (b + 32) (kheap k)" c t x] f(3) that by (simp add: k'_def)
  have "kinv k' B' fl' cs"
  proof (rule kinv_heap [OF k])
    fix c t assume c: "(c, t) \<in> used B" "c + 32 \<in> cached cs"
    then have "(c, t) \<in> used B'" using b(2) f(2) by auto
    then show "(c, t) \<in> used B' \<and> (\<forall>x. c \<le> x \<longrightarrow> x < c + t \<longrightarrow> h_mem (kheap k') x = h_mem (kheap k) x)" using same by blast
  qed (simp_all add: k'_def f(1) good)
  moreover have l: "live (used B') (cached cs) = live (used B) (cached cs) - {(b + 32, s - 48)}"
    unfolding f(2) using used_same [OF inv b(1)] b(1) by (intro live_remove) blast
  moreover have "keeps (live (used B') (cached cs)) k k'"
    unfolding keeps_def
  proof clarify
    fix p n i assume p: "(p, n) \<in> live (used B') (cached cs)" "i < n"
    obtain c t where c: "(c, t) \<in> used B'" "p = c + 32" "n = t - 48" using live_block [OF p(1)] by blast
    then show "h_mem (kheap k') (p + i) = h_mem (kheap k) (p + i)" using p(2) by (intro same [OF c(1)]) auto
  qed
  ultimately show ?thesis by auto
qed

lemma keeps_trans: "keeps L k k1 \<Longrightarrow> keeps L k1 k2 \<Longrightarrow> keeps L k k2"
  by (fastforce simp: keeps_def)

lemma keeps_mono: "keeps L k k1 \<Longrightarrow> L' \<subseteq> L \<Longrightarrow> keeps L' k k1"
  by (fastforce simp: keeps_def)

text \<open>Clients write to the payloads of their objects only.\<close>

lemma kinv_write:
  assumes k: "kinv k B fl cs" and b: "(b, s) \<in> used B" "b + 32 \<notin> cached cs"
    and m: "\<And>x. x < b + 32 \<or> b + s - 16 \<le> x \<Longrightarrow> m x = h_mem (kheap k) x"
  defines "k' \<equiv> k\<lparr>kheap := (kheap k)\<lparr>h_mem := m\<rparr>\<rparr>"
  shows "kinv k' B fl cs" "keeps (live (used B) (cached cs) - {(b + 32, s - 48)}) k k'"
proof -
  note inv = kinvD(1) [OF k]
  note u = used_blk [OF inv b(1)]
  have other: "m x = h_mem (kheap k) x" if "(c, t) \<in> used B" "c \<noteq> b" "c \<le> x" "x < c + t" for c t x
    using used_disjoint [OF inv that(1) b(1) that(2)] that(3,4) u(5) by (intro m) auto
  have "{b + 32..<b + s - 16} \<subseteq> parea (used B)" using b(1) by (auto simp: parea_def intro!: bexI [of _ "(b, s)"])
  then have "m x = h_mem (kheap k) x" if "x \<notin> parea (used B)" for x using m [of x] that by (meson atLeastLessThan_iff linorder_not_less subsetD)
  then have i': "heap_inv (kheap k') B fl" by (intro heap_inv_payload [OF inv]) (simp_all add: k'_def same_outside_def)
  show "kinv k' B fl cs"
  proof (rule kinv_heap [OF k i'])
    fix c t assume c: "(c, t) \<in> used B" "c + 32 \<in> cached cs"
    then have "c \<noteq> b" using b(2) by auto
    then show "(c, t) \<in> used B \<and> (\<forall>x. c \<le> x \<longrightarrow> x < c + t \<longrightarrow> h_mem (kheap k') x = h_mem (kheap k) x)"
      using c(1) other by (simp add: k'_def)
  qed (use kinvD(2) [OF k] in \<open>simp_all add: k'_def kgood_def\<close>)
  have "h_mem (kheap k') (p + i) = h_mem (kheap k) (p + i)"
    if p: "(p, n) \<in> live (used B) (cached cs)" "(p, n) \<noteq> (b + 32, s - 48)" "i < n" for p n i
  proof -
    obtain c t where c: "(c, t) \<in> used B" "p = c + 32" "n = t - 48" using live_block [OF p(1)] by blast
    then have "c \<noteq> b" using p(2) used_same [OF inv b(1), of t] by auto
    then show ?thesis using c p(3) other [OF c(1)] by (simp add: k'_def)
  qed
  then show "keeps (live (used B) (cached cs) - {(b + 32, s - 48)}) k k'" by (auto simp: keeps_def)
qed

lemma kheap_inv_member:
  assumes "kheap_inv k L" "(p, n) \<in> L"
  obtains B fl cs b s where "kinv k B fl cs" "L = live (used B) (cached cs)" "(b, s) \<in> used B" "p = b + 32" "n = s - 48" "b + 32 \<notin> cached cs"
  using assms unfolding kheap_inv_def by (metis live_block)

lemma kfree_effect:
  assumes "kheap_inv k L" "(p, n) \<in> L"
  shows "kheap_inv (kfree p k) (L - {(p, n)}) \<and> keeps (L - {(p, n)}) k (kfree p k)"
proof -
  obtain B fl cs b s where k: "kinv k B fl cs" "L = live (used B) (cached cs)" "(b, s) \<in> used B" "p = b + 32" "n = s - 48" "b + 32 \<notin> cached cs"
    by (rule kheap_inv_member [OF assms])
  note u = used_blk [OF kinvD(1) [OF k(1)] k(3)]
  define k1 where "k1 = k\<lparr>kheap := (kheap k)\<lparr>h_mem := mem_fill p n 0 (h_mem (kheap k))\<rparr>\<rparr>"
  have m: "mem_fill p n 0 (h_mem (kheap k)) x = h_mem (kheap k) x" if "x < b + 32 \<or> b + s - 16 \<le> x" for x
    using that u(5) by (auto simp: mem_fill_def k(4,5))
  note w = kinv_write [OF k(1,3,6) m, folded k1_def k(4,5) k(2)]
  have eq: "kfree p k = (case sizeclass_for_payload n of
      Some ci \<Rightarrow> if sc_count (kclass k1) ! ci < 64 then kclass_push ci p k1
        else k1\<lparr>kclass := (kclass k1)\<lparr>sc_spills := add64 (sc_spills (kclass k1)) 1\<rparr>, kheap := heap_free p (kheap k1)\<rparr>
    | None \<Rightarrow> k1\<lparr>kheap := heap_free p (kheap k1)\<rparr>)"
    using u by (simp add: kfree_def Let_def k(4,5) k1_def heap_consts SIZECLASS_CAP_def split: option.splits)
  have spill: ?thesis if t: "kinv k2 B fl cs" "kheap k2 = kheap k1" "kfree p k = k2\<lparr>kheap := heap_free p (kheap k2)\<rparr>" for k2
  proof -
    obtain B' fl' where f: "kinv (kfree p k) B' fl' cs" "live (used B') (cached cs) = L - {(p, n)}" "keeps (L - {(p, n)}) k2 (kfree p k)"
      using heap_free_live [OF t(1) k(3,6)] t(3) k(2,4,5) by auto
    moreover have "keeps (L - {(p, n)}) k k2" using w(2) t(2) by (simp add: keeps_def)
    ultimately show ?thesis unfolding kheap_inv_def by (metis keeps_trans)
  qed
  show ?thesis
  proof (cases "sizeclass_for_payload n")
    case None
    show ?thesis by (rule spill [OF w(1)]) (simp_all add: eq None)
  next
    case (Some ci)
    have ci: "ci < 9" using sizeclass_for_payload_Some [OF Some] by simp
    show ?thesis
    proof (cases "sc_count (kclass k1) ! ci < 64")
      case True
      have "length (cs ci) < 64" using True ci kinvD(3) [OF w(1)] by (simp add: cache_inv_def)
      note q = kclass_push_inv [OF w(1) k(3,6) Some [unfolded k(5)] this, folded k(4)]
      have e: "kfree p k = kclass_push ci p k1" using eq Some True by simp
      have "live (used B) (cached (cs(ci := p # cs ci))) = L - {(p, n)}"
        using live_insert(2) [OF kinvD(1) [OF k(1)] k(3)] q(2) k(2,4,5) by simp
      moreover have "keeps (live (used B) (cached (cs(ci := p # cs ci)))) k1 (kfree p k)"
        unfolding e using q(2,3) k(4) by (intro keeps_word [OF kinvD(1) [OF w(1)] k(3)]) auto
      ultimately show ?thesis using q(1) w(2) e unfolding kheap_inv_def by (metis keeps_trans)
    next
      case False
      show ?thesis
        by (rule spill [of "k1\<lparr>kclass := (kclass k1)\<lparr>sc_spills := add64 (sc_spills (kclass k1)) 1\<rparr>\<rparr>"])
          (use w(1) kinv_counters eq Some False in simp_all)
    qed
  qed
qed

section \<open>Resizing\<close>

lemma krealloc_effect:
  assumes "kheap_inv k L" "(p, n) \<in> L" and sz: "0 < sz" "sz < 2 ^ 62"
  shows "\<exists>q k'. krealloc p sz k = Some (q, k') \<and> keeps (L - {(p, n)}) k k' \<and>
    (if q = 0 then kheap_inv k' L \<and> keeps L k k'
     else \<exists>m \<ge> sz. q \<notin> fst ` (L - {(p, n)}) \<and> kheap_inv k' (insert (q, m) (L - {(p, n)})) \<and>
       (\<forall>i < min n sz. h_mem (kheap k') (q + i) = h_mem (kheap k) (p + i)))"
proof -
  obtain B fl cs b s where k: "kinv k B fl cs" "L = live (used B) (cached cs)" "(b, s) \<in> used B" "p = b + 32" "n = s - 48" "b + 32 \<notin> cached cs"
    by (rule kheap_inv_member [OF assms(1,2)])
  note inv = kinvD(1) [OF k(1)]
  note rb = required_block_size [OF sz(2)]
  have rb63: "required_block_size sz \<le> 2 ^ 63" using rb(4) by simp
  obtain q h' B' fl' where r: "heap_realloc (Some kheap_expand) (b + 32) sz (kheap k) = Some (q, h')" "heap_inv h' B' fl'"
    "kgood h'" and f: "h_base h' = h_base (kheap k)" "h_limit h' = h_limit (kheap k)"
    and r4: "\<forall>c t x. (c, t) \<in> used B - {(b, s)} \<longrightarrow> c \<le> x \<longrightarrow> x < c + t \<longrightarrow> h_mem h' x = h_mem (kheap k) x"
    and r5: "q = 0 \<longrightarrow> used B' = used B \<and> same_outside (spare (kheap k) B) (kheap k) h'"
    and r6: "q \<noteq> 0 \<longrightarrow> (\<exists>a m. q = a + 32 \<and> required_block_size sz \<le> m \<and> used B' = insert (a, m) (used B - {(b, s)}) \<and>
       (\<forall>t. (a, t) \<notin> used B - {(b, s)}) \<and> (\<forall>i < min (s - 48) sz. h_mem h' (q + i) = h_mem (kheap k) (b + 32 + i)))"
    using kh.heap_realloc_returns [OF inv kinvD(2) [OF k(1)] k(3) sz rb63] by (elim exE conjE) (rule that; assumption)
  let ?k = "k\<lparr>kheap := h'\<rparr>"
  have sub: "used B - {(b, s)} \<subseteq> used B'" using r5 r6 by (cases "q = 0") auto
  have k': "kinv ?k B' fl' cs"
  proof (rule kinv_heap [OF k(1)])
    fix c t assume c: "(c, t) \<in> used B" "c + 32 \<in> cached cs"
    then have "(c, t) \<in> used B - {(b, s)}" using k(6) by auto
    then show "(c, t) \<in> used B' \<and> (\<forall>x. c \<le> x \<longrightarrow> x < c + t \<longrightarrow> h_mem (kheap ?k) x = h_mem (kheap k) x)" using sub r4 by auto
  qed (simp_all add: r(2,3))
  have bl: "(c, t) \<in> used B - {(b, s)}" if "(c + 32, t - 48) \<in> L - {(p, n)}" "(c, t) \<in> used B" for c t using that k(4,5) by auto
  have "h_mem h' (r' + i) = h_mem (kheap k) (r' + i)" if l: "(r', m) \<in> L - {(p, n)}" "i < m" for r' m i
  proof -
    obtain c t where c: "(c, t) \<in> used B" "r' = c + 32" "m = t - 48" using live_block l(1) k(2) by blast
    show ?thesis by (rule r4 [rule_format, OF bl [of c t]]) (use c l in auto)
  qed
  then have keep: "keeps (L - {(p, n)}) k ?k" by (auto simp: keeps_def)
  have "krealloc p sz k = Some (q, ?k)" using r(1) by (simp add: krealloc_def k(4))
  moreover have "kheap_inv ?k L \<and> keeps L k ?k" if q: "q = 0"
  proof -
    have "live (used B') (cached cs) = L" using r5 q k(2) by (simp add: live_def)
    moreover have "keeps L k ?k" unfolding k(2) by (rule keeps_used [OF inv]) (use r5 q same_spare [of "kheap k" B h'] in auto)
    ultimately show ?thesis using k' unfolding kheap_inv_def by metis
  qed
  moreover have "\<exists>m \<ge> sz. q \<notin> fst ` (L - {(p, n)}) \<and> kheap_inv ?k (insert (q, m) (L - {(p, n)})) \<and>
       (\<forall>i < min n sz. h_mem (kheap ?k) (q + i) = h_mem (kheap k) (p + i))" if q: "q \<noteq> 0"
  proof -
    obtain a m where a: "q = a + 32" "required_block_size sz \<le> m" "used B' = insert (a, m) (used B - {(b, s)})"
      "\<And>t. (a, t) \<notin> used B - {(b, s)}" "\<forall>i < min (s - 48) sz. h_mem h' (q + i) = h_mem (kheap k) (b + 32 + i)"
      using r6 q by blast
    have nc: "q \<notin> cached cs"
    proof
      assume "q \<in> cached cs"
      then obtain c t where "q = c + 32" "(c, t) \<in> used B" using kinv_cached [OF k(1)] by blast
      then show False using a(1) a(4) [of t] k(6) \<open>q \<in> cached cs\<close> by auto
    qed
    have "live (used B - {(b, s)}) (cached cs) = L - {(p, n)}"
      unfolding k(2,4,5) using used_same [OF inv k(3)] k(3) by (intro live_remove) blast
    then have "live (used B') (cached cs) = insert (q, m - 48) (L - {(p, n)})" using live_add nc a(1,3) by simp
    then have "kheap_inv ?k (insert (q, m - 48) (L - {(p, n)}))" using k' unfolding kheap_inv_def by metis
    moreover have "q \<notin> fst ` (L - {(p, n)})"
    proof
      assume "q \<in> fst ` (L - {(p, n)})"
      then obtain t where t: "(q, t) \<in> L - {(p, n)}" by (metis imageE prod.collapse)
      then obtain u where "(a, u) \<in> used B" "t = u - 48" using a(1) k(2) by (auto simp: live_iff)
      then show False using t a(1) a(4) [of u] k(4,5) by auto
    qed
    moreover have "sz \<le> m - 48" using a(2) rb(3) by simp
    ultimately show ?thesis using a(5) k(4,5) by auto
  qed
  ultimately show ?thesis using keep by auto
qed

section \<open>Draining the cache\<close>

lemma drain_class_effect:
  assumes "kinv k B fl cs" "ci < 9"
  shows "\<exists>k' B' fl'. drain_class ci k = Some k' \<and> kinv k' B' fl' (cs(ci := [])) \<and>
    live (used B') (cached (cs(ci := []))) = live (used B) (cached cs) \<and> keeps (live (used B) (cached cs)) k k'"
  using assms
proof (induction "cs ci" arbitrary: k B fl cs)
  case Nil
  have "kclass_pop ci k = (0, k)"
    using sizeclass_pop_inv(1) [OF kinvD(3) [OF Nil(2)] Nil(3) _ Nil(1) [symmetric]]
    by (cases "sizeclass_pop ci (kclass k, h_mem (kheap k))") (auto simp: kclass_pop_def)
  then have "drain_class ci k = Some k" by (subst drain_class.simps) simp
  moreover have "cs(ci := []) = cs" using Nil(1) by (simp add: fun_upd_idem)
  ultimately show ?case using Nil(2) by (auto simp: keeps_def)
next
  case (Cons q qs)
  let ?cs = "cs(ci := qs)"
  note inv = kinvD(1) [OF Cons(3)]
  obtain p k1 where pop: "kclass_pop ci k = (p, k1)" by fastforce
  obtain b s where b: "p = b + 32" "(b, s) \<in> used B" "sizeclass_for_payload (s - 48) = Some ci" "kinv k1 B fl ?cs"
    "cached ?cs = cached cs - {p}" "\<And>x. x < p \<or> p + 8 \<le> x \<Longrightarrow> h_mem (kheap k1) x = h_mem (kheap k) x" "p \<in> cached cs"
    by (rule kclass_pop_inv [OF Cons(3,4) Cons(2) [symmetric] pop]) blast
  have nc: "b + 32 \<notin> cached ?cs" using b(1,5) by simp
  let ?k = "k1\<lparr>kheap := heap_free p (kheap k1)\<rparr>"
  obtain B1 fl1 where f: "kinv ?k B1 fl1 ?cs" "live (used B1) (cached ?cs) = live (used B) (cached ?cs) - {(b + 32, s - 48)}"
    "keeps (live (used B) (cached ?cs) - {(b + 32, s - 48)}) k1 ?k"
    using heap_free_live [OF b(4,2) nc] b(1) by auto
  have l: "live (used B) (cached ?cs) - {(b + 32, s - 48)} = live (used B) (cached cs)"
    using live_insert(1) [OF inv b(2), of "cached cs"] b(1,5,7) by (auto simp: live_def)
  have k1: "keeps (live (used B) (cached cs)) k k1" using b(1,6,7) by (intro keeps_word [OF inv b(2)]) auto
  obtain k' B' fl' where r: "drain_class ci ?k = Some k'" "kinv k' B' fl' (?cs(ci := []))"
    "live (used B') (cached (?cs(ci := []))) = live (used B1) (cached ?cs)" "keeps (live (used B1) (cached ?cs)) ?k k'"
    using Cons(1) [OF _ f(1) Cons(4)] by auto
  have "drain_class ci k = Some k'" using r(1) pop b(1) by (subst drain_class.simps) simp
  moreover have "keeps (live (used B) (cached cs)) k k'" using keeps_trans [OF keeps_trans [OF k1 f(3) [unfolded l]]] r(4) f(2) l by simp
  ultimately show ?case using r(2,3) f(2) l by auto
qed

lemma drain_effect:
  assumes "kinv k B fl cs" "set cis \<subseteq> {..<9}"
  shows "\<exists>k' B' fl' cs'. fold (\<lambda>ci s. s \<bind> drain_class ci) cis (Some k) = Some k' \<and> kinv k' B' fl' cs' \<and>
    live (used B') (cached cs') = live (used B) (cached cs) \<and> keeps (live (used B) (cached cs)) k k' \<and> (\<forall>ci. cs' ci = (if ci \<in> set cis then [] else cs ci))"
  using assms
proof (induction cis arbitrary: k B fl cs)
  case Nil
  then show ?case by (auto simp: keeps_def)
next
  case (Cons ci cis)
  obtain k1 B1 fl1 where d: "drain_class ci k = Some k1" "kinv k1 B1 fl1 (cs(ci := []))"
    "live (used B1) (cached (cs(ci := []))) = live (used B) (cached cs)" "keeps (live (used B) (cached cs)) k k1"
    using drain_class_effect [OF Cons.prems(1), of ci] Cons.prems(2) by auto
  obtain k' B' fl' cs' where r: "fold (\<lambda>ci s. s \<bind> drain_class ci) cis (Some k1) = Some k'" "kinv k' B' fl' cs'"
    "live (used B') (cached cs') = live (used B) (cached cs)" "keeps (live (used B) (cached cs)) k1 k'" "\<forall>cj. cs' cj = (if cj \<in> set cis then [] else (cs(ci := [])) cj)"
    using Cons.IH [OF d(2)] Cons.prems(2) unfolding d(3) by (metis insert_subset list.set(2))
  moreover have "\<forall>cj. cs' cj = (if cj \<in> set (ci # cis) then [] else cs cj)" using r(5) by auto
  moreover have "fold (\<lambda>ci s. s \<bind> drain_class ci) (ci # cis) (Some k) = Some k'" using d(1) r(1) by simp
  ultimately show ?case using keeps_trans [OF d(4) r(4)] by blast
qed

lemma kheap_class_drain_effect:
  assumes "kheap_inv k L"
  shows "\<exists>k'. kheap_class_drain k = Some k' \<and> kheap_inv k' L \<and> keeps L k k' \<and> (\<forall>ci < SIZECLASS_COUNT. sc_count (kclass k') ! ci = 0)"
proof -
  obtain B fl cs where k: "kinv k B fl cs" "L = live (used B) (cached cs)" using assms by (auto simp: kheap_inv_def)
  have c: "SIZECLASS_COUNT = 9" by (simp add: sizeclass_consts)
  obtain k' B' fl' cs' where r: "kheap_class_drain k = Some k'" "kinv k' B' fl' cs'" "live (used B') (cached cs') = L" "keeps L k k'"
    "\<forall>ci. cs' ci = (if ci < 9 then [] else cs ci)"
    using drain_effect [OF k(1), of "[0..<9]"] k(2) by (auto simp: kheap_class_drain_def c lessThan_atLeast0)
  have "sc_count (kclass k') ! ci = 0" if "ci < 9" for ci using kinvD(3) [OF r(2)] r(5) that by (simp add: cache_inv_def)
  then show ?thesis using r(1-4) c unfolding kheap_inv_def by auto
qed

end
