(* ===== verification/RunQueue.thy ===== *)
theory RunQueue
  imports Prelude
begin

text \<open>
  The per-CPU run queues (\<open>kernel/proc/scheduler_rq.c\<close> and the queue section of \<open>schedule\<close>).
  Threads are control blocks in a store indexed by their address; a queue is the singly linked
  list that starts at \<open>rq_head\<close>, ends at \<open>rq_tail\<close> and runs through the \<open>t_next\<close> fields.  The
  predicate \<open>rqs\<close> relates the pointers to one list of threads per CPU, and the refinement lemmas
  show that the pointer code appends and removes as a queue should.
\<close>

section \<open>Threads and processors\<close>

datatype thread_state =
  THREAD_READY | THREAD_RUNNING | THREAD_BLOCKED | THREAD_STOPPED | THREAD_DEAD

record tcb =
  t_state :: thread_state
  t_next :: "nat option"
  quantum :: nat
  kernel_stack :: nat
  pml4_phys :: nat
  is_pthread :: bool
  waited :: bool
  sleep_deadline :: nat
  switch_parked :: bool
  on_queue :: bool

record cpu_local =
  current :: "nat option"
  idle :: "nat option"
  rq_head :: "nat option"
  rq_tail :: "nat option"
  rq_len :: nat
  steal_count :: nat
  rsp0 :: nat
  syscall_kernel_rsp :: nat
  cr3 :: nat

record sched =
  tcbs :: "nat \<Rightarrow> tcb"
  cpus :: "nat \<Rightarrow> cpu_local"
  cpus_online :: nat
  zombies :: "nat list"
  kernel_pml4 :: nat
  cpu_local_ready :: bool
  scheduler_ready :: bool

definition upd_tcb :: "nat \<Rightarrow> (tcb \<Rightarrow> tcb) \<Rightarrow> sched \<Rightarrow> sched" where
  "upd_tcb t f s = s\<lparr>tcbs := (tcbs s)(t := f (tcbs s t))\<rparr>"

definition upd_cpu :: "nat \<Rightarrow> (cpu_local \<Rightarrow> cpu_local) \<Rightarrow> sched \<Rightarrow> sched" where
  "upd_cpu c f s = s\<lparr>cpus := (cpus s)(c := f (cpus s c))\<rparr>"

section \<open>Operations\<close>

text \<open>The scan for the shortest queue, from processor \<open>1\<close> on, against the caller's own length.\<close>

definition least_step :: "sched \<Rightarrow> nat \<Rightarrow> nat \<times> nat \<Rightarrow> nat \<times> nat" where
  "least_step s i b = (case b of (best_id, min_len) \<Rightarrow>
     if rq_len (cpus s i) < min_len then (i, rq_len (cpus s i)) else (best_id, min_len))"

definition find_least_loaded_cpu :: "nat \<Rightarrow> sched \<Rightarrow> nat" where
  "find_least_loaded_cpu me s =
     fst (fold (least_step s) [1..<cpus_online s] (0, rq_len (cpus s me)))"

text \<open>The section of \<open>sched_add_thread\<close> under the lock of the target's queue.\<close>

definition rq_push :: "nat \<Rightarrow> nat \<Rightarrow> sched \<Rightarrow> sched" where
  "rq_push c t s =
    (let s = upd_tcb t (\<lambda>x. x\<lparr>t_next := None\<rparr>) s;
         s = (case rq_tail (cpus s c) of
                Some l \<Rightarrow> upd_tcb l (\<lambda>x. x\<lparr>t_next := Some t\<rparr>) s
              | None \<Rightarrow> upd_cpu c (\<lambda>q. q\<lparr>rq_head := Some t\<rparr>) s)
     in upd_cpu c (\<lambda>q. q\<lparr>rq_tail := Some t, rq_len := add32 (rq_len q) 1\<rparr>) s)"

definition sched_add_thread :: "nat \<Rightarrow> nat option \<Rightarrow> sched \<Rightarrow> sched" where
  "sched_add_thread me t s = (case t of
     None \<Rightarrow> s
   | Some t \<Rightarrow> rq_push (find_least_loaded_cpu me s) t s)"

text \<open>Taking the head of a queue, the section of \<open>schedule\<close> and of \<open>sched_steal_work\<close> under the
  queue's lock.\<close>

definition rq_pop :: "nat \<Rightarrow> sched \<Rightarrow> nat option \<times> sched" where
  "rq_pop c s = (case rq_head (cpus s c) of
     None \<Rightarrow> (None, s)
   | Some t \<Rightarrow>
      (let h = t_next (tcbs s t);
           s = upd_cpu c (\<lambda>q. q\<lparr>rq_head := h\<rparr>) s;
           s = (if h = None then upd_cpu c (\<lambda>q. q\<lparr>rq_tail := None\<rparr>) s else s);
           s = upd_cpu c (\<lambda>q. q\<lparr>rq_len := sub32 (rq_len q) 1\<rparr>) s
       in (Some t, upd_tcb t (\<lambda>x. x\<lparr>t_next := None\<rparr>) s)))"

definition release_claim :: "nat \<Rightarrow> sched \<Rightarrow> sched" where
  "release_claim t = upd_tcb t (\<lambda>x. x\<lparr>on_queue := False\<rparr>)"

text \<open>\<open>__sync_lock_test_and_set\<close> on the queue-membership bit: was it clear before?\<close>

definition claim :: "nat \<Rightarrow> sched \<Rightarrow> bool \<times> sched" where
  "claim t s = (\<not> on_queue (tcbs s t), upd_tcb t (\<lambda>x. x\<lparr>on_queue := True\<rparr>) s)"

definition claim_and_add :: "nat \<Rightarrow> nat \<Rightarrow> sched \<Rightarrow> sched" where
  "claim_and_add me t s = (case claim t s of (won, s') \<Rightarrow>
     if won then sched_add_thread me (Some t) s' else s')"

fun steal_loop :: "nat \<Rightarrow> nat list \<Rightarrow> sched \<Rightarrow> nat option \<times> sched" where
  "steal_loop me [] s = (None, s)"
| "steal_loop me (i # is) s =
    (let v = (me + i) mod cpus_online s in
     if rq_len (cpus s v) = 0 then steal_loop me is s
     else case rq_pop v s of
       (None, s) \<Rightarrow> steal_loop me is s
     | (Some t, s) \<Rightarrow>
         (Some t, upd_cpu me (\<lambda>q. q\<lparr>steal_count := add64 (steal_count q) 1\<rparr>) (release_claim t s)))"

definition sched_steal_work :: "nat \<Rightarrow> sched \<Rightarrow> nat option \<times> sched" where
  "sched_steal_work me s = steal_loop me [1..<cpus_online s] s"

section \<open>Queues as lists\<close>

fun rq_path :: "(nat \<Rightarrow> tcb) \<Rightarrow> nat option \<Rightarrow> nat list \<Rightarrow> bool" where
  "rq_path m h [] \<longleftrightarrow> h = None"
| "rq_path m h (x # xs) \<longleftrightarrow> h = Some x \<and> rq_path m (t_next (m x)) xs"

definition rq_rep :: "(nat \<Rightarrow> tcb) \<Rightarrow> cpu_local \<Rightarrow> nat list \<Rightarrow> bool" where
  "rq_rep m q xs \<longleftrightarrow> rq_path m (rq_head q) xs \<and> rq_len q = length xs mod 2 ^ 32 \<and>
     rq_tail q = (if xs = [] then None else Some (last xs))"

text \<open>All queues at once: no thread is in two places.\<close>

definition rqs :: "sched \<Rightarrow> (nat \<Rightarrow> nat list) \<Rightarrow> bool" where
  "rqs s Q \<longleftrightarrow> (\<forall>c. rq_rep (tcbs s) (cpus s c) (Q c) \<and> distinct (Q c)) \<and>
     (\<forall>c d. c \<noteq> d \<longrightarrow> set (Q c) \<inter> set (Q d) = {})"

definition queued :: "(nat \<Rightarrow> nat list) \<Rightarrow> nat set" where
  "queued Q = (\<Union>c. set (Q c))"

lemma queued_split: "queued Q = (\<Union>d\<in>- {v}. set (Q d)) \<union> set (Q v)"
  by (auto simp: queued_def)

lemma queued_upd: "queued (Q(v := ys)) = (\<Union>d\<in>- {v}. set (Q d)) \<union> set ys"
  using queued_split [of "Q(v := ys)" v] by simp

lemma rq_path_cong:
  "(\<And>x. x \<in> set xs \<Longrightarrow> t_next (m x) = t_next (m' x)) \<Longrightarrow> rq_path m h xs = rq_path m' h xs"
  by (induction xs arbitrary: h) auto

lemma rq_path_snoc:
  assumes "rq_path m h xs" "t \<notin> set xs" "distinct xs" "xs \<noteq> []"
    "\<And>x. x \<in> set xs \<Longrightarrow> x \<noteq> last xs \<Longrightarrow> t_next (m' x) = t_next (m x)"
    "t_next (m' (last xs)) = Some t" "t_next (m' t) = None"
  shows "rq_path m' h (xs @ [t])"
  using assms
proof (induction xs arbitrary: h)
  case (Cons x xs)
  show ?case
  proof (cases "xs = []")
    case False
    then have "x \<noteq> last xs" using Cons.prems(3) by auto
    then have "t_next (m' x) = t_next (m x)" using Cons.prems(5) [of x] False by simp
    moreover have "rq_path m' (t_next (m x)) (xs @ [t])"
      using Cons.prems False by (intro Cons.IH) auto
    ultimately show ?thesis using Cons.prems(1) by simp
  qed (use Cons.prems in simp)
qed simp

lemma rqs_rep: "rqs s Q \<Longrightarrow> rq_rep (tcbs s) (cpus s c) (Q c)"
  by (simp add: rqs_def)

lemma rqs_distinct: "rqs s Q \<Longrightarrow> distinct (Q c)"
  by (simp add: rqs_def)

lemma rqs_disjoint: "rqs s Q \<Longrightarrow> x \<in> set (Q c) \<Longrightarrow> x \<in> set (Q d) \<Longrightarrow> c = d"
  by (auto simp: rqs_def)

text \<open>Whatever keeps the links and the queue heads keeps the queues.\<close>

lemma rqs_cong:
  assumes "rqs s Q" "\<And>x. t_next (tcbs s' x) = t_next (tcbs s x)"
    "\<And>c. rq_head (cpus s' c) = rq_head (cpus s c) \<and> rq_tail (cpus s' c) = rq_tail (cpus s c) \<and>
      rq_len (cpus s' c) = rq_len (cpus s c)"
  shows "rqs s' Q"
proof -
  have "rq_path (tcbs s') h xs = rq_path (tcbs s) h xs" for h xs
    by (rule rq_path_cong) (simp add: assms(2))
  then show ?thesis using assms by (simp add: rqs_def rq_rep_def)
qed

lemma upd_fields [simp]:
  "tcbs (upd_tcb t f s) = (tcbs s)(t := f (tcbs s t))" "cpus (upd_tcb t f s) = cpus s"
  "cpus_online (upd_tcb t f s) = cpus_online s" "zombies (upd_tcb t f s) = zombies s"
  "cpus (upd_cpu c g s) = (cpus s)(c := g (cpus s c))" "tcbs (upd_cpu c g s) = tcbs s"
  "cpus_online (upd_cpu c g s) = cpus_online s" "zombies (upd_cpu c g s) = zombies s"
  "kernel_pml4 (upd_tcb t f s) = kernel_pml4 s" "kernel_pml4 (upd_cpu c g s) = kernel_pml4 s"
  "cpu_local_ready (upd_tcb t f s) = cpu_local_ready s"
  "cpu_local_ready (upd_cpu c g s) = cpu_local_ready s"
  "scheduler_ready (upd_tcb t f s) = scheduler_ready s"
  "scheduler_ready (upd_cpu c g s) = scheduler_ready s"
  by (simp_all add: upd_tcb_def upd_cpu_def)

lemma add32_mod: "add32 (n mod 2 ^ 32) 1 = Suc n mod 2 ^ 32"
  by (simp add: add32_def mod_simps)

lemma sub32_mod: "sub32 (Suc n mod 2 ^ 32) 1 = n mod 2 ^ 32"
proof -
  have "sub32 (Suc n mod 2 ^ 32) 1 = (Suc n mod 2 ^ 32 + (2 ^ 32 - 1)) mod 2 ^ 32"
    by (simp add: sub32_def)
  also have "\<dots> = (Suc n + (2 ^ 32 - 1)) mod 2 ^ 32" by (rule mod_add_left_eq)
  also have "Suc n + (2 ^ 32 - 1) = n + 2 ^ 32" by simp
  finally show ?thesis by simp
qed

lemma rq_push_fields:
  "on_queue (tcbs (rq_push c t s) x) = on_queue (tcbs s x)"
  "t_state (tcbs (rq_push c t s) x) = t_state (tcbs s x)"
  "switch_parked (tcbs (rq_push c t s) x) = switch_parked (tcbs s x)"
  "current (cpus (rq_push c t s) d) = current (cpus s d)"
  "idle (cpus (rq_push c t s) d) = idle (cpus s d)"
  "cpus_online (rq_push c t s) = cpus_online s" "zombies (rq_push c t s) = zombies s"
  by (auto simp: rq_push_def Let_def split: option.splits)

lemma rq_push_rqs:
  assumes "rqs s Q" "t \<notin> queued Q"
  shows "rqs (rq_push c t s) (Q(c := Q c @ [t]))"
proof -
  have fresh: "t \<notin> set (Q d)" for d using assms(2) by (auto simp: queued_def)
  note rep = rqs_rep [OF assms(1), of c] and dist = rqs_distinct [OF assms(1)]
  have new: "rq_rep (tcbs (rq_push c t s)) (cpus (rq_push c t s) c) (Q c @ [t])"
  proof (cases "Q c = []")
    case True
    then show ?thesis using rep add32_mod [of 0] by (simp add: rq_rep_def rq_push_def Let_def)
  next
    case False
    then have tl: "rq_tail (cpus s c) = Some (last (Q c))" using rep by (simp add: rq_rep_def)
    have ne: "last (Q c) \<noteq> t" using fresh [of c] False by (metis last_in_set)
    have "rq_path (tcbs (rq_push c t s)) (rq_head (cpus s c)) (Q c @ [t])"
      using rep False fresh [of c] dist ne tl
      by (intro rq_path_snoc [where m = "tcbs s"])
        (auto simp: rq_rep_def rq_push_def Let_def)
    then show ?thesis using rep tl False add32_mod [of "length (Q c)"]
      by (simp add: rq_rep_def rq_push_def Let_def)
  qed
  have other: "rq_rep (tcbs (rq_push c t s)) (cpus (rq_push c t s) d) (Q d)" if "d \<noteq> c" for d
  proof -
    have "t_next (tcbs (rq_push c t s) x) = t_next (tcbs s x)" if x: "x \<in> set (Q d)" for x
    proof -
      have "rq_tail (cpus s c) \<noteq> Some x"
      proof
        assume "rq_tail (cpus s c) = Some x"
        then have "x \<in> set (Q c)" using rep by (auto simp: rq_rep_def split: if_splits)
        then show False using rqs_disjoint [OF assms(1) x] \<open>d \<noteq> c\<close> by simp
      qed
      then show ?thesis using x fresh [of d] by (auto simp: rq_push_def Let_def split: option.splits)
    qed
    from rq_path_cong [OF this] rqs_rep [OF assms(1), of d] that show ?thesis
      by (auto simp: rq_rep_def rq_push_def Let_def split: option.splits)
  qed
  show ?thesis using new other dist fresh assms(1) by (auto simp: rqs_def)
qed

lemma rq_pop_empty:
  assumes "rqs s Q" "Q c = []"
  shows "rq_pop c s = (None, s)"
  using rqs_rep [OF assms(1), of c] assms(2) by (simp add: rq_rep_def rq_pop_def)

lemma rq_pop_rqs:
  assumes "rqs s Q" "Q c = t # xs"
  shows "fst (rq_pop c s) = Some t" "rqs (snd (rq_pop c s)) (Q(c := xs))"
proof -
  note rep = rqs_rep [OF assms(1), of c] and dist = rqs_distinct [OF assms(1), of c]
  have hd: "rq_head (cpus s c) = Some t" using rep assms(2) by (simp add: rq_rep_def)
  then show "fst (rq_pop c s) = Some t" by (simp add: rq_pop_def Let_def)
  let ?s = "snd (rq_pop c s)"
  have path: "rq_path (tcbs ?s) h ys = rq_path (tcbs s) h ys" if "t \<notin> set ys" for h ys
    using that by (intro rq_path_cong) (auto simp: rq_pop_def Let_def hd split: if_splits)
  have tn: "t \<notin> set xs" "\<And>d. d \<noteq> c \<Longrightarrow> t \<notin> set (Q d)"
    using dist assms(2) rqs_disjoint [OF assms(1), of t c] by auto
  have new: "rq_rep (tcbs ?s) (cpus ?s c) xs"
  proof (cases xs)
    case Nil
    then show ?thesis using rep assms(2) sub32_mod [of 0]
      by (simp add: rq_rep_def rq_pop_def Let_def hd)
  next
    case (Cons y ys)
    then have nx: "t_next (tcbs s t) = Some y" using rep assms(2) by (simp add: rq_rep_def)
    have "rq_path (tcbs ?s) (t_next (tcbs s t)) xs"
      using path [OF tn(1)] rep assms(2) by (simp add: rq_rep_def)
    moreover have "rq_head (cpus ?s c) = t_next (tcbs s t)" "rq_tail (cpus ?s c) = rq_tail (cpus s c)"
      "rq_len (cpus ?s c) = sub32 (rq_len (cpus s c)) 1"
      using nx by (simp_all add: rq_pop_def Let_def hd)
    ultimately show ?thesis using rep assms(2) Cons sub32_mod [of "length xs"]
      by (simp add: rq_rep_def del: rq_path.simps)
  qed
  have other: "rq_rep (tcbs ?s) (cpus ?s d) (Q d)" if "d \<noteq> c" for d
    using rqs_rep [OF assms(1), of d] path [OF tn(2) [OF that]] that
    by (auto simp: rq_rep_def rq_pop_def Let_def hd)
  have "set ((Q(c := xs)) d) \<subseteq> set (Q d)" for d using assms(2) by auto
  then have "set ((Q(c := xs)) d) \<inter> set ((Q(c := xs)) e) = {}" if "d \<noteq> e" for d e
    using rqs_disjoint [OF assms(1)] that by blast
  then show "rqs ?s (Q(c := xs))"
    using new other rqs_distinct [OF assms(1)] dist assms(2) by (simp add: rqs_def)
qed

lemma rq_pop_fields:
  "on_queue (tcbs (snd (rq_pop c s)) x) = on_queue (tcbs s x)"
  "t_state (tcbs (snd (rq_pop c s)) x) = t_state (tcbs s x)"
  "switch_parked (tcbs (snd (rq_pop c s)) x) = switch_parked (tcbs s x)"
  "current (cpus (snd (rq_pop c s)) d) = current (cpus s d)"
  "idle (cpus (snd (rq_pop c s)) d) = idle (cpus s d)"
  "cpus_online (snd (rq_pop c s)) = cpus_online s" "zombies (snd (rq_pop c s)) = zombies s"
  by (auto simp: rq_pop_def Let_def split: option.splits)

text \<open>The scan names an online processor (or the boot processor).\<close>

lemma least_fold:
  "fst (fold (least_step s) is b) \<in> insert (fst b) (set is)"
proof (induction "is" arbitrary: b)
  case (Cons i "is")
  from Cons [of "least_step s i b"] show ?case by (auto simp: least_step_def split: prod.splits if_splits)
qed simp

lemma find_least_loaded_online: "0 < cpus_online s \<Longrightarrow> find_least_loaded_cpu me s < cpus_online s"
  using least_fold [of s "[1..<cpus_online s]" "(0, rq_len (cpus s me))"]
  by (auto simp: find_least_loaded_cpu_def)

end
