(* ===== verification/Sched.thy ===== *)
theory Sched
  imports RunQueue
begin

text \<open>
  The scheduler proper (\<open>kernel/proc/scheduler.c\<close>): picking the next thread, the parking
  handshake with the processor that is still saving it, publishing the outgoing thread, voluntary
  and timer-driven preemption, and the accounting of the timer tick.  \<open>schedule\<close> is the sequential
  reading of the code, with \<^const>\<open>None\<close> for the wait loop that only another processor can end;
  the interleaved reading is in \<open>SchedSmp\<close>.
\<close>

section \<open>Choosing and installing a thread\<close>

definition THREAD_STACK_SIZE :: nat where
  "THREAD_STACK_SIZE = 32768"

definition SCHED_QUANTUM :: nat where
  "SCHED_QUANTUM = 5"

definition SCHED_MAX_CPUS :: nat where
  "SCHED_MAX_CPUS = 32"

definition sched_current :: "nat \<Rightarrow> sched \<Rightarrow> nat option" where
  "sched_current me s = (if \<not> cpu_local_ready s then None else current (cpus s me))"

definition pick_own :: "nat \<Rightarrow> sched \<Rightarrow> nat option \<times> sched" where
  "pick_own me s = (case rq_pop me s of
     (None, s) \<Rightarrow> (None, s)
   | (Some t, s) \<Rightarrow> (Some t, release_claim t s))"

definition pick_next :: "nat \<Rightarrow> sched \<Rightarrow> nat option \<times> sched" where
  "pick_next me s = (case pick_own me s of
     (Some t, s) \<Rightarrow> (Some t, s)
   | (None, s) \<Rightarrow> (case sched_steal_work me s of
       (Some t, s) \<Rightarrow> (Some t, s)
     | (None, s) \<Rightarrow> (idle (cpus s me), s)))"

text \<open>The wait for \<open>switch_parked\<close>: it ends at once when the flag is set, and never by itself
  otherwise.\<close>

definition wait_parked :: "nat option \<Rightarrow> nat option \<Rightarrow> sched \<Rightarrow> sched option" where
  "wait_parked next old s = (case next of
     None \<Rightarrow> Some s
   | Some n \<Rightarrow>
       if next = old then Some s
       else if switch_parked (tcbs s n) then Some (upd_tcb n (\<lambda>x. x\<lparr>switch_parked := False\<rparr>) s)
       else None)"

definition paging_switch_to :: "nat \<Rightarrow> nat \<Rightarrow> sched \<Rightarrow> sched" where
  "paging_switch_to me p s = (if p = 0 then s else upd_cpu me (\<lambda>q. q\<lparr>cr3 := p\<rparr>) s)"

definition install :: "nat \<Rightarrow> nat option \<Rightarrow> sched \<Rightarrow> sched" where
  "install me next s =
    (let s = upd_cpu me (\<lambda>q. q\<lparr>current := next\<rparr>) s in
     case next of
       None \<Rightarrow> s
     | Some n \<Rightarrow>
        (let s = upd_tcb n (\<lambda>x. x\<lparr>t_state := THREAD_RUNNING\<rparr>) s;
             top = add64 (kernel_stack (tcbs s n)) THREAD_STACK_SIZE;
             s = (if kernel_stack (tcbs s n) \<noteq> 0
                  then upd_cpu me (\<lambda>q. q\<lparr>rsp0 := top, syscall_kernel_rsp := top\<rparr>) s else s)
         in if pml4_phys (tcbs s n) \<noteq> 0 then paging_switch_to me (pml4_phys (tcbs s n)) s
            else if cr3 (cpus s me) \<noteq> kernel_pml4 s \<and> kernel_pml4 s \<noteq> 0
                 then paging_switch_to me (kernel_pml4 s) s
            else s))"

definition must_publish :: "nat \<Rightarrow> nat option \<Rightarrow> sched \<Rightarrow> bool" where
  "must_publish me old s = (case old of
     None \<Rightarrow> False
   | Some t \<Rightarrow> old \<noteq> idle (cpus s me) \<and> t_state (tcbs s t) = THREAD_READY)"

definition publish :: "nat \<Rightarrow> nat option \<Rightarrow> sched \<Rightarrow> sched" where
  "publish me old s = (case old of
     None \<Rightarrow> s
   | Some t \<Rightarrow> if must_publish me old s
       then claim_and_add me t (upd_tcb t (\<lambda>x. x\<lparr>switch_parked := False\<rparr>) s) else s)"

text \<open>The part of the assembly switch the other processors observe: the frame is saved.\<close>

definition context_switch :: "nat \<Rightarrow> sched \<Rightarrow> sched" where
  "context_switch old = upd_tcb old (\<lambda>x. x\<lparr>switch_parked := True\<rparr>)"

definition switch_away :: "nat option \<Rightarrow> nat option \<Rightarrow> sched \<Rightarrow> sched" where
  "switch_away old next s = (case (old, next) of
     (Some t, Some n) \<Rightarrow> if t \<noteq> n then context_switch t s else s
   | _ \<Rightarrow> s)"

definition schedule :: "nat \<Rightarrow> sched \<Rightarrow> sched option" where
  "schedule me s =
    (if \<not> cpu_local_ready s then Some s
     else let old = current (cpus s me) in
       case pick_next me s of (next, s) \<Rightarrow>
         (case wait_parked next old s of
            None \<Rightarrow> None
          | Some s \<Rightarrow> Some (switch_away old next (publish me old (install me next s)))))"

section \<open>Reaping\<close>

definition zero_tcb :: tcb where
  "zero_tcb = \<lparr>t_state = THREAD_READY, t_next = None, quantum = 0, kernel_stack = 0,
     pml4_phys = 0, is_pthread = False, waited = False, sleep_deadline = 0,
     switch_parked = False, on_queue = False\<rparr>"

definition reapable :: "nat \<Rightarrow> sched \<Rightarrow> nat \<Rightarrow> bool" where
  "reapable me s z \<longleftrightarrow>
     \<not> (Some z = sched_current me s \<or> \<not> waited (tcbs s z) \<or> \<not> switch_parked (tcbs s z))"

definition reap_one :: "nat \<Rightarrow> nat \<Rightarrow> sched \<Rightarrow> sched" where
  "reap_one me z s =
    (let p = pml4_phys (tcbs s z);
         s = (if p \<noteq> 0 \<and> \<not> is_pthread (tcbs s z) \<and> p \<noteq> kernel_pml4 s \<and> cr3 (cpus s me) = p
              then paging_switch_to me (kernel_pml4 s) s else s)
     in upd_tcb z (\<lambda>_. zero_tcb) s)"

text \<open>The unlinked zombies are pushed on a list of their own and freed from its head.\<close>

definition thread_reap_zombies :: "nat \<Rightarrow> sched \<Rightarrow> sched" where
  "thread_reap_zombies me s =
     fold (reap_one me) (rev (filter (reapable me s) (zombies s)))
       (s\<lparr>zombies := filter (\<lambda>z. \<not> reapable me s z) (zombies s)\<rparr>)"

section \<open>Yielding, blocking and the timer\<close>

definition set_state :: "nat \<Rightarrow> thread_state \<Rightarrow> sched \<Rightarrow> sched" where
  "set_state t st = upd_tcb t (\<lambda>x. x\<lparr>t_state := st\<rparr>)"

definition sched_yield :: "nat \<Rightarrow> sched \<Rightarrow> sched option" where
  "sched_yield me s =
    (let s = thread_reap_zombies me s in
     schedule me
       (case current (cpus s me) of
          None \<Rightarrow> s
        | Some t \<Rightarrow> if cpu_local_ready s \<and> Some t \<noteq> idle (cpus s me)
            then set_state t THREAD_READY s else s))"

definition kernel_block_current :: "nat \<Rightarrow> sched \<Rightarrow> sched option" where
  "kernel_block_current me s = schedule me (case sched_current me s of
     None \<Rightarrow> s | Some t \<Rightarrow> set_state t THREAD_BLOCKED s)"

record acct =
  total_ticks :: "nat list"
  idle_ticks :: "nat list"
  win_snap_total :: nat
  win_snap_idle :: nat
  win_busy_x100 :: nat
  win_ticks_left :: nat
  win_armed :: bool

definition sched_get_total_ticks :: "acct \<Rightarrow> nat" where
  "sched_get_total_ticks a = fold (\<lambda>x n. add64 n x) (total_ticks a) 0"

definition sched_get_idle_ticks :: "acct \<Rightarrow> nat" where
  "sched_get_idle_ticks a = fold (\<lambda>x n. add64 n x) (idle_ticks a) 0"

definition busy_x100 :: "nat \<Rightarrow> nat \<Rightarrow> nat" where
  "busy_x100 dt di =
    (let di = (if di > dt then dt else di)
     in if dt \<noteq> 0 then (mul64 (sub64 dt di) 10000 div dt) mod 2 ^ 32 else 0)"

definition fold_window :: "nat \<Rightarrow> acct \<Rightarrow> acct" where
  "fold_window hz a =
    (if win_ticks_left a = 0 then
       let a = a\<lparr>win_ticks_left := (if hz = 0 then 100 else hz)\<rparr>;
           t = sched_get_total_ticks a; i = sched_get_idle_ticks a;
           a = (if win_armed a
                then a\<lparr>win_busy_x100 := busy_x100 (sub64 t (win_snap_total a)) (sub64 i (win_snap_idle a))\<rparr>
                else a)
       in a\<lparr>win_snap_total := t, win_snap_idle := i, win_armed := True\<rparr>
     else a\<lparr>win_ticks_left := win_ticks_left a - 1\<rparr>)"

definition account_tick :: "nat \<Rightarrow> bool \<Rightarrow> nat \<Rightarrow> acct \<Rightarrow> acct" where
  "account_tick me is_idle hz a =
    (if me < SCHED_MAX_CPUS then
       let a = a\<lparr>total_ticks := (total_ticks a)[me := add64 (total_ticks a ! me) 1]\<rparr>;
           a = (if is_idle then a\<lparr>idle_ticks := (idle_ticks a)[me := add64 (idle_ticks a ! me) 1]\<rparr> else a)
       in if me = 0 then fold_window hz a else a
     else a)"

definition sched_tick :: "nat \<Rightarrow> nat \<Rightarrow> sched \<times> acct \<Rightarrow> sched option \<times> acct" where
  "sched_tick me hz sa = (case sa of (s, a) \<Rightarrow>
     if \<not> scheduler_ready s \<or> \<not> cpu_local_ready s then (Some s, a)
     else case current (cpus s me) of
       None \<Rightarrow> (Some s, a)
     | Some t \<Rightarrow>
        (let is_idle = (Some t = idle (cpus s me));
             a = account_tick me is_idle hz a
         in if is_idle then (schedule me s, a)
            else let s = upd_tcb t (\<lambda>x. x\<lparr>quantum := sub64 (quantum x) 1\<rparr>) s
                 in if quantum (tcbs s t) = 0
                    then (schedule me (set_state t THREAD_READY
                            (upd_tcb t (\<lambda>x. x\<lparr>quantum := SCHED_QUANTUM\<rparr>) s)), a)
                    else (Some s, a)))"

end
