(* ===== verification/SchedSmp.thy ===== *)
theory SchedSmp
  imports Sched
begin

text \<open>
  The scheduler on several processors.  Each processor has a program counter inside \<open>schedule\<close> or
  inside one of the wake-up paths; one step executes one section of the code that the others see
  as a whole: the section under a run-queue lock, or one access to a shared field of a thread.
  The scan for the target of an enqueue reads the queue lengths without a lock, so here its result
  is any online processor.
\<close>

section \<open>Program counters and steps\<close>

text \<open>
  \<open>old\<close> and \<open>next\<close> are the local variables of \<open>schedule\<close>; the wake-up paths are those of
  \<open>wq_wake_one\<close>, \<open>futex_wake_bitset\<close>, \<open>signal_send\<close> and \<open>signal_tick\<close>, which share their code.
\<close>

datatype pc =
    Thread
  | Pick "nat option"
  | Claimed "nat option" nat
  | Steal "nat option" nat
  | Spin "nat option" "nat option"
  | Enter "nat option" nat
  | Install "nat option" "nat option"
  | Publish "nat option" "nat option"
  | PublishClaim nat "nat option"
  | PublishPush nat "nat option"
  | Switch "nat option" "nat option"
  | WakeStore nat
  | WakeClaim nat
  | WakePush nat

text \<open>What the running thread does next, or the target of an enqueue.\<close>

datatype act = Go | Target nat | Block | Yield | Wake nat

type_synonym conf = "sched \<times> (nat \<Rightarrow> pc)"

definition run_act :: "nat \<Rightarrow> act \<Rightarrow> sched \<Rightarrow> (sched \<times> pc) option" where
  "run_act c a s = (case a of
     Go \<Rightarrow> Some (s, Pick (current (cpus s c)))
   | Block \<Rightarrow> (case current (cpus s c) of
       Some t \<Rightarrow> Some (set_state t THREAD_BLOCKED s, Thread) | None \<Rightarrow> None)
   | Yield \<Rightarrow> (case current (cpus s c) of
       Some t \<Rightarrow> if Some t = idle (cpus s c) then None
         else Some (set_state t THREAD_READY s, Pick (Some t))
     | None \<Rightarrow> None)
   | Wake t \<Rightarrow> if t_state (tcbs s t) = THREAD_BLOCKED then Some (s, WakeStore t) else Some (s, Thread)
   | Target _ \<Rightarrow> None)"

definition push_to :: "act \<Rightarrow> nat \<Rightarrow> sched \<Rightarrow> sched option" where
  "push_to a t s = (case a of
     Target d \<Rightarrow> if d < cpus_online s then Some (rq_push d t s) else None | _ \<Rightarrow> None)"

definition steal_step :: "nat \<Rightarrow> nat option \<Rightarrow> nat \<Rightarrow> sched \<Rightarrow> sched \<times> pc" where
  "steal_step c old i s =
    (if i < cpus_online s then
       let v = (c + i) mod cpus_online s in
       if rq_len (cpus s v) = 0 then (s, Steal old (i + 1))
       else (case rq_pop v s of
           (None, s) \<Rightarrow> (s, Steal old (i + 1))
         | (Some t, s) \<Rightarrow>
             (upd_cpu c (\<lambda>q. q\<lparr>steal_count := add64 (steal_count q) 1\<rparr>) (release_claim t s),
              Spin old (Some t)))
     else (s, Spin old (idle (cpus s c))))"

fun cpu_step :: "nat \<Rightarrow> act \<Rightarrow> pc \<Rightarrow> sched \<Rightarrow> (sched \<times> pc) option" where
  "cpu_step c a Thread s = run_act c a s"
| "cpu_step c a (Pick old) s = (case rq_pop c s of
     (None, s) \<Rightarrow> Some (s, Steal old 1)
   | (Some t, s) \<Rightarrow> Some (s, Claimed old t))"
| "cpu_step c a (Claimed old t) s = Some (release_claim t s, Spin old (Some t))"
| "cpu_step c a (Steal old i) s = Some (steal_step c old i s)"
| "cpu_step c a (Spin old nxt) s = (case nxt of
     None \<Rightarrow> Some (s, Install old nxt)
   | Some n \<Rightarrow> if nxt = old then Some (s, Install old nxt)
       else if switch_parked (tcbs s n) then Some (s, Enter old n) else Some (s, Spin old nxt))"
| "cpu_step c a (Enter old n) s =
     Some (upd_tcb n (\<lambda>x. x\<lparr>switch_parked := False\<rparr>) s, Install old (Some n))"
| "cpu_step c a (Install old nxt) s = Some (install c nxt s, Publish old nxt)"
| "cpu_step c a (Publish old nxt) s = (case old of
     None \<Rightarrow> Some (s, Switch old nxt)
   | Some t \<Rightarrow> if must_publish c old s
       then Some (upd_tcb t (\<lambda>x. x\<lparr>switch_parked := False\<rparr>) s, PublishClaim t nxt)
       else Some (s, Switch old nxt))"
| "cpu_step c a (PublishClaim t nxt) s = (case claim t s of (won, s) \<Rightarrow>
     Some (s, if won then PublishPush t nxt else Switch (Some t) nxt))"
| "cpu_step c a (PublishPush t nxt) s =
     map_option (\<lambda>s. (s, Switch (Some t) nxt)) (push_to a t s)"
| "cpu_step c a (Switch old nxt) s = Some (switch_away old nxt s, Thread)"
| "cpu_step c a (WakeStore t) s = Some (set_state t THREAD_READY s, WakeClaim t)"
| "cpu_step c a (WakeClaim t) s = (case claim t s of (won, s) \<Rightarrow>
     Some (s, if won then WakePush t else Thread))"
| "cpu_step c a (WakePush t) s = map_option (\<lambda>s. (s, Thread)) (push_to a t s)"

definition smp_step :: "nat \<Rightarrow> act \<Rightarrow> conf \<Rightarrow> conf option" where
  "smp_step c a cf = (case cf of (s, p) \<Rightarrow>
     map_option (\<lambda>(s', q). (s', p(c := q))) (cpu_step c a (p c) s))"

inductive smp_reach :: "conf \<Rightarrow> conf \<Rightarrow> bool" for c0 where
  start: "smp_reach c0 c0"
| step: "smp_reach c0 cf \<Longrightarrow> smp_step c a cf = Some cf' \<Longrightarrow> smp_reach c0 cf'"

section \<open>The queue-membership claim\<close>

text \<open>The claims that are held outside the queues: between the dequeue and the release of the bit,
  and between winning the bit and the enqueue.\<close>

fun holds :: "pc \<Rightarrow> nat \<Rightarrow> bool" where
  "holds (Claimed old t) x = (x = t)"
| "holds (PublishPush t nxt) x = (x = t)"
| "holds (WakePush t) x = (x = t)"
| "holds _ x = False"

definition claims_ok :: "(nat \<Rightarrow> nat list) \<Rightarrow> conf \<Rightarrow> bool" where
  "claims_ok Q cf = (case cf of (s, p) \<Rightarrow> rqs s Q \<and>
     (\<forall>t. on_queue (tcbs s t) \<longleftrightarrow> t \<in> queued Q \<or> (\<exists>c. holds (p c) t)) \<and>
     (\<forall>c t. holds (p c) t \<longrightarrow> t \<notin> queued Q) \<and>
     (\<forall>c d t. holds (p c) t \<longrightarrow> holds (p d) t \<longrightarrow> c = d))"


lemma claims_parts:
  assumes "claims_ok Q (s, p)"
  shows "rqs s Q" "on_queue (tcbs s t) \<longleftrightarrow> t \<in> queued Q \<or> (\<exists>c. holds (p c) t)"
    "holds (p c) t \<Longrightarrow> t \<notin> queued Q" "holds (p c) t \<Longrightarrow> holds (p d) t \<Longrightarrow> c = d"
  using assms by (auto simp: claims_ok_def)

definition same_queues :: "sched \<Rightarrow> sched \<Rightarrow> bool" where
  "same_queues s s' \<longleftrightarrow> (\<forall>x. t_next (tcbs s' x) = t_next (tcbs s x)) \<and>
     (\<forall>c. rq_head (cpus s' c) = rq_head (cpus s c) \<and> rq_tail (cpus s' c) = rq_tail (cpus s c) \<and>
       rq_len (cpus s' c) = rq_len (cpus s c))"

lemma same_queues_rqs: "rqs s Q \<Longrightarrow> same_queues s s' \<Longrightarrow> rqs s' Q"
  by (rule rqs_cong) (auto simp: same_queues_def)

text \<open>A step that changes neither a queue nor a claim.\<close>

lemma claims_neutral:
  assumes "claims_ok Q (s, p)" "same_queues s s'"
    "\<And>x. on_queue (tcbs s' x) = on_queue (tcbs s x)" "\<And>x. holds q x = holds (p c) x"
  shows "claims_ok Q (s', p(c := q))"
proof -
  have "holds ((p(c := q)) d) x = holds (p d) x" for d x by (simp add: assms(4))
  then show ?thesis
    using assms(1,3) same_queues_rqs [OF claims_parts(1) [OF assms(1)] assms(2)]
    by (simp add: claims_ok_def)
qed

text \<open>Claims after one processor has moved to \<open>q\<close>.\<close>

lemma claims_okI:
  assumes "rqs s Q"
    "\<And>t. on_queue (tcbs s t) \<longleftrightarrow> t \<in> queued Q \<or> holds q t \<or> (\<exists>d. d \<noteq> c \<and> holds (p d) t)"
    "\<And>t. holds q t \<Longrightarrow> t \<notin> queued Q \<and> (\<forall>d. d \<noteq> c \<longrightarrow> \<not> holds (p d) t)"
    "\<And>d t. d \<noteq> c \<Longrightarrow> holds (p d) t \<Longrightarrow> t \<notin> queued Q"
    "\<And>d e t. holds (p d) t \<Longrightarrow> holds (p e) t \<Longrightarrow> d = e"
  shows "claims_ok Q (s, p(c := q))"
proof -
  have ex: "(\<exists>d. holds ((p(c := q)) d) t) \<longleftrightarrow> holds q t \<or> (\<exists>d. d \<noteq> c \<and> holds (p d) t)" for t
    by (metis fun_upd_apply)
  have eq: "d = e" if "holds ((p(c := q)) d) t" "holds ((p(c := q)) e) t" for d e t
    using that assms(3) [of t] assms(5) [of d t e] by (metis fun_upd_apply)
  have fresh: "t \<notin> queued Q" if "holds ((p(c := q)) d) t" for d t
    using that assms(3) [of t] assms(4) [of d t] by (metis fun_upd_apply)
  show ?thesis unfolding claims_ok_def prod.case ex using assms(1,2) eq fresh by blast
qed

lemma claims_push:
  assumes "claims_ok Q (s, p)" "\<And>x. holds (p c) x \<longleftrightarrow> x = t" "\<And>x. \<not> holds q x"
  shows "claims_ok (Q(d := Q d @ [t])) (rq_push d t s, p(c := q))"
proof -
  note P = claims_parts [OF assms(1)]
  have t: "holds (p c) t" by (simp add: assms(2))
  have q: "queued (Q(d := Q d @ [t])) = insert t (queued Q)" by (auto simp: queued_def split: if_splits)
  show ?thesis
  proof (rule claims_okI)
    show "rqs (rq_push d t s) (Q(d := Q d @ [t]))"
      using P(1) P(3) [OF t] by (rule rq_push_rqs)
    show "on_queue (tcbs (rq_push d t s) x) \<longleftrightarrow>
        x \<in> queued (Q(d := Q d @ [t])) \<or> holds q x \<or> (\<exists>e. e \<noteq> c \<and> holds (p e) x)" for x
      using P(2) [of x] assms(2) [of x] assms(3) [of x] unfolding q rq_push_fields by (metis insert_iff)
    show "x \<notin> queued (Q(d := Q d @ [t]))" if "e \<noteq> c" "holds (p e) x" for e x
      using P(3) [OF that(2)] P(4) [OF that(2), of c] t that(1) unfolding q by blast
  qed (use assms(3) P(4) in blast)+
qed

lemma claims_pop:
  assumes "claims_ok Q (s, p)" "rq_pop v s = (Some t, s')" "\<And>x. \<not> holds (p c) x"
    "\<And>x. holds q x \<longleftrightarrow> x = t"
  shows "\<exists>Q'. claims_ok Q' (s', p(c := q))"
proof -
  note P = claims_parts [OF assms(1)]
  obtain xs where Q: "Q v = t # xs"
    using rq_pop_empty [OF P(1), of v] rq_pop_rqs(1) [OF P(1), of v] assms(2) by (cases "Q v") auto
  have q: "queued Q = insert t (queued (Q(v := xs)))" "t \<notin> queued (Q(v := xs))"
    using Q rqs_distinct [OF P(1), of v] rqs_disjoint [OF P(1), of t v]
    by (auto simp: queued_upd queued_split [of Q v])
  have "claims_ok (Q(v := xs)) (s', p(c := q))"
  proof (rule claims_okI)
    show "rqs s' (Q(v := xs))" using rq_pop_rqs(2) [OF P(1) Q] assms(2) by simp
    have "on_queue (tcbs s' x) = on_queue (tcbs s x)" for x
      using rq_pop_fields(1) [of v s x] assms(2) by simp
    then show "on_queue (tcbs s' x) \<longleftrightarrow>
        x \<in> queued (Q(v := xs)) \<or> holds q x \<or> (\<exists>e. e \<noteq> c \<and> holds (p e) x)" for x
      using P(2) [of x] assms(3) [of x] assms(4) [of x] q(1) by (metis insert_iff)
    show "x \<notin> queued (Q(v := xs)) \<and> (\<forall>e. e \<noteq> c \<longrightarrow> \<not> holds (p e) x)" if "holds q x" for x
      using that assms(4) [of x] q P(3) [of _ t] by (metis insertI1)
    show "x \<notin> queued (Q(v := xs))" if "e \<noteq> c" "holds (p e) x" for e x
      using P(3) [OF that(2)] q by blast
  qed (use P(4) in blast)
  then show ?thesis by blast
qed

lemma claims_release:
  assumes "claims_ok Q (s, p)" "\<And>x. holds (p c) x \<longleftrightarrow> x = t" "\<And>x. \<not> holds q x"
  shows "claims_ok Q (release_claim t s, p(c := q))"
proof -
  note P = claims_parts [OF assms(1)]
  have t: "holds (p c) t" by (simp add: assms(2))
  show ?thesis
  proof (rule claims_okI)
    have "same_queues s (release_claim t s)" by (simp add: same_queues_def release_claim_def)
    then show "rqs (release_claim t s) Q" by (rule same_queues_rqs [OF P(1)])
    have on: "on_queue (tcbs (release_claim t s) x) \<longleftrightarrow> x \<noteq> t \<and> on_queue (tcbs s x)" for x
      by (simp add: release_claim_def)
    show "on_queue (tcbs (release_claim t s) x) \<longleftrightarrow>
        x \<in> queued Q \<or> holds q x \<or> (\<exists>e. e \<noteq> c \<and> holds (p e) x)" for x
      using P(2) [of x] P(3) [OF t] P(4) [OF t] assms(2) [of x] assms(3) [of x] unfolding on by metis
  qed (use assms(3) P(3,4) in blast)+
qed

lemma claims_claim:
  assumes "claims_ok Q (s, p)" "claim t s = (won, s')" "\<And>x. \<not> holds (p c) x"
    "\<And>x. holds q x \<longleftrightarrow> won \<and> x = t"
  shows "claims_ok Q (s', p(c := q))"
proof -
  note P = claims_parts [OF assms(1)]
  have s': "s' = upd_tcb t (\<lambda>x. x\<lparr>on_queue := True\<rparr>) s" and won: "won \<longleftrightarrow> \<not> on_queue (tcbs s t)"
    using assms(2) by (auto simp: claim_def)
  show ?thesis
  proof (rule claims_okI)
    have "same_queues s s'" by (simp add: same_queues_def s')
    then show "rqs s' Q" by (rule same_queues_rqs [OF P(1)])
    have on: "on_queue (tcbs s' x) \<longleftrightarrow> x = t \<or> on_queue (tcbs s x)" for x
      by (simp add: s')
    show "on_queue (tcbs s' x) \<longleftrightarrow>
        x \<in> queued Q \<or> holds q x \<or> (\<exists>e. e \<noteq> c \<and> holds (p e) x)" for x
      using P(2) [of x] P(2) [of t] assms(3) [of x] assms(4) [of x] won unfolding on by metis
    show "x \<notin> queued Q \<and> (\<forall>e. e \<noteq> c \<longrightarrow> \<not> holds (p e) x)" if "holds q x" for x
      using that assms(4) [of x] won P(2) [of t] by metis
  qed (use P(3,4) in blast)+
qed

lemma install_queues:
  "same_queues s (install c nxt s)" "on_queue (tcbs (install c nxt s) x) = on_queue (tcbs s x)"
  by (auto simp: same_queues_def install_def paging_switch_to_def Let_def split: option.splits)


lemma switch_queues:
  "same_queues s (switch_away old nxt s)"
  "on_queue (tcbs (switch_away old nxt s) x) = on_queue (tcbs s x)"
  by (auto simp: same_queues_def switch_away_def context_switch_def split: option.splits)

lemma claims_steal:
  assumes "claims_ok Q (s, p)" "\<And>x. \<not> holds (p c) x" "steal_step c old i s = (s', q)"
  shows "\<exists>Q'. claims_ok Q' (s', p(c := q))"
proof (cases "i < cpus_online s \<and> rq_len (cpus s ((c + i) mod cpus_online s)) \<noteq> 0")
  case True
  let ?v = "(c + i) mod cpus_online s"
  note P = claims_parts [OF assms(1)]
  show ?thesis
  proof (cases "rq_pop ?v s")
    case (Pair r s1)
    show ?thesis
    proof (cases r)
      case None
      then have "s1 = s" using Pair by (auto simp: rq_pop_def Let_def split: option.splits)
      then have "s' = s" "\<not> holds q x" for x using assms(3) True Pair None by (auto simp: steal_step_def Let_def)
      then show ?thesis using claims_neutral [OF assms(1), of s q c] assms(2)
        by (auto simp: same_queues_def)
    next
      case (Some t)
      let ?p = "p(c := Claimed old t)"
      obtain Q' where Q': "claims_ok Q' (s1, ?p)"
        using claims_pop [OF assms(1) Pair [unfolded Some] assms(2), where q = "Claimed old t"] by auto
      have q: "q = Spin old (Some t)" and s': "s' = upd_cpu c (\<lambda>q. q\<lparr>steal_count := add64 (steal_count q) 1\<rparr>)
          (release_claim t s1)"
        using assms(3) True Pair Some by (auto simp: steal_step_def Let_def)
      have "claims_ok Q' (release_claim t s1, ?p(c := q))"
        by (rule claims_release [OF Q']) (simp_all add: q)
      then have "claims_ok Q' (s', ?p(c := q, c := q))"
        by (rule claims_neutral) (simp_all add: s' same_queues_def)
      then show ?thesis by auto
    qed
  qed
next
  case False
  then have "s' = s" "\<not> holds q x" for x using assms(3) by (auto simp: steal_step_def Let_def split: if_splits)
  then show ?thesis using claims_neutral [OF assms(1), of s q c] assms(2)
    by (auto simp: same_queues_def)
qed


lemma claims_run:
  assumes "claims_ok Q (s, p)" "p c = Thread" "run_act c a s = Some (s', q)"
  shows "claims_ok Q (s', p(c := q))"
  using assms(2,3) by (intro claims_neutral [OF assms(1)])
    (auto simp: run_act_def set_state_def same_queues_def split: act.splits option.splits if_splits)

lemma claims_push_to:
  assumes "claims_ok Q (s, p)" "\<And>x. holds (p c) x \<longleftrightarrow> x = t" "\<And>x. \<not> holds q x"
    "push_to a t s = Some s'"
  shows "\<exists>Q'. claims_ok Q' (s', p(c := q))"
proof -
  obtain d where "s' = rq_push d t s"
    using assms(4) by (auto simp: push_to_def split: act.splits if_splits)
  then show ?thesis using claims_push [OF assms(1-3)] by blast
qed

lemma claims_step:
  assumes "claims_ok Q (s, p)" "cpu_step c a (p c) s = Some (s', q)"
  shows "\<exists>Q'. claims_ok Q' (s', p(c := q))"
proof -
  have quiet: ?thesis if "same_queues s s'" "\<And>x. on_queue (tcbs s' x) = on_queue (tcbs s x)"
      "\<And>x. holds q x = holds (p c) x"
    using claims_neutral [OF assms(1) that] by blast
  show ?thesis
  proof (cases "p c")
    case Thread
    then show ?thesis using claims_run [OF assms(1), of c a s' q] assms(2) by auto
  next
    case (Pick old)
    show ?thesis
    proof (cases "rq_pop c s")
      case (Pair r s1)
      show ?thesis
      proof (cases r)
        case None
        then have "s1 = s" using Pair by (auto simp: rq_pop_def Let_def split: option.splits)
        then have "s' = s" "q = Steal old 1" using assms(2) Pick Pair None by auto
        then show ?thesis using claims_neutral [OF assms(1), of s q c] Pick by (auto simp: same_queues_def)
      next
        case (Some t)
        then have "s' = s1" "q = Claimed old t" using assms(2) Pick Pair by auto
        then show ?thesis using claims_pop [OF assms(1) Pair [unfolded Some], of c q] Pick by auto
      qed
    qed
  next
    case (Claimed old t)
    then show ?thesis using claims_release [OF assms(1), of c t q] assms(2) by auto
  next
    case (Steal old i)
    then show ?thesis using claims_steal [OF assms(1), of c old i s' q] assms(2) by auto
  next
    case (PublishClaim t nxt)
    obtain won s1 where "claim t s = (won, s1)" by (cases "claim t s")
    then show ?thesis using claims_claim [OF assms(1), of t won s1 c q] assms(2) PublishClaim
      by (auto split: if_splits)
  next
    case (WakeClaim t)
    obtain won s1 where "claim t s = (won, s1)" by (cases "claim t s")
    then show ?thesis using claims_claim [OF assms(1), of t won s1 c q] assms(2) WakeClaim
      by (auto split: if_splits)
  next
    case (PublishPush t nxt)
    then show ?thesis using claims_push_to [OF assms(1), of c t q a s'] assms(2) by auto
  next
    case (WakePush t)
    then show ?thesis using claims_push_to [OF assms(1), of c t q a s'] assms(2) by auto
  next
    case (Install old nxt)
    then show ?thesis using assms(2) install_queues by (intro quiet) auto
  next
    case (Switch old nxt)
    then show ?thesis using assms(2) switch_queues by (intro quiet) auto
  next
    case (Spin old nxt)
    then have "\<not> holds (p c) x" for x by simp
    moreover have "s' = s" "\<not> holds q x" for x
      using assms(2) [unfolded Spin] by (auto split: option.splits if_splits)
    ultimately show ?thesis by (intro quiet) (auto simp: same_queues_def)
  next
    case (Enter old n)
    then have "\<not> holds (p c) x" "\<not> holds q x" for x
      using assms(2) by (auto split: option.splits if_splits)
    then show ?thesis using assms(2) Enter
      by (intro quiet) (auto simp: same_queues_def set_state_def split: option.splits if_splits)
  next
    case (Publish old nxt)
    then have "\<not> holds (p c) x" "\<not> holds q x" for x
      using assms(2) by (auto split: option.splits if_splits)
    then show ?thesis using assms(2) Publish
      by (intro quiet) (auto simp: same_queues_def set_state_def split: option.splits if_splits)
  next
    case (WakeStore t)
    then have "\<not> holds (p c) x" "\<not> holds q x" for x
      using assms(2) by (auto split: option.splits if_splits)
    then show ?thesis using assms(2) WakeStore
      by (intro quiet) (auto simp: same_queues_def set_state_def split: option.splits if_splits)
  qed
qed

lemma claims_reach:
  assumes "smp_reach c0 cf" "claims_ok Q c0"
  shows "\<exists>Q'. claims_ok Q' cf"
  using assms
proof (induction rule: smp_reach.induct)
  case (step cf c a cf')
  then obtain Q' where Q': "claims_ok Q' cf" by blast
  obtain s p where "cf = (s, p)" by (cases cf)
  then show ?case using Q' step.hyps(2) claims_step [of Q' s p c a]
    by (auto simp: smp_step_def)
qed blast

section \<open>What the claim guarantees\<close>

text \<open>C36: under every interleaving of the processors, no thread is ever in two places of the run
  queues and no queue is torn: the pointers always spell one list per processor, these lists are
  disjoint and without repetition, and the queue-membership bit of a thread is set exactly while
  the thread is in a queue or while exactly one processor is between winning the bit and the
  enqueue, or between the dequeue and clearing the bit.
\<close>

theorem smp_queues_never_torn:
  assumes "smp_reach (s0, \<lambda>_. Thread) (s, p)" "rqs s0 Q0"
    "\<And>t. on_queue (tcbs s0 t) \<longleftrightarrow> t \<in> queued Q0"
  shows "\<exists>Q. rqs s Q \<and>
    (\<forall>t. on_queue (tcbs s t) \<longleftrightarrow> t \<in> queued Q \<or> (\<exists>c. holds (p c) t)) \<and>
    (\<forall>c t. holds (p c) t \<longrightarrow> t \<notin> queued Q \<and> (\<forall>d. holds (p d) t \<longrightarrow> d = c))"
proof -
  have "claims_ok Q0 (s0, \<lambda>_. Thread)" using assms(2,3) by (simp add: claims_ok_def)
  from claims_reach [OF assms(1) this] show ?thesis by (auto simp: claims_ok_def)
qed


section \<open>What the claim does not guarantee\<close>

fun smp_run :: "(nat \<times> act) list \<Rightarrow> conf \<Rightarrow> conf option" where
  "smp_run [] cf = Some cf"
| "smp_run ((c, a) # w) cf = (case smp_step c a cf of None \<Rightarrow> None | Some cf' \<Rightarrow> smp_run w cf')"

lemma smp_run_reach: "smp_reach c0 cf \<Longrightarrow> smp_run w cf = Some cf' \<Longrightarrow> smp_reach c0 cf'"
proof (induction w arbitrary: cf)
  case (Cons x w)
  obtain c a where x: "x = (c, a)" by (cases x)
  then obtain cf1 where "smp_step c a cf = Some cf1" "smp_run w cf1 = Some cf'"
    using Cons.prems(2) by (auto split: option.splits)
  then show ?case using Cons.IH [of cf1] Cons.prems(1) smp_reach.step by blast
qed simp

text \<open>Three processors: thread \<open>10\<close> runs on processor \<open>0\<close>, the other two are idle.\<close>

definition demo_tcb :: "bool \<Rightarrow> tcb" where
  "demo_tcb parked = \<lparr>t_state = THREAD_RUNNING, t_next = None, quantum = 5, kernel_stack = 0,
     pml4_phys = 0, is_pthread = False, waited = False, sleep_deadline = 0,
     switch_parked = parked, on_queue = False\<rparr>"

definition demo_cpu :: "nat \<Rightarrow> nat \<Rightarrow> cpu_local" where
  "demo_cpu cur idl = \<lparr>current = Some cur, idle = Some idl, rq_head = None, rq_tail = None,
     rq_len = 0, steal_count = 0, rsp0 = 0, syscall_kernel_rsp = 0, cr3 = 0\<rparr>"

definition demo_smp :: sched where
  "demo_smp = \<lparr>tcbs = (\<lambda>_. demo_tcb True)(10 := demo_tcb False, 1 := demo_tcb False, 2 := demo_tcb False),
     cpus = (\<lambda>c. demo_cpu c c)(0 := demo_cpu 10 0), cpus_online = 3, zombies = [],
     kernel_pml4 = 0, cpu_local_ready = True, scheduler_ready = True\<rparr>"

definition torn_trace :: "(nat \<times> act) list" where
  "torn_trace =
    [(0, Block), (2, Wake 10), (2, Go), (2, Go), (2, Target 0)]
    @ [(1, Go), (1, Go), (1, Go), (1, Go)]
    @ [(0, Go), (0, Go), (0, Go), (0, Go), (0, Go), (0, Go), (0, Go), (0, Go), (0, Go), (0, Go), (0, Target 0)]
    @ [(2, Go), (2, Go), (2, Go)]
    @ [(0, Go), (1, Go), (2, Go)]
    @ [(1, Go), (1, Go), (1, Go), (1, Go)]
    @ [(2, Go), (2, Go), (2, Go), (2, Go)]"

lemmas smp_eval = smp_step_def run_act_def push_to_def steal_step_def claim_def release_claim_def
  rq_push_def rq_pop_def install_def must_publish_def switch_away_def context_switch_def
  set_state_def upd_tcb_def upd_cpu_def paging_switch_to_def demo_tcb_def demo_cpu_def Let_def
  add32_def sub32_def add64_def

lemma torn_trace_run:
  "\<exists>s p. smp_run torn_trace (demo_smp, \<lambda>_. Thread) = Some (s, p) \<and> p 1 = Thread \<and> p 2 = Thread \<and>
     current (cpus s 1) = Some 10 \<and> current (cpus s 2) = Some 10"
  unfolding torn_trace_def demo_smp_def
  by (simp add: smp_eval)

text \<open>C37: the claim does not keep a thread off two processors.  Thread \<open>10\<close> blocks on processor \<open>0\<close>;
  processor \<open>2\<close> wakes it before it has switched away; idle processor \<open>1\<close> dequeues it, which clears
  the claim, and waits for the parking flag.  Thread \<open>10\<close> now enters \<open>schedule\<close>, finds itself ready
  and the claim free, and is enqueued again; processor \<open>2\<close> dequeues that entry.  When the frame is
  saved both processors see the flag set, both clear it, and both run thread \<open>10\<close>.
\<close>

theorem smp_thread_on_two_cpus:
  "\<exists>s p. smp_reach (demo_smp, \<lambda>_. Thread) (s, p) \<and> p 1 = Thread \<and> p 2 = Thread \<and>
     current (cpus s 1) = Some 10 \<and> current (cpus s 2) = Some 10"
proof -
  obtain s p where "smp_run torn_trace (demo_smp, \<lambda>_. Thread) = Some (s, p)" "p 1 = Thread" "p 2 = Thread"
    "current (cpus s 1) = Some 10" "current (cpus s 2) = Some 10"
    using torn_trace_run by blast
  moreover from this have "smp_reach (demo_smp, \<lambda>_. Thread) (s, p)"
    by (intro smp_run_reach [OF smp_reach.start])
  ultimately show ?thesis by auto
qed

text \<open>Thread \<open>10\<close> blocks and is woken: the invariant of the claims at a concrete state.\<close>

lemma demo_smp_queues: "rqs demo_smp (\<lambda>_. [])" "on_queue (tcbs demo_smp t) \<longleftrightarrow> t \<in> queued (\<lambda>_. [])"
  by (auto simp: rqs_def rq_rep_def demo_smp_def demo_cpu_def demo_tcb_def queued_def)

theorem smp_queues_never_torn_witness:
  "\<exists>s p. smp_run [(0, Block), (2, Wake 10), (2, Go), (2, Go), (2, Target 0)] (demo_smp, \<lambda>_. Thread) =
      Some (s, p) \<and> on_queue (tcbs s 10) \<and> (\<exists>Q. rqs s Q \<and> 10 \<in> queued Q)"
proof -
  obtain s p where run: "smp_run [(0, Block), (2, Wake 10), (2, Go), (2, Go), (2, Target 0)]
      (demo_smp, \<lambda>_. Thread) = Some (s, p)" "on_queue (tcbs s 10)" "\<forall>c. \<not> holds (p c) 10"
    unfolding demo_smp_def by (simp add: smp_eval)
  from smp_queues_never_torn [OF smp_run_reach [OF smp_reach.start run(1)] demo_smp_queues]
  obtain Q where "rqs s Q" "10 \<in> queued Q" using run(2,3) by auto
  then show ?thesis using run by blast
qed

end
