(* ===== verification/Sched_Props.thy ===== *)
theory Sched_Props
  imports Sched
begin

text \<open>
  Properties of the scheduler on one processor: reaping does not touch the live threads, a yield
  rotates the run queue, and therefore every ready thread is dispatched again after at most as
  many yields as there are threads.  The accounting of the timer tick stays within its range.
\<close>

section \<open>Frames\<close>

lemma reap_one_fields:
  "x \<noteq> z \<Longrightarrow> tcbs (reap_one me z s) x = tcbs s x"
  "current (cpus (reap_one me z s) c) = current (cpus s c)"
  "idle (cpus (reap_one me z s) c) = idle (cpus s c)"
  "rq_head (cpus (reap_one me z s) c) = rq_head (cpus s c)"
  "rq_tail (cpus (reap_one me z s) c) = rq_tail (cpus s c)"
  "rq_len (cpus (reap_one me z s) c) = rq_len (cpus s c)"
  "cpus_online (reap_one me z s) = cpus_online s" "zombies (reap_one me z s) = zombies s"
  "cpu_local_ready (reap_one me z s) = cpu_local_ready s"
  by (auto simp: reap_one_def paging_switch_to_def Let_def)

lemma reap_fold:
  "(x \<notin> set zs \<longrightarrow> tcbs (fold (reap_one me) zs s) x = tcbs s x) \<and>
   current (cpus (fold (reap_one me) zs s) c) = current (cpus s c) \<and>
   idle (cpus (fold (reap_one me) zs s) c) = idle (cpus s c) \<and>
   rq_head (cpus (fold (reap_one me) zs s) c) = rq_head (cpus s c) \<and>
   rq_tail (cpus (fold (reap_one me) zs s) c) = rq_tail (cpus s c) \<and>
   rq_len (cpus (fold (reap_one me) zs s) c) = rq_len (cpus s c) \<and>
   cpus_online (fold (reap_one me) zs s) = cpus_online s \<and>
   zombies (fold (reap_one me) zs s) = zombies s \<and>
   cpu_local_ready (fold (reap_one me) zs s) = cpu_local_ready s"
  by (induction zs arbitrary: s) (simp_all add: reap_one_fields)

lemma reap_fields:
  "x \<notin> set (zombies s) \<Longrightarrow> tcbs (thread_reap_zombies me s) x = tcbs s x"
  "current (cpus (thread_reap_zombies me s) c) = current (cpus s c)"
  "idle (cpus (thread_reap_zombies me s) c) = idle (cpus s c)"
  "rq_head (cpus (thread_reap_zombies me s) c) = rq_head (cpus s c)"
  "rq_tail (cpus (thread_reap_zombies me s) c) = rq_tail (cpus s c)"
  "rq_len (cpus (thread_reap_zombies me s) c) = rq_len (cpus s c)"
  "cpus_online (thread_reap_zombies me s) = cpus_online s"
  "set (zombies (thread_reap_zombies me s)) \<subseteq> set (zombies s)"
  "cpu_local_ready (thread_reap_zombies me s) = cpu_local_ready s"
  using reap_fold [of x "rev (filter (reapable me s) (zombies s))" me
      "s\<lparr>zombies := filter (\<lambda>z. \<not> reapable me s z) (zombies s)\<rparr>" c]
  by (auto simp: thread_reap_zombies_def)

lemma install_fields:
  "current (cpus (install me nxt s) c) = (if c = me then nxt else current (cpus s c))"
  "idle (cpus (install me nxt s) c) = idle (cpus s c)"
  "rq_head (cpus (install me nxt s) c) = rq_head (cpus s c)"
  "rq_tail (cpus (install me nxt s) c) = rq_tail (cpus s c)"
  "rq_len (cpus (install me nxt s) c) = rq_len (cpus s c)"
  "t_next (tcbs (install me nxt s) x) = t_next (tcbs s x)"
  "on_queue (tcbs (install me nxt s) x) = on_queue (tcbs s x)"
  "switch_parked (tcbs (install me nxt s) x) = switch_parked (tcbs s x)"
  "t_state (tcbs (install me nxt s) x) = (if nxt = Some x then THREAD_RUNNING else t_state (tcbs s x))"
  "cpus_online (install me nxt s) = cpus_online s" "zombies (install me nxt s) = zombies s"
  "cpu_local_ready (install me nxt s) = cpu_local_ready s"
  by (auto simp: install_def paging_switch_to_def Let_def split: option.splits)

lemma rq_local_ready: "cpu_local_ready (rq_push c t s) = cpu_local_ready s"
  "cpu_local_ready (snd (rq_pop c s)) = cpu_local_ready s"
  by (auto simp: rq_push_def rq_pop_def Let_def split: option.splits)

section \<open>Rotation\<close>

text \<open>One processor whose queue holds the ready threads \<open>xs\<close> while \<open>c\<close> runs.\<close>

definition one_queue :: "nat list \<Rightarrow> nat \<Rightarrow> nat list" where
  "one_queue xs = (\<lambda>_. [])(0 := xs)"

definition ready_ring :: "sched \<Rightarrow> nat \<Rightarrow> nat list \<Rightarrow> bool" where
  "ready_ring s c xs \<longleftrightarrow> cpu_local_ready s \<and> cpus_online s = 1 \<and> rqs s (one_queue xs) \<and>
     current (cpus s 0) = Some c \<and> idle (cpus s 0) \<noteq> Some c \<and> c \<notin> set xs \<and>
     idle (cpus s 0) \<notin> Some ` set xs \<and> \<not> on_queue (tcbs s c) \<and>
     (\<forall>x\<in>set xs. switch_parked (tcbs s x) \<and> on_queue (tcbs s x)) \<and>
     set (zombies s) \<inter> set (c # xs) = {}"

lemma queued_one [simp]: "queued (one_queue xs) = set xs"
  by (auto simp: queued_def one_queue_def)

lemma one_queue_upd: "(one_queue xs)(0 := ys) = one_queue ys" "one_queue xs 0 = xs"
  by (auto simp: one_queue_def)

text \<open>Up to the publication of the outgoing thread: the head of the queue is installed.\<close>

lemma schedule_ring_pick:
  assumes "ready_ring s c (x # xs)"
  obtains s3 where "schedule 0 s = Some (switch_away (Some c) (Some x) (publish 0 (Some c) s3))"
    "ready_ring s3 x xs" "t_state (tcbs s3 c) = t_state (tcbs s c)" "\<not> on_queue (tcbs s3 c)"
    "idle (cpus s3 0) \<noteq> Some c" "c \<notin> set (zombies s3)" "c \<notin> set (x # xs)"
    "t_state (tcbs s3 x) = THREAD_RUNNING"
proof
  note R = assms [unfolded ready_ring_def]
  let ?Q = "one_queue (x # xs)"
  have rq: "rqs s ?Q" and Q0: "?Q 0 = x # xs" using R by (auto simp: one_queue_def)
  define s1 where "s1 = snd (rq_pop 0 s)"
  have pop: "rq_pop 0 s = (Some x, s1)"
    using rq_pop_rqs(1) [OF rq Q0] by (simp add: s1_def prod_eq_iff)
  have q1: "rqs s1 (one_queue xs)" using rq_pop_rqs(2) [OF rq Q0] by (simp add: s1_def one_queue_upd)
  note f1 = rq_pop_fields [of 0 s, folded s1_def] rq_local_ready(2) [of 0 s, folded s1_def]
  define s2 where "s2 = upd_tcb x (\<lambda>t. t\<lparr>switch_parked := False\<rparr>) (release_claim x s1)"
  let ?s3 = "install 0 (Some x) s2"
  have xc: "x \<noteq> c" using R by auto
  show "schedule 0 s = Some (switch_away (Some c) (Some x) (publish 0 (Some c) ?s3))"
    using R pop xc f1 by (simp add: schedule_def pick_next_def pick_own_def wait_parked_def
        Let_def s2_def release_claim_def)
  have on3: "on_queue (tcbs ?s3 t) \<longleftrightarrow> t \<noteq> x \<and> on_queue (tcbs s t)" for t
    using f1 by (simp add: install_fields s2_def release_claim_def)
  have pk3: "switch_parked (tcbs ?s3 t) \<longleftrightarrow> t \<noteq> x \<and> switch_parked (tcbs s t)" for t
    using f1 by (simp add: install_fields s2_def release_claim_def)
  show "t_state (tcbs ?s3 c) = t_state (tcbs s c)"
    using f1 xc by (simp add: install_fields s2_def release_claim_def)
  have misc: "cpu_local_ready ?s3" "cpus_online ?s3 = 1" "current (cpus ?s3 0) = Some x"
    "idle (cpus ?s3 0) = idle (cpus s 0)" "zombies ?s3 = zombies s"
    using f1 R by (simp_all add: install_fields s2_def release_claim_def)
  have "rqs ?s3 (one_queue xs)"
    by (rule rqs_cong [OF q1]) (simp_all add: install_fields s2_def release_claim_def)
  moreover have "x \<notin> set xs" using rqs_distinct [OF rq, of 0] by (simp add: one_queue_def)
  ultimately show "ready_ring ?s3 x xs"
    using R misc on3 pk3 by (auto simp: ready_ring_def)
  show "\<not> on_queue (tcbs ?s3 c)" "idle (cpus ?s3 0) \<noteq> Some c" "c \<notin> set (zombies ?s3)"
    "c \<notin> set (x # xs)" "t_state (tcbs ?s3 x) = THREAD_RUNNING"
    using R misc on3 by (auto simp: install_fields)
qed

text \<open>A thread that is not ready leaves the processor and joins no queue.\<close>

lemma schedule_ring_drop:
  assumes "ready_ring s c (x # xs)" "t_state (tcbs s c) \<noteq> THREAD_READY"
  shows "\<exists>s'. schedule 0 s = Some s' \<and> ready_ring s' x xs \<and> \<not> on_queue (tcbs s' c) \<and>
    t_state (tcbs s' c) = t_state (tcbs s c) \<and> t_state (tcbs s' x) = THREAD_RUNNING"
proof -
  obtain s3 where s3: "schedule 0 s = Some (switch_away (Some c) (Some x) (publish 0 (Some c) s3))"
    "ready_ring s3 x xs" "t_state (tcbs s3 c) = t_state (tcbs s c)" "\<not> on_queue (tcbs s3 c)"
    "idle (cpus s3 0) \<noteq> Some c" "c \<notin> set (zombies s3)" "c \<notin> set (x # xs)"
    "t_state (tcbs s3 x) = THREAD_RUNNING"
    by (rule schedule_ring_pick [OF assms(1)])
  have q3: "rqs s3 (one_queue xs)" using s3(2) by (simp add: ready_ring_def)
  have "rqs (context_switch c s3) (one_queue xs)"
    by (rule rqs_cong [OF q3]) (simp_all add: context_switch_def)
  then have "ready_ring (context_switch c s3) x xs"
    using s3(2,7) by (simp add: ready_ring_def context_switch_def)
  moreover have "publish 0 (Some c) s3 = s3"
    using s3(3) assms(2) by (simp add: publish_def must_publish_def)
  then have "schedule 0 s = Some (context_switch c s3)" using s3(1,7) by (simp add: switch_away_def)
  moreover have "\<not> on_queue (tcbs (context_switch c s3) c)"
    "t_state (tcbs (context_switch c s3) c) = t_state (tcbs s c)"
    "t_state (tcbs (context_switch c s3) x) = THREAD_RUNNING"
    using s3(3,4,7,8) by (simp_all add: context_switch_def)
  ultimately show ?thesis by blast
qed

text \<open>A ready thread joins the tail.\<close>

lemma schedule_ring_rotate:
  assumes "ready_ring s c (x # xs)" "t_state (tcbs s c) = THREAD_READY"
  shows "\<exists>s'. schedule 0 s = Some s' \<and> ready_ring s' x (xs @ [c]) \<and>
    t_state (tcbs s' c) = THREAD_READY \<and> t_state (tcbs s' x) = THREAD_RUNNING"
proof -
  obtain s3 where s3: "schedule 0 s = Some (switch_away (Some c) (Some x) (publish 0 (Some c) s3))"
    "ready_ring s3 x xs" "t_state (tcbs s3 c) = t_state (tcbs s c)" "\<not> on_queue (tcbs s3 c)"
    "idle (cpus s3 0) \<noteq> Some c" "c \<notin> set (zombies s3)" "c \<notin> set (x # xs)"
    "t_state (tcbs s3 x) = THREAD_RUNNING"
    by (rule schedule_ring_pick [OF assms(1)])
  note R = s3(2) [unfolded ready_ring_def]
  define s4 where "s4 = upd_tcb c (\<lambda>t. t\<lparr>switch_parked := False, on_queue := True\<rparr>) s3"
  have q3: "rqs s3 (one_queue xs)" using R by simp
  have "rqs s4 (one_queue xs)"
    by (rule rqs_cong [OF q3]) (simp_all add: s4_def)
  from rq_push_rqs [OF this, of c 0] have q5: "rqs (rq_push 0 c s4) (one_queue (xs @ [c]))"
    using s3(7) by (simp add: one_queue_upd)
  have q6: "rqs (context_switch c (rq_push 0 c s4)) (one_queue (xs @ [c]))"
    by (rule rqs_cong [OF q5]) (auto simp: context_switch_def)
  have pub: "publish 0 (Some c) s3 = rq_push 0 c s4"
    using s3(3,4,5) R assms(2) by (simp add: publish_def must_publish_def claim_and_add_def
        claim_def sched_add_thread_def find_least_loaded_cpu_def s4_def upd_tcb_def)
  have "ready_ring (context_switch c (rq_push 0 c s4)) x (xs @ [c])"
    using q6 R s3(4-7) rq_local_ready(1) [of 0 c s4]
    by (auto simp: ready_ring_def context_switch_def rq_push_fields s4_def)
  moreover have "t_state (tcbs (context_switch c (rq_push 0 c s4)) c) = THREAD_READY"
    "t_state (tcbs (context_switch c (rq_push 0 c s4)) x) = THREAD_RUNNING"
    using s3(3,7,8) assms(2) by (simp_all add: context_switch_def rq_push_fields s4_def)
  ultimately show ?thesis using s3(1,7) pub by (simp add: switch_away_def)
qed

lemma ring_cong:
  assumes "ready_ring s c xs" "\<And>x. x \<in> set (c # xs) \<Longrightarrow> t_next (tcbs s' x) = t_next (tcbs s x) \<and>
      on_queue (tcbs s' x) = on_queue (tcbs s x) \<and> switch_parked (tcbs s' x) = switch_parked (tcbs s x)"
    "\<And>d. rq_head (cpus s' d) = rq_head (cpus s d) \<and> rq_tail (cpus s' d) = rq_tail (cpus s d) \<and>
      rq_len (cpus s' d) = rq_len (cpus s d) \<and> current (cpus s' d) = current (cpus s d) \<and>
      idle (cpus s' d) = idle (cpus s d)"
    "cpus_online s' = cpus_online s" "cpu_local_ready s' = cpu_local_ready s"
    "set (zombies s') \<subseteq> set (zombies s)"
  shows "ready_ring s' c xs"
proof -
  note R = assms(1) [unfolded ready_ring_def]
  have "rq_path (tcbs s') h (one_queue xs d) = rq_path (tcbs s) h (one_queue xs d)" for h d
    using assms(2) by (intro rq_path_cong) (auto simp: one_queue_def split: if_splits)
  then have "rqs s' (one_queue xs)" using R assms(3) by (simp add: rqs_def rq_rep_def)
  then show ?thesis using R assms(2-6) by (auto simp: ready_ring_def)
qed

lemma yield_ring:
  assumes "ready_ring s c (x # xs)"
  shows "\<exists>s'. sched_yield 0 s = Some s' \<and> ready_ring s' x (xs @ [c]) \<and>
    t_state (tcbs s' c) = THREAD_READY \<and> t_state (tcbs s' x) = THREAD_RUNNING"
proof -
  note R = assms [unfolded ready_ring_def]
  let ?s1 = "thread_reap_zombies 0 s"
  have "y \<notin> set (zombies s)" if "y \<in> set (c # x # xs)" for y using R that by blast
  then have r1: "ready_ring ?s1 c (x # xs)"
    by (intro ring_cong [OF assms]) (simp_all add: reap_fields)
  then have "ready_ring (set_state c THREAD_READY ?s1) c (x # xs)"
    by (rule ring_cong) (simp_all add: set_state_def)
  from schedule_ring_rotate [OF this] r1 show ?thesis
    by (auto simp: sched_yield_def ready_ring_def set_state_def Let_def)
qed


primrec yields :: "nat \<Rightarrow> sched \<Rightarrow> sched option" where
  "yields 0 s = Some s"
| "yields (Suc n) s = (case yields n s of None \<Rightarrow> None | Some s' \<Rightarrow> sched_yield 0 s')"

lemma yields_rotate:
  assumes "ready_ring s c xs" "xs \<noteq> []"
  shows "\<exists>s'. yields n s = Some s' \<and>
    ready_ring s' (hd (rotate n (c # xs))) (tl (rotate n (c # xs)))"
proof (induction n)
  case (Suc n)
  then obtain s' where s': "yields n s = Some s'"
    "ready_ring s' (hd (rotate n (c # xs))) (tl (rotate n (c # xs)))" by blast
  obtain d y ys where r: "rotate n (c # xs) = d # y # ys"
    using assms(2) by (metis length_rotate length_Cons list.exhaust list.size(3) nat.distinct(1) nat.inject)
  from yield_ring [of s' d y ys] s' r show ?case by auto
qed (use assms(1) in simp)

text \<open>C38: round robin.  On one processor whose queue holds the threads \<open>xs\<close>, the thread dispatched
  after \<open>n\<close> yields is the \<open>n\<close>-th of the cycle made of the running thread and the queue: the wait
  loop never blocks, no thread is lost, and each thread runs again after one full turn.
\<close>

theorem sched_yield_round_robin:
  assumes "ready_ring s c xs" "xs \<noteq> []"
  shows "\<exists>s'. yields n s = Some s' \<and>
    current (cpus s' 0) = Some ((c # xs) ! (n mod length (c # xs)))"
proof -
  obtain s' where "yields n s = Some s'"
    "ready_ring s' (hd (rotate n (c # xs))) (tl (rotate n (c # xs)))"
    using yields_rotate [OF assms] by blast
  then show ?thesis by (auto simp: ready_ring_def hd_rotate_conv_nth)
qed

text \<open>Thread \<open>1\<close> runs, threads \<open>2\<close> and \<open>3\<close> wait in this order, thread \<open>0\<close> is the idle thread.\<close>

definition ring_tcb :: "nat option \<Rightarrow> bool \<Rightarrow> bool \<Rightarrow> tcb" where
  "ring_tcb nx parked onq = \<lparr>t_state = THREAD_READY, t_next = nx, quantum = 1, kernel_stack = 0,
     pml4_phys = 0, is_pthread = False, waited = False, sleep_deadline = 0,
     switch_parked = parked, on_queue = onq\<rparr>"

definition ring_cpu :: cpu_local where
  "ring_cpu = \<lparr>current = Some 1, idle = Some 0, rq_head = None, rq_tail = None,
     rq_len = 0, steal_count = 0, rsp0 = 0, syscall_kernel_rsp = 0, cr3 = 0\<rparr>"

definition demo_ring :: sched where
  "demo_ring = \<lparr>tcbs = (\<lambda>_. ring_tcb None True False)(1 := ring_tcb None False False,
       2 := ring_tcb (Some 3) True True, 3 := ring_tcb None True True),
     cpus = (\<lambda>_. ring_cpu)(0 := ring_cpu\<lparr>rq_head := Some 2, rq_tail := Some 3, rq_len := 2\<rparr>),
     cpus_online = 1, zombies = [], kernel_pml4 = 0, cpu_local_ready = True, scheduler_ready = True\<rparr>"

lemma demo_ring_ok: "ready_ring demo_ring 1 [2, 3]"
  by (auto simp: ready_ring_def demo_ring_def ring_cpu_def ring_tcb_def rqs_def rq_rep_def one_queue_def)

theorem sched_yield_round_robin_witness:
  "\<exists>s'. yields 5 demo_ring = Some s' \<and> current (cpus s' 0) = Some 3"
  using sched_yield_round_robin [OF demo_ring_ok, of 5] by simp

section \<open>Load balancing and accounting\<close>

lemma least_fold_min:
  "snd b = rq_len (cpus s (fst b)) \<Longrightarrow>
   snd (fold (least_step s) is b) = rq_len (cpus s (fst (fold (least_step s) is b))) \<and>
   (\<forall>i\<in>insert (fst b) (set is). snd (fold (least_step s) is b) \<le> rq_len (cpus s i))"
proof (induction "is" arbitrary: b)
  case (Cons i "is")
  have "snd (least_step s i b) = rq_len (cpus s (fst (least_step s i b)))"
    "snd (least_step s i b) \<le> rq_len (cpus s i)" "snd (least_step s i b) \<le> snd b"
    using Cons.prems by (auto simp: least_step_def split: prod.splits)
  with Cons.IH [of "least_step s i b"] Cons.prems show ?case by (auto intro: order_trans)
qed simp

lemma busy_x100_bound: "busy_x100 dt di \<le> 10000"
proof -
  let ?d = "if di > dt then dt else di"
  consider "dt = 0" | "dt < 2 ^ 64" "dt \<noteq> 0" | "2 ^ 64 \<le> dt" by linarith
  then show ?thesis
  proof cases
    case 2
    then have "mul64 (sub64 dt ?d) 10000 \<le> (dt - ?d) * 10000"
      by (simp add: sub64_id mul64_def)
    also have "\<dots> \<le> dt * 10000" by simp
    finally have "mul64 (sub64 dt ?d) 10000 div dt \<le> (dt * 10000) div dt" by (rule div_le_mono)
    then have "mul64 (sub64 dt ?d) 10000 div dt \<le> 10000" using 2 by simp
    then show ?thesis using mod_less_eq_dividend order_trans
      by (fastforce simp: busy_x100_def Let_def)
  next
    case 3
    have "mul64 (sub64 dt ?d) 10000 < 2 ^ 64" by (simp add: mul64_def)
    then have "mul64 (sub64 dt ?d) 10000 div dt = 0" using 3 by simp
    then show ?thesis by (simp add: busy_x100_def Let_def)
  qed (simp add: busy_x100_def)
qed

end
