(* ===== verification/WaitQueue.thy ===== *)
theory WaitQueue
  imports Sched_Props
begin

text \<open>
  Wait queues (\<open>kernel/proc/wait_queue.c\<close>).  A queue is the list of its entries, newest first; an
  entry is a stack object of the waiting thread, here its address and the thread it names.  The
  wake-up of one thread is the code the wait queues, the futexes and the signal paths share.  The
  locale \<open>waiters\<close> is the contract of a bounded wake-up scan; the wait queue and the futex scans
  are instances of it.
\<close>

section \<open>Waking one thread\<close>

definition wake :: "nat \<Rightarrow> nat \<Rightarrow> sched \<Rightarrow> sched" where
  "wake me t s = claim_and_add me t (set_state t THREAD_READY s)"

definition blocked :: "sched \<Rightarrow> nat option \<Rightarrow> bool" where
  "blocked s t = (case t of None \<Rightarrow> False | Some t \<Rightarrow> t_state (tcbs s t) = THREAD_BLOCKED)"

lemma claim_and_add_state: "t_state (tcbs (claim_and_add me t s) x) = t_state (tcbs s x)"
  by (simp add: claim_and_add_def claim_def sched_add_thread_def rq_push_fields)

lemma wake_state: "t_state (tcbs (wake me t s) x) = (if x = t then THREAD_READY else t_state (tcbs s x))"
  by (simp add: wake_def claim_and_add_state set_state_def)

lemma wake_on_queue: "on_queue (tcbs (wake me t s) x) = (x = t \<or> on_queue (tcbs s x))"
  by (auto simp: wake_def claim_and_add_def claim_def sched_add_thread_def rq_push_fields set_state_def)

lemma wake_fold:
  "t_state (tcbs (fold (wake me) T s) t) = (if t \<in> set T then THREAD_READY else t_state (tcbs s t))"
  "on_queue (tcbs (fold (wake me) T s) t) = (t \<in> set T \<or> on_queue (tcbs s t))"
  by (induction T arbitrary: s) (auto simp: wake_state wake_on_queue)

text \<open>After the wake-up the thread is in exactly one run queue.\<close>

lemma wake_queued:
  assumes "rqs s Q" "on_queue (tcbs s t) \<longleftrightarrow> t \<in> queued Q"
  shows "\<exists>Q'. rqs (wake me t s) Q' \<and> queued Q' = insert t (queued Q)"
proof -
  let ?s = "upd_tcb t (\<lambda>x. x\<lparr>on_queue := True\<rparr>) (set_state t THREAD_READY s)"
  have q: "rqs ?s Q" by (rule rqs_cong [OF assms(1)]) (simp_all add: set_state_def)
  show ?thesis
  proof (cases "on_queue (tcbs s t)")
    case True
    then have "wake me t s = ?s" by (simp add: wake_def claim_and_add_def claim_def set_state_def)
    then show ?thesis using q True assms(2) by (auto simp: insert_absorb)
  next
    case False
    let ?c = "find_least_loaded_cpu me ?s"
    have "wake me t s = rq_push ?c t ?s"
      using False by (simp add: wake_def claim_and_add_def claim_def set_state_def sched_add_thread_def)
    moreover have "rqs (rq_push ?c t ?s) (Q(?c := Q ?c @ [t]))"
      using False assms(2) by (intro rq_push_rqs q) simp
    moreover have "queued (Q(?c := Q ?c @ [t])) = insert t (queued Q)"
      by (auto simp: queued_upd queued_split [of Q ?c])
    ultimately show ?thesis by auto
  qed
qed

section \<open>The contract of a bounded wake-up\<close>

text \<open>The waiters a scan is meant for, and a list without its first \<open>n\<close> such elements.\<close>

definition due :: "('w \<Rightarrow> nat option) \<Rightarrow> ('w \<Rightarrow> bool) \<Rightarrow> sched \<Rightarrow> 'w \<Rightarrow> bool" where
  "due owner wanted s w \<longleftrightarrow> blocked s (owner w) \<and> wanted w"

fun without_first :: "nat \<Rightarrow> ('w \<Rightarrow> bool) \<Rightarrow> 'w list \<Rightarrow> 'w list" where
  "without_first 0 P ws = ws"
| "without_first (Suc n) P [] = []"
| "without_first (Suc n) P (w # ws) =
    (if P w then without_first n P ws else w # without_first (Suc n) P ws)"

lemma without_first_Nil [simp]: "without_first n P [] = []"
  by (cases n) simp_all

lemma without_first_cong:
  "(\<And>w. w \<in> set ws \<Longrightarrow> P w = P' w) \<Longrightarrow> without_first n P ws = without_first n P' ws"
  by (induction n P ws rule: without_first.induct) auto

locale waiters =
  fixes owner :: "'w \<Rightarrow> nat option"
    and wanted :: "'w \<Rightarrow> bool"
    and scan :: "nat \<Rightarrow> nat \<Rightarrow> 'w list \<Rightarrow> sched \<Rightarrow> nat \<times> 'w list \<times> sched"
  assumes scan_end: "scan me 0 ws s = (0, ws, s)" "scan me n [] s = (0, [], s)"
    and scan_hit: "owner w = Some t \<Longrightarrow> blocked s (Some t) \<Longrightarrow> wanted w \<Longrightarrow>
      scan me (Suc n) (w # ws) s = (case scan me n ws (wake me t s) of (k, ws', s') \<Rightarrow> (Suc k, ws', s'))"
    and scan_miss: "\<not> (blocked s (owner w) \<and> wanted w) \<Longrightarrow>
      scan me (Suc n) (w # ws) s = (case scan me (Suc n) ws s of (k, ws', s') \<Rightarrow> (k, w # ws', s'))"
begin

lemma due_wake:
  assumes "owner w = Some t" "owner v \<noteq> Some t"
  shows "due owner wanted (wake me t s) v = due owner wanted s v"
  using assms by (auto simp: due_def blocked_def wake_state split: option.splits)

text \<open>The scan wakes the first \<open>n\<close> blocked waiters it is meant for, in list order, and leaves every
  other waiter where it was.\<close>

lemma scan_wakes:
  assumes "distinct (map owner ws)"
  shows "scan me n ws s = (let W = take n (filter (due owner wanted s) ws) in
    (length W, without_first n (due owner wanted s) ws, fold (wake me) (map (the \<circ> owner) W) s))"
  using assms
proof (induction ws arbitrary: n s)
  case Nil
  then show ?case by (cases n) (simp_all add: scan_end)
next
  case (Cons w ws)
  show ?case
  proof (cases n)
    case 0
    then show ?thesis by (simp add: scan_end)
  next
    case (Suc m)
    show ?thesis
    proof (cases "due owner wanted s w")
      case True
      then obtain t where t: "owner w = Some t" "blocked s (Some t)" "wanted w"
        by (auto simp: due_def blocked_def split: option.splits)
      have same: "due owner wanted (wake me t s) v = due owner wanted s v" if "v \<in> set ws" for v
        using Cons.prems that t(1) by (intro due_wake [OF t(1)]) force
      then have "filter (due owner wanted (wake me t s)) ws = filter (due owner wanted s) ws"
        by (intro filter_cong) auto
      moreover have "without_first m (due owner wanted (wake me t s)) ws =
          without_first m (due owner wanted s) ws"
        using same by (rule without_first_cong)
      ultimately show ?thesis
        using Cons.IH [of m "wake me t s"] Cons.prems True t Suc by (simp add: scan_hit Let_def)
    next
      case False
      then have "scan me (Suc m) (w # ws) s =
          (case scan me (Suc m) ws s of (k, ws', s') \<Rightarrow> (k, w # ws', s'))"
        by (simp add: scan_miss due_def)
      then show ?thesis
        using Cons.IH [of n s] Cons.prems Suc False by (simp add: Let_def)
    qed
  qed
qed

end

section \<open>Operations\<close>

record wq_entry =
  e_addr :: nat
  e_tcb :: "nat option"

type_synonym wait_queue = "wq_entry list"

definition wq_init :: wait_queue where
  "wq_init = []"

definition wq_add_entry :: "wq_entry \<Rightarrow> wait_queue \<Rightarrow> wait_queue" where
  "wq_add_entry e q = e # q"

fun wq_remove_entry :: "nat \<Rightarrow> wait_queue \<Rightarrow> wait_queue" where
  "wq_remove_entry a [] = []"
| "wq_remove_entry a (e # q) = (if e_addr e = a then q else e # wq_remove_entry a q)"

text \<open>\<open>others\<close> is everything that runs between the switch away and the return of \<open>sched_yield\<close>.\<close>

definition wq_wait ::
    "nat \<Rightarrow> nat \<Rightarrow> (wait_queue \<times> sched \<Rightarrow> wait_queue \<times> sched) \<Rightarrow> wait_queue \<times> sched \<Rightarrow>
     (wait_queue \<times> sched) option" where
  "wq_wait me a others qs = (case qs of (q, s) \<Rightarrow>
    (case sched_current me s of
       None \<Rightarrow> Some (q, s)
     | Some cur \<Rightarrow>
        (let q = wq_add_entry \<lparr>e_addr = a, e_tcb = Some cur\<rparr> q;
             s = set_state cur THREAD_BLOCKED s
         in case sched_yield me s of
              None \<Rightarrow> None
            | Some s \<Rightarrow> (case others (q, s) of (q, s) \<Rightarrow> Some (wq_remove_entry a q, s)))))"

definition wq_wait_deadline ::
    "nat \<Rightarrow> nat \<Rightarrow> nat \<Rightarrow> (wait_queue \<times> sched \<Rightarrow> wait_queue \<times> sched) \<Rightarrow> wait_queue \<times> sched \<Rightarrow>
     (wait_queue \<times> sched) option" where
  "wq_wait_deadline me a deadline others qs = (case qs of (q, s) \<Rightarrow>
    (case sched_current me s of
       None \<Rightarrow> Some (q, s)
     | Some cur \<Rightarrow>
        (let s = (if deadline \<noteq> 0 then upd_tcb cur (\<lambda>x. x\<lparr>sleep_deadline := deadline\<rparr>) s else s)
         in case wq_wait me a others (q, s) of
              None \<Rightarrow> None
            | Some (q, s) \<Rightarrow> Some (q, upd_tcb cur (\<lambda>x. x\<lparr>sleep_deadline := 0\<rparr>) s))))"

definition wake_entry :: "nat \<Rightarrow> wq_entry \<Rightarrow> sched \<Rightarrow> sched" where
  "wake_entry me e s = (case e_tcb e of
     None \<Rightarrow> s | Some t \<Rightarrow> if t_state (tcbs s t) = THREAD_BLOCKED then wake me t s else s)"

definition wq_wake_one :: "nat \<Rightarrow> wait_queue \<Rightarrow> sched \<Rightarrow> wait_queue \<times> sched" where
  "wq_wake_one me q s = (case q of [] \<Rightarrow> ([], s) | w # ws \<Rightarrow> (ws, wake_entry me w s))"

definition wq_wake_all :: "nat \<Rightarrow> wait_queue \<Rightarrow> sched \<Rightarrow> wait_queue \<times> sched" where
  "wq_wake_all me q s = ([], fold (wake_entry me) q s)"

text \<open>The loop of \<open>wq_wake_n\<close>; the first number is \<open>n - woken\<close>.\<close>

fun wq_wake_loop :: "nat \<Rightarrow> nat \<Rightarrow> wait_queue \<Rightarrow> sched \<Rightarrow> nat \<times> wait_queue \<times> sched" where
  "wq_wake_loop me 0 ws s = (0, ws, s)"
| "wq_wake_loop me (Suc n) [] s = (0, [], s)"
| "wq_wake_loop me (Suc n) (w # ws) s =
    (if blocked s (e_tcb w)
     then (case wq_wake_loop me n ws (wake_entry me w s) of (k, ws', s') \<Rightarrow> (Suc k, ws', s'))
     else (case wq_wake_loop me (Suc n) ws s of (k, ws', s') \<Rightarrow> (k, w # ws', s')))"

definition wq_wake_n :: "nat \<Rightarrow> int \<Rightarrow> wait_queue \<Rightarrow> sched \<Rightarrow> nat \<times> wait_queue \<times> sched" where
  "wq_wake_n me n q s = (if n \<le> 0 then (0, q, s) else wq_wake_loop me (nat n) q s)"

interpretation wq: waiters e_tcb "\<lambda>_. True" wq_wake_loop
proof (unfold_locales, goal_cases)
  case (2 me n s)
  then show ?case by (cases n) simp_all
next
  case (3 w t s me n ws)
  then show ?case by (simp add: wake_entry_def blocked_def)
qed auto

section \<open>Properties\<close>

lemma wake_all_fold:
  assumes "distinct (map e_tcb q)"
  shows "fold (wake_entry me) q s = fold (wake me) (map (the \<circ> e_tcb) (filter (due e_tcb (\<lambda>_. True) s) q)) s"
  using assms
proof (induction q arbitrary: s)
  case (Cons w q)
  show ?case
  proof (cases "due e_tcb (\<lambda>_. True) s w")
    case True
    then obtain t where t: "e_tcb w = Some t" "t_state (tcbs s t) = THREAD_BLOCKED"
      by (auto simp: due_def blocked_def split: option.splits)
    have "due e_tcb (\<lambda>_. True) (wake me t s) v = due e_tcb (\<lambda>_. True) s v" if "v \<in> set q" for v
      using Cons.prems that t(1) by (intro wq.due_wake [OF t(1)]) force
    then have "filter (due e_tcb (\<lambda>_. True) (wake me t s)) q = filter (due e_tcb (\<lambda>_. True) s) q" by (intro filter_cong) auto
    then show ?thesis using Cons True t by (simp add: wake_entry_def)
  next
    case False
    then have "wake_entry me w s = s"
      by (auto simp: due_def blocked_def wake_entry_def split: option.splits)
    then show ?thesis using Cons False by simp
  qed
qed simp

text \<open>The wait of a thread never takes it off the run queues: \<open>sched_yield\<close> marks it ready again.\<close>

lemma wq_wait_still_ready:
  assumes "ready_ring s c (x # xs)"
  shows "\<exists>s'. sched_yield 0 (set_state c THREAD_BLOCKED s) = Some s' \<and>
    ready_ring s' x (xs @ [c]) \<and> t_state (tcbs s' c) = THREAD_READY"
proof -
  have "ready_ring (set_state c THREAD_BLOCKED s) c (x # xs)"
    by (rule ring_cong [OF assms]) (simp_all add: set_state_def)
  from yield_ring [OF this] show ?thesis by blast
qed

end
