(* ===== verification/Futex.thy ===== *)
theory Futex
  imports WaitQueue
begin

text \<open>
  Futexes (\<open>kernel/sync/futex.c\<close>): a table of 64 buckets of waiters, keyed by a hash of the user
  address.  User memory is a parameter: \<open>valid\<close> is the outcome of the range check and \<open>user\<close> the
  word \<open>copy_from_user\<close> reads, \<^const>\<open>None\<close> on a fault.  A wait is split where the thread leaves
  the processor: \<open>futex_wait_enqueue\<close> under the bucket lock, \<open>futex_wait_sleep\<close> up to the switch,
  \<open>futex_wait_resume\<close> after it.
\<close>

section \<open>State\<close>

record futex_waiter =
  w_addr :: nat
  w_tcb :: "nat option"
  bitset :: u32
  bucket :: nat

type_synonym futex_table = "nat \<Rightarrow> futex_waiter list"

definition FUTEX_HASH_SIZE :: nat where
  "FUTEX_HASH_SIZE = 64"

definition FUTEX_BITSET_MATCH_ANY :: u32 where
  "FUTEX_BITSET_MATCH_ANY = 0xFFFFFFFF"

definition EAGAIN :: int where "EAGAIN = 11"

definition EFAULT :: int where "EFAULT = 14"

definition EINVAL :: int where "EINVAL = 22"

definition futex_hash :: "nat \<Rightarrow> nat" where
  "futex_hash p = take_bit 32 (drop_bit 3 p XOR drop_bit 13 p) AND (FUTEX_HASH_SIZE - 1)"

section \<open>Waiting\<close>

definition futex_wait_enqueue ::
    "nat \<Rightarrow> (nat \<Rightarrow> bool) \<Rightarrow> (nat \<Rightarrow> u32 option) \<Rightarrow> nat \<Rightarrow> nat \<Rightarrow> u32 \<Rightarrow> u32 \<Rightarrow>
     futex_table \<times> sched \<Rightarrow> int + futex_table \<times> sched" where
  "futex_wait_enqueue me valid user a uaddr val bs fs = (case fs of (f, s) \<Rightarrow>
     if \<not> valid uaddr then Inl (- EFAULT)
     else case sched_current me s of
       None \<Rightarrow> Inl (- EINVAL)
     | Some cur \<Rightarrow>
        (let b = futex_hash uaddr;
             w = \<lparr>w_addr = a, w_tcb = Some cur, bitset = bs, bucket = b\<rparr>
         in case user uaddr of
              None \<Rightarrow> Inl (- EFAULT)
            | Some v \<Rightarrow> if v \<noteq> val then Inl (- EAGAIN)
                else Inr (f(b := w # f b), set_state cur THREAD_BLOCKED s)))"

definition futex_wait_sleep :: "nat \<Rightarrow> sched \<Rightarrow> sched option" where
  "futex_wait_sleep me s = schedule me (thread_reap_zombies me s)"

fun unlink_waiter :: "nat \<Rightarrow> futex_waiter list \<Rightarrow> futex_waiter list" where
  "unlink_waiter a [] = []"
| "unlink_waiter a (w # ws) = (if w_addr w = a then ws else w # unlink_waiter a ws)"

definition futex_wait_resume :: "nat \<Rightarrow> nat \<Rightarrow> futex_table \<Rightarrow> futex_table" where
  "futex_wait_resume a b f = f(b := unlink_waiter a (f b))"

text \<open>The whole call: \<open>others\<close> is what runs until the thread is resumed, and tells the bucket the
  node names by then.\<close>

definition futex_wait_bitset ::
    "nat \<Rightarrow> (nat \<Rightarrow> bool) \<Rightarrow> (nat \<Rightarrow> u32 option) \<Rightarrow> nat \<Rightarrow>
     (futex_table \<times> sched \<Rightarrow> nat \<times> futex_table \<times> sched) \<Rightarrow> nat \<Rightarrow> u32 \<Rightarrow> u32 \<Rightarrow>
     futex_table \<times> sched \<Rightarrow> (int \<times> futex_table \<times> sched) option" where
  "futex_wait_bitset me valid user a others uaddr val bs fs =
    (case futex_wait_enqueue me valid user a uaddr val bs fs of
       Inl e \<Rightarrow> Some (e, fs)
     | Inr (f, s) \<Rightarrow> (case futex_wait_sleep me s of
         None \<Rightarrow> None
       | Some s \<Rightarrow> (case others (f, s) of (b, f, s) \<Rightarrow> Some (0, futex_wait_resume a b f, s))))"

definition futex_wait ::
    "nat \<Rightarrow> (nat \<Rightarrow> bool) \<Rightarrow> (nat \<Rightarrow> u32 option) \<Rightarrow> nat \<Rightarrow>
     (futex_table \<times> sched \<Rightarrow> nat \<times> futex_table \<times> sched) \<Rightarrow> nat \<Rightarrow> u32 \<Rightarrow>
     futex_table \<times> sched \<Rightarrow> (int \<times> futex_table \<times> sched) option" where
  "futex_wait me valid user a others uaddr val =
     futex_wait_bitset me valid user a others uaddr val FUTEX_BITSET_MATCH_ANY"

section \<open>Waking and requeueing\<close>

text \<open>The loop of \<open>futex_wake_bitset\<close>; the first number is \<open>n - woken\<close>.\<close>

fun futex_wake_loop :: "u32 \<Rightarrow> nat \<Rightarrow> nat \<Rightarrow> futex_waiter list \<Rightarrow> sched \<Rightarrow> nat \<times> futex_waiter list \<times> sched" where
  "futex_wake_loop bs me 0 ws s = (0, ws, s)"
| "futex_wake_loop bs me (Suc n) [] s = (0, [], s)"
| "futex_wake_loop bs me (Suc n) (w # ws) s = (case w_tcb w of
     Some t \<Rightarrow>
       if t_state (tcbs s t) = THREAD_BLOCKED \<and> bitset w AND bs \<noteq> 0
       then (case futex_wake_loop bs me n ws (wake me t s) of (k, ws', s') \<Rightarrow> (Suc k, ws', s'))
       else (case futex_wake_loop bs me (Suc n) ws s of (k, ws', s') \<Rightarrow> (k, w # ws', s'))
   | None \<Rightarrow> (case futex_wake_loop bs me (Suc n) ws s of (k, ws', s') \<Rightarrow> (k, w # ws', s')))"

definition futex_wake_bitset ::
    "nat \<Rightarrow> (nat \<Rightarrow> bool) \<Rightarrow> nat \<Rightarrow> int \<Rightarrow> u32 \<Rightarrow> futex_table \<times> sched \<Rightarrow> int \<times> futex_table \<times> sched" where
  "futex_wake_bitset me valid uaddr n bs fs = (case fs of (f, s) \<Rightarrow>
     if n \<le> 0 then (0, f, s)
     else if \<not> valid uaddr then (- EFAULT, f, s)
     else let b = futex_hash uaddr in
       (case futex_wake_loop bs me (nat n) (f b) s of (k, ws, s') \<Rightarrow> (int k, f(b := ws), s')))"

definition futex_wake ::
    "nat \<Rightarrow> (nat \<Rightarrow> bool) \<Rightarrow> nat \<Rightarrow> int \<Rightarrow> futex_table \<times> sched \<Rightarrow> int \<times> futex_table \<times> sched" where
  "futex_wake me valid uaddr n = futex_wake_bitset me valid uaddr n FUTEX_BITSET_MATCH_ANY"

text \<open>The first loop of \<open>futex_requeue\<close>, which ignores the bitsets.\<close>

fun requeue_wake_loop :: "nat \<Rightarrow> nat \<Rightarrow> futex_waiter list \<Rightarrow> sched \<Rightarrow> nat \<times> futex_waiter list \<times> sched" where
  "requeue_wake_loop me 0 ws s = (0, ws, s)"
| "requeue_wake_loop me (Suc n) [] s = (0, [], s)"
| "requeue_wake_loop me (Suc n) (w # ws) s = (case w_tcb w of
     Some t \<Rightarrow>
       if t_state (tcbs s t) = THREAD_BLOCKED
       then (case requeue_wake_loop me n ws (wake me t s) of (k, ws', s') \<Rightarrow> (Suc k, ws', s'))
       else (case requeue_wake_loop me (Suc n) ws s of (k, ws', s') \<Rightarrow> (k, w # ws', s'))
   | None \<Rightarrow> (case requeue_wake_loop me (Suc n) ws s of (k, ws', s') \<Rightarrow> (k, w # ws', s')))"

definition requeue_move :: "nat \<Rightarrow> nat \<Rightarrow> futex_table \<Rightarrow> futex_table" where
  "requeue_move a b f =
    (if b \<noteq> a \<and> f a \<noteq> []
     then f(b := map (\<lambda>w. w\<lparr>bucket := b\<rparr>) (f a) @ f b, a := []) else f)"

definition futex_requeue ::
    "nat \<Rightarrow> (nat \<Rightarrow> bool) \<Rightarrow> (nat \<Rightarrow> u32 option) \<Rightarrow> nat \<Rightarrow> int \<Rightarrow> nat option \<Rightarrow> u32 \<Rightarrow>
     futex_table \<times> sched \<Rightarrow> int \<times> futex_table \<times> sched" where
  "futex_requeue me valid user uaddr nr_wake uaddr2 cmpval fs = (case fs of (f, s) \<Rightarrow>
     if \<not> valid uaddr then (- EFAULT, f, s)
     else if uaddr2 \<noteq> None \<and> \<not> valid (the uaddr2) then (- EFAULT, f, s)
     else let a = futex_hash uaddr;
              b = (case uaddr2 of Some u \<Rightarrow> futex_hash u | None \<Rightarrow> a)
       in if cmpval \<noteq> 0 \<and> user uaddr = None then (- EFAULT, f, s)
          else if cmpval \<noteq> 0 \<and> user uaddr \<noteq> Some cmpval then (- EAGAIN, f, s)
          else (case requeue_wake_loop me (nat nr_wake) (f a) s of (k, ws, s') \<Rightarrow>
                 (int k, requeue_move a b (f(a := ws)), s')))"

section \<open>Instances of the scan contract\<close>

interpretation fw: waiters w_tcb "\<lambda>w. bitset w AND bs \<noteq> 0" "futex_wake_loop bs" for bs
proof (unfold_locales, goal_cases)
  case (2 me n s)
  then show ?case by (cases n) simp_all
qed (auto simp: blocked_def split: option.splits)

interpretation fr: waiters w_tcb "\<lambda>_. True" requeue_wake_loop
proof (unfold_locales, goal_cases)
  case (2 me n s)
  then show ?case by (cases n) simp_all
qed (auto simp: blocked_def split: option.splits)

lemma futex_hash_less: "futex_hash p < FUTEX_HASH_SIZE"
proof -
  have "x AND 63 < 64" for x :: nat
  proof -
    have "x AND 63 = take_bit 6 x" by (simp add: take_bit_eq_mask mask_eq_exp_minus_1)
    then show ?thesis using take_bit_nat_less_exp [of 6 x] by simp
  qed
  then show ?thesis by (simp add: futex_hash_def FUTEX_HASH_SIZE_def)
qed



definition demo_waiter :: "nat \<Rightarrow> u32 \<Rightarrow> futex_waiter" where
  "demo_waiter t bs = \<lparr>w_addr = t, w_tcb = Some t, bitset = bs, bucket = 1\<rparr>"


section \<open>A wait that loses its wake-up\<close>

lemma wake_loop_none:
  "(\<And>w. w \<in> set ws \<Longrightarrow> \<not> blocked s (w_tcb w)) \<Longrightarrow> futex_wake_loop bs me n ws s = (0, ws, s)"
proof (induction ws arbitrary: n)
  case (Cons w ws)
  then show ?case by (cases n) (simp_all add: fw.scan_end fw.scan_miss del: futex_wake_loop.simps(3))
qed (simp add: fw.scan_end)

lemma tick_rotates:
  assumes "ready_ring s c (x # xs)" "scheduler_ready s" "quantum (tcbs s c) = 1"
  shows "\<exists>s' a'. sched_tick 0 hz (s, a) = (Some s', a') \<and> ready_ring s' x (xs @ [c])"
proof -
  let ?s = "set_state c THREAD_READY (upd_tcb c (\<lambda>t. t\<lparr>quantum := SCHED_QUANTUM\<rparr>)
    (upd_tcb c (\<lambda>t. t\<lparr>quantum := sub64 (quantum t) 1\<rparr>) s))"
  have "ready_ring ?s c (x # xs)" by (rule ring_cong [OF assms(1)]) (simp_all add: set_state_def)
  moreover have "t_state (tcbs ?s c) = THREAD_READY" by (simp add: set_state_def)
  ultimately obtain s' where "schedule 0 ?s = Some s'" "ready_ring s' x (xs @ [c])"
    using schedule_ring_rotate by blast
  moreover have "sub64 1 1 = 0" by (simp add: sub64_def)
  ultimately show ?thesis using assms
    by (auto simp: sched_tick_def ready_ring_def Let_def)
qed




end
