(* ===== verification/Spec2Isabelle.thy ===== *)
theory Spec2Isabelle
  imports Pmm_Props TcpQueue IpReasm Ipv6Addr_Props DnsParse DnsCache VfsMount PageFault Heap_Realloc SizeClass Mprotect KHeap_Live SchedSmp Futex
begin

text \<open>
  A verification library for the AuraLite kernel.
\<close>

end
